(* ===== verification/Vity_Prelude.thy ===== *)
theory Vity_Prelude
  imports Main "HOL-Library.Word" "HOL-Library.Char_ord" "HOL-Library.List_Lexorder"
begin

text \<open>
  What every component of the development shares: the ways a C++ operation can fail
  (\<open>fault\<close>), the result type \<open>fault + 'a\<close> with its bind, the pieces of
  \<^verbatim>\<open>std::string\<close> and \<^verbatim>\<open><cctype>\<close> the sources use (substrings,
  \<^verbatim>\<open>find_first_not_of\<close>, \<^verbatim>\<open>isalpha\<close>, \<^verbatim>\<open>tolower\<close> in the C locale),
  decimal output of integers, and the fact collections of the component proofs.
\<close>

section \<open>Fact collections\<close>

named_theorems keeps "operations that preserve the invariant of their component"
named_theorems opdefs "unfolding of the operations of a component"

section \<open>Failures and results\<close>

text \<open>
  A \<^verbatim>\<open>VITY_ASSERT\<close> that fails aborts the process (\<open>Assertion\<close>; the build
  sets no \<^verbatim>\<open>NDEBUG\<close>), a C++ exception propagates (\<open>Thrown\<close>), and an access
  the language leaves undefined (null dereference, index out of range, read of
  uninitialised memory) is \<open>Undefined\<close>.
\<close>

datatype exn =
    Std_exception string
  | Other_exception

datatype fault =
    Assertion string
  | Thrown exn
  | Undefined string

type_synonym 'a res = "fault + 'a"

definition bindR :: "'a res \<Rightarrow> ('a \<Rightarrow> 'b res) \<Rightarrow> 'b res" where
  "bindR m k = (case m of Inl e \<Rightarrow> Inl e | Inr x \<Rightarrow> k x)"

lemma bindR_simps [simp]:
  "bindR (Inl e) k = Inl e"
  "bindR (Inr x) k = k x"
  by (simp_all add: bindR_def)

lemma bindR_Inr_iff [simp]: "bindR m k = Inr y \<longleftrightarrow> (\<exists>x. m = Inr x \<and> k x = Inr y)"
  by (cases m) auto

lemma bindR_Inl_iff: "bindR m k = Inl e \<longleftrightarrow> m = Inl e \<or> (\<exists>x. m = Inr x \<and> k x = Inl e)"
  by (cases m) auto

lemma bindR_assoc: "bindR (bindR r f) g = bindR r (\<lambda>x. bindR (f x) g)"
  by (cases r) simp_all

lemma bindR_if: "bindR (if b then x else y) k = (if b then bindR x k else bindR y k)"
  by simp

lemma bindR_Inr: "bindR r Inr = r"
  by (cases r) simp_all

lemma bindR_cong [fundef_cong]:
  "m = m' \<Longrightarrow> (\<And>x. m' = Inr x \<Longrightarrow> k x = k' x) \<Longrightarrow> bindR m k = bindR m' k'"
  by (cases m') auto

text \<open>A loop that stops at the first failure and collects the results.\<close>

fun mapR :: "('a \<Rightarrow> 'b res) \<Rightarrow> 'a list \<Rightarrow> 'b list res" where
  "mapR f [] = Inr []"
| "mapR f (x # xs) = bindR (f x) (\<lambda>y. bindR (mapR f xs) (\<lambda>ys. Inr (y # ys)))"

lemma mapR_Inr_map: "(\<And>x. x \<in> set xs \<Longrightarrow> f x = Inr (g x)) \<Longrightarrow> mapR f xs = Inr (map g xs)"
  by (induction xs) auto

lemma mapR_length: "mapR f xs = Inr ys \<Longrightarrow> length ys = length xs"
  by (induction xs arbitrary: ys) auto

lemma mapR_cong [fundef_cong]:
  "xs = ys \<Longrightarrow> (\<And>x. x \<in> set ys \<Longrightarrow> f x = g x) \<Longrightarrow> mapR f xs = mapR g ys"
  by (induction ys arbitrary: xs) (auto intro!: bindR_cong)

text \<open>A loop that threads a state and stops at the first failure.\<close>

fun foldR :: "('a \<Rightarrow> 's \<Rightarrow> 's res) \<Rightarrow> 'a list \<Rightarrow> 's \<Rightarrow> 's res" where
  "foldR f [] s = Inr s"
| "foldR f (x # xs) s = bindR (f x s) (foldR f xs)"

lemma foldR_append: "foldR f (xs @ ys) s = bindR (foldR f xs s) (foldR f ys)"
  by (induction xs arbitrary: s) (auto simp: bindR_def split: sum.splits)

lemma foldR_invariant:
  assumes "foldR f xs s = Inr t" and "P s"
    and "\<And>x s t. x \<in> set xs \<Longrightarrow> P s \<Longrightarrow> f x s = Inr t \<Longrightarrow> P t"
  shows "P t"
  using assms by (induction xs arbitrary: s) auto

text \<open>What holds at the start and is kept by every step holds in every reached state.\<close>

lemma reach_invariant:
  assumes "r\<^sup>*\<^sup>* s0 s" and "P s0" and "\<And>s t. r s t \<Longrightarrow> P s \<Longrightarrow> P t"
  shows "P s"
  using assms by (induction rule: rtranclp_induct) auto

section \<open>Strings\<close>

definition substr :: "string \<Rightarrow> nat \<Rightarrow> nat \<Rightarrow> string" where
  "substr s pos len = take len (drop pos s)"

definition alphabet_lower :: string where
  "alphabet_lower = ''abcdefghijklmnopqrstuvwxyz''"

definition alphabet_upper :: string where
  "alphabet_upper = ''ABCDEFGHIJKLMNOPQRSTUVWXYZ''"

definition isalpha :: "char \<Rightarrow> bool" where
  "isalpha c \<longleftrightarrow> c \<in> set alphabet_lower \<or> c \<in> set alphabet_upper"

definition tolower :: "char \<Rightarrow> char" where
  "tolower c = (case map_of (zip alphabet_upper alphabet_lower) c of Some l \<Rightarrow> l | None \<Rightarrow> c)"

text \<open>\<^verbatim>\<open>s.find_first_not_of(cs)\<close>: the first index holding a character outside
  \<open>cs\<close>, \<^verbatim>\<open>npos\<close> (\<open>None\<close>) if there is none.\<close>

fun find_first_not_of :: "string \<Rightarrow> string \<Rightarrow> nat option" where
  "find_first_not_of [] cs = None"
| "find_first_not_of (c # s) cs =
     (if c \<in> set cs then map_option Suc (find_first_not_of s cs) else Some 0)"

lemma find_first_not_of_None: "find_first_not_of s cs = None \<longleftrightarrow> set s \<subseteq> set cs"
  by (induction s) auto

lemma tolower_not_upper: "c \<notin> set alphabet_upper \<Longrightarrow> tolower c = c"
proof -
  assume "c \<notin> set alphabet_upper"
  then have "map_of (zip alphabet_upper alphabet_lower) c = None"
    by (auto simp: map_of_eq_None_iff dest: set_zip_leftD)
  then show ?thesis by (simp add: tolower_def)
qed

section \<open>Decimal output of integers\<close>

definition digit_char :: "nat \<Rightarrow> char" where
  "digit_char d = ''0123456789'' ! d"

fun string_of_nat :: "nat \<Rightarrow> string" where
  "string_of_nat n =
     (if n < 10 then [digit_char n] else string_of_nat (n div 10) @ [digit_char (n mod 10)])"

declare string_of_nat.simps [simp del]

definition string_of_int :: "int \<Rightarrow> string" where
  "string_of_int i = (if i < 0 then CHR ''-'' # string_of_nat (nat (- i)) else string_of_nat (nat i))"

lemma digit_char_inj: "d < 10 \<Longrightarrow> e < 10 \<Longrightarrow> digit_char d = digit_char e \<Longrightarrow> d = e"
proof -
  assume "d < 10" "e < 10" "digit_char d = digit_char e"
  moreover have "distinct (''0123456789'' :: string)" by simp
  ultimately show ?thesis unfolding digit_char_def
    by (subst (asm) nth_eq_iff_index_eq) auto
qed

lemma string_of_nat_not_Nil [simp]: "string_of_nat n \<noteq> []"
  by (subst string_of_nat.simps) simp

lemma string_of_nat_not_Nil' [simp]: "[] \<noteq> string_of_nat n"
  by (metis string_of_nat_not_Nil)

lemma string_of_nat_inj: "string_of_nat m = string_of_nat n \<Longrightarrow> m = n"
proof (induction m arbitrary: n rule: less_induct)
  case (less m)
  have "m mod 10 < 10" "n mod 10 < 10" by simp_all
  note dig = digit_char_inj [OF this]
  show ?case
  proof (cases "m < 10 \<or> n < 10")
    case True
    with less.prems show ?thesis
      by (auto simp: string_of_nat.simps [of m] string_of_nat.simps [of n]
          split: if_splits intro: digit_char_inj)
  next
    case False
    with less.prems have eq: "string_of_nat (m div 10) = string_of_nat (n div 10)"
      and "digit_char (m mod 10) = digit_char (n mod 10)"
      by (simp_all add: string_of_nat.simps [of m] string_of_nat.simps [of n])
    from False eq have "m div 10 = n div 10" by (intro less.IH) auto
    moreover have "m mod 10 = n mod 10" by (rule dig) fact
    ultimately show ?thesis by (metis div_mult_mod_eq)
  qed
qed

end
