(* ===== verification/Fibers.thy ===== *)
theory Fibers
  imports Vity_Prelude
begin

text \<open>
  \<^verbatim>\<open>Fiber\<close> of \<^verbatim>\<open>vity/fiber.h\<close>, \<^verbatim>\<open>vity/fiber.cc\<close>: the fibers one thread
  works with, its thread-local pointers, and the user-level context switches. A saved
  \<^verbatim>\<open>ucontext_t\<close> is represented by what resuming it does. What a fiber's callback does between
  two switches is not represented; every operation of the class it can perform is.
\<close>

text \<open>\<open>TERM'\<close> is the source's \<^verbatim>\<open>TERM\<close>, a reserved word of the logic.\<close>

datatype State = INIT | HOLD | EXEC | TERM' | READY | EXCEPT

text \<open>The two functions \<^verbatim>\<open>makecontext\<close> is given.\<close>

datatype entry = MainFunc | CallerMainFunc

text \<open>A stack: the one the thread started on, or that of the fiber at an address, entered
  through one of the two functions.\<close>

datatype stk = Native | Own nat entry

text \<open>
  Resuming a context starts the entry function on the fiber's own stack (\<open>Fresh\<close>), continues
  after the \<^verbatim>\<open>swapcontext\<close> that saved it on some stack (\<open>Suspended\<close>; the flag marks the final
  switch of an entry function, after which only \<^verbatim>\<open>VITY_ASSERT2(false,"never reach")\<close>
  remains), or would continue a constructor long since left (\<open>Captured\<close>, from
  \<^verbatim>\<open>getcontext\<close> in \<^verbatim>\<open>Fiber::Fiber()\<close>).
\<close>

datatype ctx = Fresh entry | Suspended stk bool | Captured

record 'cb fiber =
  fb_id :: "64 word"
  fb_stacksize :: "32 word"
  fb_state :: State
  fb_ctx :: ctx
  fb_stack :: "nat option"
  fb_cb :: "'cb option"

text \<open>
  The fibers by address, the process-wide counters, the thread-local variables of
  \<^verbatim>\<open>fiber.cc\<close> (\<open>t_fiber\<close>, \<open>t_threadFiber\<close>) and of \<^verbatim>\<open>scheduler.cc\<close>
  (\<open>main_fiber\<close>, read by \<^verbatim>\<open>Scheduler::GetMainFiber\<close>), and the stack the processor is on.
\<close>

record 'cb fiber_sys =
  fibers :: "nat \<rightharpoonup> 'cb fiber"
  next_addr :: nat
  s_fiber_id :: "64 word"
  s_fiber_count :: "64 word"
  t_fiber :: "nat option"
  t_threadFiber :: "nat option"
  main_fiber :: "nat option"
  running :: stk

definition deref :: "nat option \<Rightarrow> 'cb fiber_sys \<Rightarrow> (nat \<times> 'cb fiber) res" where
  "deref p st = (case p of
      None \<Rightarrow> Inl (Undefined ''null Fiber pointer'')
    | Some a \<Rightarrow> (case fibers st a of
        None \<Rightarrow> Inl (Undefined ''dangling Fiber pointer'')
      | Some f \<Rightarrow> Inr (a, f)))"

definition put_fiber :: "nat \<Rightarrow> 'cb fiber \<Rightarrow> 'cb fiber_sys \<Rightarrow> 'cb fiber_sys" where
  "put_fiber a f st = st\<lparr>fibers := (fibers st)(a \<mapsto> f)\<rparr>"

section \<open>Current fiber and construction\<close>

definition SetThis :: "nat option \<Rightarrow> 'cb fiber_sys \<Rightarrow> 'cb fiber_sys" where
  "SetThis f st = st\<lparr>t_fiber := f\<rparr>"

text \<open>\<^verbatim>\<open>Fiber::Fiber()\<close>, the fiber of the stack the thread started on.\<close>

definition Fiber_new_main :: "'cb fiber_sys \<Rightarrow> nat \<times> 'cb fiber_sys" where
  "Fiber_new_main st =
    (let a = next_addr st;
         f = \<lparr>fb_id = 0, fb_stacksize = 0, fb_state = EXEC, fb_ctx = Captured, fb_stack = None, fb_cb = None\<rparr>
     in (a, (SetThis (Some a) (put_fiber a f st))
              \<lparr>next_addr := Suc a, s_fiber_count := s_fiber_count st + 1\<rparr>))"

definition GetThis :: "'cb fiber_sys \<Rightarrow> (nat \<times> 'cb fiber_sys) res" where
  "GetThis st =
    (if t_fiber st \<noteq> None then bindR (deref (t_fiber st) st) (\<lambda>(a, f). Inr (a, st))
     else
       (let (a, st1) = Fiber_new_main st; st2 = st1\<lparr>t_threadFiber := Some a\<rparr> in
        if t_fiber st2 = Some a then Inr (a, st2)
        else Inl (Assertion ''t_fiber == main_fiber.get()'')))"

text \<open>
  \<^verbatim>\<open>Fiber::Fiber(cb, stacksize, use_caller)\<close>. \<open>cfg\<close> is the value of the configuration
  variable \<^verbatim>\<open>fiber.stack_size\<close>, \<open>mem\<close> the address \<^verbatim>\<open>malloc\<close> returns (\<open>None\<close>: null).
  The size is a \<^verbatim>\<open>size_t\<close> stored into a \<^verbatim>\<open>uint32_t\<close>.
\<close>

definition Fiber_new ::
  "32 word \<Rightarrow> nat option \<Rightarrow> 'cb \<Rightarrow> 64 word \<Rightarrow> bool \<Rightarrow> 'cb fiber_sys \<Rightarrow> nat \<times> 'cb fiber_sys"
where
  "Fiber_new cfg mem cb stacksize use_caller st =
    (let a = next_addr st; fid = s_fiber_id st + 1;
         f = \<lparr>fb_id = fid,
              fb_stacksize = ucast (if stacksize \<noteq> 0 then stacksize else ucast cfg),
              fb_state = INIT,
              fb_ctx = Fresh (if \<not> use_caller then MainFunc else CallerMainFunc),
              fb_stack = mem, fb_cb = Some cb\<rparr>
     in (a, (put_fiber a f st)
              \<lparr>next_addr := Suc a, s_fiber_id := fid, s_fiber_count := s_fiber_count st + 1\<rparr>))"

text \<open>The destructor of the fiber at an address.\<close>

definition Fiber_delete :: "nat \<Rightarrow> 'cb fiber_sys \<Rightarrow> 'cb fiber_sys res" where
  "Fiber_delete a st = bindR (deref (Some a) st) (\<lambda>(a, f).
     let st1 = st\<lparr>s_fiber_count := s_fiber_count st - 1\<rparr>;
         gone = (\<lambda>s. s\<lparr>fibers := (fibers s)(a := None)\<rparr>) in
     if fb_stack f \<noteq> None then
       (if fb_state f = INIT \<or> fb_state f = EXCEPT \<or> fb_state f = TERM' then Inr (gone st1)
        else Inl (Assertion ''m_state == INIT || m_state == EXCEPT || m_state == TERM''))
     else if fb_cb f \<noteq> None then Inl (Assertion ''!m_cb'')
     else if fb_state f \<noteq> EXEC then Inl (Assertion ''m_state == EXEC'')
     else Inr (gone (if t_fiber st1 = Some a then SetThis None st1 else st1)))"

definition Fiber_reset :: "nat \<Rightarrow> 'cb option \<Rightarrow> 'cb fiber_sys \<Rightarrow> 'cb fiber_sys res" where
  "Fiber_reset a cb st = bindR (deref (Some a) st) (\<lambda>(a, f).
     if fb_stack f = None then Inl (Assertion ''m_stack'')
     else if \<not> (fb_state f = INIT \<or> fb_state f = EXCEPT \<or> fb_state f = TERM')
     then Inl (Assertion ''m_state == INIT || m_state == EXCEPT || m_state == TERM'')
     else Inr (put_fiber a (f\<lparr>fb_cb := cb, fb_ctx := Fresh MainFunc, fb_state := INIT\<rparr>) st))"

section \<open>Context switches\<close>

text \<open>
  \<^verbatim>\<open>swapcontext(&dst->m_ctx, &src->m_ctx)\<close>: save the running computation in the one,
  resume the other. \<open>final\<close> marks the switch at the end of an entry function.
\<close>

definition swapcontext :: "bool \<Rightarrow> nat option \<Rightarrow> nat option \<Rightarrow> 'cb fiber_sys \<Rightarrow> 'cb fiber_sys res" where
  "swapcontext final dst src st =
    bindR (deref dst st) (\<lambda>(d, fd).
      let st1 = put_fiber d (fd\<lparr>fb_ctx := Suspended (running st) final\<rparr>) st in
      bindR (deref src st1) (\<lambda>(s, fs).
        case fb_ctx fs of
          Fresh e \<Rightarrow> Inr (st1\<lparr>running := Own s e\<rparr>)
        | Suspended k at_end \<Rightarrow>
            if at_end then Inl (Assertion ''never reach'') else Inr (st1\<lparr>running := k\<rparr>)
        | Captured \<Rightarrow> Inl (Undefined ''resumes a constructor'')))"

definition Fiber_call :: "nat \<Rightarrow> 'cb fiber_sys \<Rightarrow> 'cb fiber_sys res" where
  "Fiber_call a st = bindR (deref (Some a) st) (\<lambda>(a, f).
     let st1 = put_fiber a (f\<lparr>fb_state := EXEC\<rparr>) (SetThis (Some a) st)
     in swapcontext False (t_threadFiber st1) (Some a) st1)"

definition Fiber_back :: "bool \<Rightarrow> nat \<Rightarrow> 'cb fiber_sys \<Rightarrow> 'cb fiber_sys res" where
  "Fiber_back final a st =
     swapcontext final (Some a) (t_threadFiber st) (SetThis (t_threadFiber st) st)"

definition Fiber_swapIn :: "nat \<Rightarrow> 'cb fiber_sys \<Rightarrow> 'cb fiber_sys res" where
  "Fiber_swapIn a st = bindR (deref (Some a) st) (\<lambda>(a, f).
     let st1 = SetThis (Some a) st in
     if fb_state f = EXEC then Inl (Assertion ''m_state != EXEC'')
     else swapcontext False (main_fiber st1) (Some a) (put_fiber a (f\<lparr>fb_state := EXEC\<rparr>) st1))"

text \<open>\<^verbatim>\<open>swapOut\<close> first sets the current fiber to what it already is.\<close>

definition Fiber_swapOut :: "bool \<Rightarrow> nat \<Rightarrow> 'cb fiber_sys \<Rightarrow> 'cb fiber_sys res" where
  "Fiber_swapOut final a st = swapcontext final (Some a) (main_fiber st) (SetThis (t_fiber st) st)"

definition set_state :: "nat \<Rightarrow> State \<Rightarrow> 'cb fiber_sys \<Rightarrow> 'cb fiber_sys res" where
  "set_state a s st = bindR (deref (Some a) st) (\<lambda>(a, f). Inr (put_fiber a (f\<lparr>fb_state := s\<rparr>) st))"

definition YieldToReady :: "'cb fiber_sys \<Rightarrow> 'cb fiber_sys res" where
  "YieldToReady st = bindR (GetThis st) (\<lambda>(cur, st1).
     bindR (set_state cur READY st1) (Fiber_swapOut False cur))"

definition YieldToHold :: "'cb fiber_sys \<Rightarrow> 'cb fiber_sys res" where
  "YieldToHold st = bindR (GetThis st) (\<lambda>(cur, st1).
     bindR (set_state cur HOLD st1) (Fiber_swapOut False cur))"

text \<open>
  What \<^verbatim>\<open>MainFunc\<close> and \<^verbatim>\<open>CallerMainFunc\<close> do once the callback is over; \<open>threw\<close> says
  whether it ended with an exception. \<open>cur\<close> is the fiber the function read at its start.
\<close>

definition record_end :: "bool \<Rightarrow> nat \<Rightarrow> 'cb fiber_sys \<Rightarrow> 'cb fiber_sys res" where
  "record_end threw cur st = bindR (deref (Some cur) st) (\<lambda>(cur, f).
     Inr (put_fiber cur (if threw then f\<lparr>fb_state := EXCEPT\<rparr> else f\<lparr>fb_cb := None, fb_state := TERM'\<rparr>) st))"

definition MainFunc_end :: "bool \<Rightarrow> nat \<Rightarrow> 'cb fiber_sys \<Rightarrow> 'cb fiber_sys res" where
  "MainFunc_end threw cur st = bindR (record_end threw cur st) (Fiber_swapOut True cur)"

definition CallerMainFunc_end :: "bool \<Rightarrow> nat \<Rightarrow> 'cb fiber_sys \<Rightarrow> 'cb fiber_sys res" where
  "CallerMainFunc_end threw cur st = bindR (record_end threw cur st) (Fiber_back True cur)"

definition TotalFibers :: "'cb fiber_sys \<Rightarrow> 64 word" where
  "TotalFibers st = s_fiber_count st"

definition Fiber_GetFiberId :: "'cb fiber_sys \<Rightarrow> 64 word res" where
  "Fiber_GetFiberId st =
    (if t_fiber st \<noteq> None then bindR (deref (t_fiber st) st) (\<lambda>(a, f). Inr (fb_id f)) else Inr 0)"

lemmas fiber_defs [opdefs] =
  deref_def put_fiber_def SetThis_def Fiber_new_main_def GetThis_def Fiber_new_def Fiber_delete_def
  Fiber_reset_def swapcontext_def Fiber_call_def Fiber_back_def Fiber_swapIn_def Fiber_swapOut_def
  set_state_def YieldToReady_def YieldToHold_def record_end_def MainFunc_end_def CallerMainFunc_end_def

section \<open>The scheduling discipline\<close>

text \<open>
  The operations as the scheduler and its fibers perform them in one thread. \<open>m\<close> is the fiber
  \<^verbatim>\<open>GetMainFiber\<close> returns there and \<open>k\<close> the stack its loop runs on (the native one in a
  pool thread, the root fiber's in the caller's thread).
\<close>

datatype 'cb fiber_op =
    F_New "32 word" nat 'cb "64 word"
  | F_SwapIn nat
  | F_Ready
  | F_Hold
  | F_End bool
  | F_Reset nat "'cb option"
  | F_Delete nat

fun fiber_do :: "'cb fiber_op \<Rightarrow> 'cb fiber_sys \<Rightarrow> 'cb fiber_sys res" where
  "fiber_do (F_New cfg mem cb sz) st = Inr (snd (Fiber_new cfg (Some mem) cb sz False st))"
| "fiber_do (F_SwapIn a) st = Fiber_swapIn a st"
| "fiber_do F_Ready st = YieldToReady st"
| "fiber_do F_Hold st = YieldToHold st"
| "fiber_do (F_End threw) st = (case running st of
       Own cur MainFunc \<Rightarrow> MainFunc_end threw cur st
     | Own cur CallerMainFunc \<Rightarrow> CallerMainFunc_end threw cur st
     | Native \<Rightarrow> Inl (Undefined ''not in a fiber''))"
| "fiber_do (F_Reset a cb) st = Fiber_reset a cb st"
| "fiber_do (F_Delete a) st = Fiber_delete a st"

definition state_in :: "nat \<Rightarrow> State set \<Rightarrow> 'cb fiber_sys \<Rightarrow> bool" where
  "state_in a S st = (case fibers st a of None \<Rightarrow> False | Some f \<Rightarrow> fb_state f \<in> S)"

fun fiber_enabled :: "nat \<Rightarrow> stk \<Rightarrow> 'cb fiber_op \<Rightarrow> 'cb fiber_sys \<Rightarrow> bool" where
  "fiber_enabled m k (F_New cfg mem cb sz) st = True"
| "fiber_enabled m k (F_SwapIn a) st = (running st = k \<and> a \<noteq> m \<and> state_in a {INIT, HOLD, READY} st)"
| "fiber_enabled m k F_Ready st = (running st \<noteq> k)"
| "fiber_enabled m k F_Hold st = (running st \<noteq> k)"
| "fiber_enabled m k (F_End threw) st = (running st \<noteq> k)"
| "fiber_enabled m k (F_Reset a cb) st = (running st = k \<and> a \<noteq> m \<and> state_in a {INIT, TERM', EXCEPT} st)"
| "fiber_enabled m k (F_Delete a) st = (a \<noteq> m \<and> state_in a {INIT, TERM', EXCEPT} st)"

text \<open>A fiber that is not running: its saved context agrees with its state.\<close>

definition parked :: "nat \<Rightarrow> 'cb fiber \<Rightarrow> bool" where
  "parked a f \<longleftrightarrow> fb_stack f \<noteq> None \<and> (case fb_state f of
       INIT \<Rightarrow> fb_ctx f = Fresh MainFunc
     | HOLD \<Rightarrow> fb_ctx f = Suspended (Own a MainFunc) False
     | READY \<Rightarrow> fb_ctx f = Suspended (Own a MainFunc) False
     | TERM' \<Rightarrow> fb_ctx f = Suspended (Own a MainFunc) True
     | EXCEPT \<Rightarrow> fb_ctx f = Suspended (Own a MainFunc) True
     | EXEC \<Rightarrow> False)"

lemma parked_not_exec: "parked a f \<Longrightarrow> fb_state f \<noteq> EXEC"
  by (auto simp: parked_def)

text \<open>
  In the caller's thread the fiber of the native stack waits in \<^verbatim>\<open>call\<close> for the root fiber to
  come \<^verbatim>\<open>back\<close>.
\<close>

definition caller_ok :: "nat \<Rightarrow> 'cb fiber_sys \<Rightarrow> bool" where
  "caller_ok m st \<longleftrightarrow> (\<exists>t T. t_threadFiber st = Some t \<and> t \<noteq> m \<and> fibers st t = Some T \<and>
     fb_state T = EXEC \<and> fb_stack T = None \<and> fb_ctx T = Suspended Native False)"

definition main_ok :: "nat \<Rightarrow> stk \<Rightarrow> 'cb fiber_sys \<Rightarrow> bool" where
  "main_ok m k st \<longleftrightarrow> main_fiber st = Some m \<and> (k = Native \<or> k = Own m CallerMainFunc \<and> caller_ok m st) \<and>
     (\<exists>M. fibers st m = Some M \<and> fb_state M = EXEC \<and> (k \<noteq> Native \<longrightarrow> fb_stack M \<noteq> None) \<and>
        (running st \<noteq> k \<longrightarrow> fb_ctx M = Suspended k False))"

definition running_ok :: "nat \<Rightarrow> stk \<Rightarrow> 'cb fiber_sys \<Rightarrow> bool" where
  "running_ok m k st \<longleftrightarrow> running st = k \<or>
     (\<exists>a f. a \<noteq> m \<and> running st = Own a MainFunc \<and> t_fiber st = Some a \<and> fibers st a = Some f \<and>
        fb_state f = EXEC \<and> fb_stack f \<noteq> None)"

definition parked_ok :: "nat \<Rightarrow> stk \<Rightarrow> 'cb fiber_sys \<Rightarrow> bool" where
  "parked_ok m k st \<longleftrightarrow>
     (\<forall>a f. fibers st a = Some f \<longrightarrow> a \<noteq> m \<longrightarrow> running st \<noteq> Own a MainFunc \<longrightarrow>
        parked a f \<or> k \<noteq> Native \<and> t_threadFiber st = Some a)"

definition count_ok :: "'cb fiber_sys \<Rightarrow> bool" where
  "count_ok st \<longleftrightarrow> finite (dom (fibers st)) \<and> (\<forall>a \<in> dom (fibers st). a < next_addr st) \<and>
     s_fiber_count st = of_nat (card (dom (fibers st)))"

definition fiber_inv :: "nat \<Rightarrow> stk \<Rightarrow> 'cb fiber_sys \<Rightarrow> bool" where
  "fiber_inv m k st \<longleftrightarrow> main_ok m k st \<and> running_ok m k st \<and> parked_ok m k st \<and> count_ok st"

lemmas fiber_inv_defs = fiber_inv_def main_ok_def running_ok_def parked_ok_def caller_ok_def

lemma fibers_put [simp]: "fibers (put_fiber a f st) = (fibers st)(a \<mapsto> f)"
  by (simp add: put_fiber_def)

lemma put_fiber_sel [simp]:
  "next_addr (put_fiber a f st) = next_addr st" "s_fiber_id (put_fiber a f st) = s_fiber_id st"
  "s_fiber_count (put_fiber a f st) = s_fiber_count st" "t_fiber (put_fiber a f st) = t_fiber st"
  "t_threadFiber (put_fiber a f st) = t_threadFiber st" "main_fiber (put_fiber a f st) = main_fiber st"
  "running (put_fiber a f st) = running st"
  by (simp_all add: put_fiber_def)

lemma deref_Some [simp]: "fibers st a = Some f \<Longrightarrow> deref (Some a) st = Inr (a, f)"
  by (simp add: deref_def)

lemma count_ok_put: "count_ok st \<Longrightarrow> fibers st a \<noteq> None \<Longrightarrow> count_ok (put_fiber a f st)"
  by (auto simp: count_ok_def insert_absorb domIff)

lemma count_ok_frame:
  "count_ok st \<Longrightarrow> count_ok (st\<lparr>running := r\<rparr>)" "count_ok st \<Longrightarrow> count_ok (SetThis t st)"
  by (simp_all add: count_ok_def SetThis_def)

lemma fiber_inv_main:
  assumes "fiber_inv m k st"
  obtains M where "fibers st m = Some M" "fb_state M = EXEC" "main_fiber st = Some m"
    "k = Native \<or> k = Own m CallerMainFunc \<and> caller_ok m st" "k \<noteq> Native \<longrightarrow> fb_stack M \<noteq> None"
    "running st \<noteq> k \<longrightarrow> fb_ctx M = Suspended k False"
  using assms by (auto simp: fiber_inv_def main_ok_def)

lemma fiber_inv_parked:
  assumes inv: "fiber_inv m k st" and a: "fibers st a = Some f" "a \<noteq> m" "running st \<noteq> Own a MainFunc"
    and "fb_state f \<noteq> EXEC"
  shows "parked a f"
proof -
  from inv a have "parked a f \<or> k \<noteq> Native \<and> t_threadFiber st = Some a"
    unfolding fiber_inv_def parked_ok_def by blast
  moreover from inv obtain "k \<noteq> Native \<longrightarrow> caller_ok m st" by (rule fiber_inv_main) auto
  ultimately show ?thesis using a(1) \<open>fb_state f \<noteq> EXEC\<close> by (auto simp: caller_ok_def)
qed

lemma parked_ok_keep:
  assumes "parked_ok m k st" "t_threadFiber st' = t_threadFiber st"
    and "\<And>b g. b \<noteq> m \<Longrightarrow> running st' \<noteq> Own b MainFunc \<Longrightarrow> fibers st' b = Some g \<Longrightarrow>
      parked b g \<or> fibers st b = Some g \<and> running st \<noteq> Own b MainFunc"
  shows "parked_ok m k st'"
  using assms unfolding parked_ok_def by metis

lemma caller_ok_keep:
  assumes "caller_ok m st" "t_threadFiber st' = t_threadFiber st"
    and "\<And>a T. a \<noteq> m \<Longrightarrow> fibers st a = Some T \<Longrightarrow> fb_stack T = None \<Longrightarrow> fibers st' a = Some T"
  shows "caller_ok m st'"
  using assms unfolding caller_ok_def by metis

text \<open>The two switches, between the scheduler's stack and a fiber's.\<close>

lemma swap_to_fiber:
  assumes inv: "fiber_inv m k st" and run: "running st = k" and a: "a \<noteq> m"
    and f: "fibers st a = Some f" "fb_state f \<in> {INIT, HOLD, READY}"
  shows "\<exists>st'. Fiber_swapIn a st = Inr st' \<and> fiber_inv m k st' \<and> running st' = Own a MainFunc"
proof -
  from inv obtain M where M: "fibers st m = Some M" "fb_state M = EXEC" "main_fiber st = Some m"
    "k = Native \<or> k = Own m CallerMainFunc \<and> caller_ok m st" "k \<noteq> Native \<longrightarrow> fb_stack M \<noteq> None"
    by (rule fiber_inv_main)
  from M a have k: "k \<noteq> Own a MainFunc" by auto
  with run a f have p: "parked a f" by (intro fiber_inv_parked [OF inv]) auto
  let ?f = "f\<lparr>fb_state := EXEC\<rparr>" and ?M = "M\<lparr>fb_ctx := Suspended k False\<rparr>"
  let ?st = "(put_fiber m ?M (put_fiber a ?f (SetThis (Some a) st)))\<lparr>running := Own a MainFunc\<rparr>"
  from f p M a run have "Fiber_swapIn a st = Inr ?st"
    by (auto simp: Fiber_swapIn_def swapcontext_def parked_def SetThis_def Let_def deref_def)
  moreover have "count_ok ?st"
    using inv f M a by (intro count_ok_frame count_ok_put) (auto simp: fiber_inv_def SetThis_def)
  moreover have "parked_ok m k st" using inv by (simp add: fiber_inv_def)
  then have "parked_ok m k ?st"
    by (rule parked_ok_keep) (use M run in \<open>auto simp: SetThis_def split: if_splits\<close>)
  moreover have "caller_ok m ?st" if "caller_ok m st"
    using that by (rule caller_ok_keep) (use f p in \<open>auto simp: SetThis_def parked_def\<close>)
  then have "main_ok m k ?st" "running_ok m k ?st"
    using M f a p k by (auto simp: main_ok_def running_ok_def parked_def SetThis_def)
  ultimately show ?thesis by (auto simp: fiber_inv_def)
qed

lemma swap_to_main:
  assumes inv: "fiber_inv m k st" and run: "running st = Own a MainFunc" and a: "a \<noteq> m"
    and f: "fibers st a = Some f" and g: "fb_stack g = fb_stack f"
    "fb_state g \<in> (if final then {TERM', EXCEPT} else {HOLD, READY})"
  shows "\<exists>st'. Fiber_swapOut final a (put_fiber a g st) = Inr st' \<and> fiber_inv m k st' \<and>
    running st' = k \<and> t_fiber st' = Some a \<and> state_in a {fb_state g} st'"
proof -
  from inv obtain M where M: "fibers st m = Some M" "fb_state M = EXEC" "main_fiber st = Some m"
    "k = Native \<or> k = Own m CallerMainFunc \<and> caller_ok m st" "k \<noteq> Native \<longrightarrow> fb_stack M \<noteq> None"
    and M': "running st \<noteq> k \<longrightarrow> fb_ctx M = Suspended k False"
    by (rule fiber_inv_main)
  from M a have k: "k \<noteq> Own a MainFunc" by auto
  with run M' have ctx: "fb_ctx M = Suspended k False" by auto
  from inv run k a f have t: "t_fiber st = Some a" "fb_stack f \<noteq> None"
    by (auto simp: fiber_inv_def running_ok_def)
  let ?g = "g\<lparr>fb_ctx := Suspended (Own a MainFunc) final\<rparr>"
  let ?st = "(put_fiber a ?g (put_fiber a g (SetThis (t_fiber st) st)))\<lparr>running := k\<rparr>"
  from f M a run ctx have "Fiber_swapOut final a (put_fiber a g st) = Inr ?st"
    by (auto simp: Fiber_swapOut_def swapcontext_def SetThis_def put_fiber_def deref_def)
  moreover have "count_ok ?st"
    using inv f by (intro count_ok_frame count_ok_put) (auto simp: fiber_inv_def SetThis_def)
  moreover have p: "parked a ?g" using g t by (auto simp: parked_def split: if_splits)
  have "parked_ok m k st" using inv by (simp add: fiber_inv_def)
  then have "parked_ok m k ?st"
    by (rule parked_ok_keep) (use p run in \<open>auto simp: SetThis_def split: if_splits\<close>)
  moreover have "caller_ok m ?st" if "caller_ok m st"
    using that by (rule caller_ok_keep) (use f t in \<open>auto simp: SetThis_def\<close>)
  then have "main_ok m k ?st" "running_ok m k ?st"
    using M f a by (auto simp: main_ok_def running_ok_def SetThis_def)
  ultimately show ?thesis using t by (auto simp: fiber_inv_def SetThis_def state_in_def)
qed

lemma running_fiber:
  assumes "fiber_inv m k st" "running st \<noteq> k"
  obtains a f where "a \<noteq> m" "running st = Own a MainFunc" "t_fiber st = Some a" "fibers st a = Some f"
    "fb_state f = EXEC" "fb_stack f \<noteq> None"
  using assms by (auto simp: fiber_inv_def running_ok_def)

lemma yield_to_main:
  assumes inv: "fiber_inv m k st" and run: "running st \<noteq> k" and s: "s \<in> {HOLD, READY}"
  shows "\<exists>st'. bindR (GetThis st) (\<lambda>(cur, st1). bindR (set_state cur s st1) (Fiber_swapOut False cur)) = Inr st' \<and>
    fiber_inv m k st' \<and> running st' = k \<and> t_fiber st' = t_fiber st \<and> t_fiber st' \<noteq> Some m"
proof -
  from inv run obtain a f where a: "a \<noteq> m" "running st = Own a MainFunc" "t_fiber st = Some a"
    "fibers st a = Some f" by (rule running_fiber)
  from swap_to_main [OF inv a(2,1,4), of "f\<lparr>fb_state := s\<rparr>" False] s
  obtain st' where "Fiber_swapOut False a (put_fiber a (f\<lparr>fb_state := s\<rparr>) st) = Inr st'"
    "fiber_inv m k st'" "running st' = k" "t_fiber st' = Some a" by auto
  with a show ?thesis by (auto simp: GetThis_def set_state_def)
qed

lemma end_to_main:
  assumes inv: "fiber_inv m k st" and run: "running st \<noteq> k"
  shows "\<exists>st' a. fiber_do (F_End threw) st = Inr st' \<and> fiber_inv m k st' \<and> running st' = k \<and>
    a \<noteq> m \<and> t_fiber st = Some a \<and> t_fiber st' = Some a \<and> state_in a {INIT, TERM', EXCEPT} st'"
proof -
  from inv run obtain a f where a: "a \<noteq> m" "running st = Own a MainFunc" "t_fiber st = Some a"
    "fibers st a = Some f"
    by (rule running_fiber)
  let ?g = "if threw then f\<lparr>fb_state := EXCEPT\<rparr> else f\<lparr>fb_cb := None, fb_state := TERM'\<rparr>"
  have "fb_stack ?g = fb_stack f" "fb_state ?g \<in> (if True then {TERM', EXCEPT} else {HOLD, READY})"
    by simp_all
  from swap_to_main [OF inv a(2,1,4) this]
  obtain st' where "Fiber_swapOut True a (put_fiber a ?g st) = Inr st'" "fiber_inv m k st'" "running st' = k"
    "t_fiber st' = Some a" "state_in a {fb_state ?g} st'"
    by blast
  moreover from this(5) have "state_in a {INIT, TERM', EXCEPT} st'"
    by (auto simp: state_in_def split: option.splits if_splits)
  ultimately show ?thesis using a by (auto simp: MainFunc_end_def record_end_def)
qed

lemma fiber_new_keeps [keeps]:
  assumes inv: "fiber_inv m k st"
  shows "fiber_inv m k (snd (Fiber_new cfg (Some mem) cb sz False st))"
proof -
  let ?a = "next_addr st"
  let ?st = "snd (Fiber_new cfg (Some mem) cb sz False st)"
  from inv have fin: "finite (dom (fibers st))" and old: "\<forall>a \<in> dom (fibers st). a < ?a"
    and cnt: "s_fiber_count st = of_nat (card (dom (fibers st)))"
    by (simp_all add: fiber_inv_def count_ok_def)
  from old have fresh: "?a \<notin> dom (fibers st)" by blast
  have sel: "running ?st = running st" "t_fiber ?st = t_fiber st" "main_fiber ?st = main_fiber st"
    "t_threadFiber ?st = t_threadFiber st"
    by (simp_all add: Fiber_new_def Let_def)
  have keep: "fibers ?st a = fibers st a" if "a \<noteq> ?a" for a
    using that by (simp add: Fiber_new_def Let_def)
  have old_ne: "fibers st a = Some g \<Longrightarrow> a \<noteq> ?a" for a g using fresh by auto
  have "caller_ok m ?st" if "caller_ok m st"
    using that sel(4) by (rule caller_ok_keep) (simp add: keep [OF old_ne])
  then have "main_ok m k ?st"
    using inv keep [OF old_ne] by (auto simp: fiber_inv_def main_ok_def sel)
  moreover have "running_ok m k ?st"
  proof (cases "running st = k")
    case False
    with inv obtain a f where "a \<noteq> m" "running st = Own a MainFunc" "t_fiber st = Some a" "fibers st a = Some f"
      "fb_state f = EXEC" "fb_stack f \<noteq> None" by (rule running_fiber)
    moreover from this(4) have "fibers ?st a = Some f" using keep [OF old_ne] by simp
    ultimately show ?thesis unfolding running_ok_def sel by blast
  qed (simp add: running_ok_def sel)
  moreover have "parked_ok m k ?st"
    unfolding parked_ok_def sel
  proof (intro allI impI)
    fix a f assume a: "fibers ?st a = Some f" "a \<noteq> m" "running st \<noteq> Own a MainFunc"
    show "parked a f \<or> k \<noteq> Native \<and> t_threadFiber st = Some a"
    proof (cases "a = ?a")
      case True
      with a show ?thesis by (auto simp: Fiber_new_def Let_def parked_def)
    next
      case False
      with a keep inv show ?thesis by (auto simp: fiber_inv_def parked_ok_def)
    qed
  qed
  moreover have "count_ok ?st"
    using fin old cnt fresh by (auto simp: count_ok_def Fiber_new_def Let_def less_Suc_eq)
  ultimately show ?thesis by (simp add: fiber_inv_def)
qed

lemma fiber_reset_keeps [keeps]:
  assumes inv: "fiber_inv m k st" and run: "running st = k" and a: "a \<noteq> m"
    and s: "state_in a {INIT, TERM', EXCEPT} st"
  shows "\<exists>st'. Fiber_reset a cb st = Inr st' \<and> fiber_inv m k st'"
proof -
  from s obtain f where f: "fibers st a = Some f" "fb_state f \<in> {INIT, TERM', EXCEPT}"
    by (auto simp: state_in_def split: option.splits)
  from inv have k: "k \<noteq> Own a MainFunc" using a by (auto simp: fiber_inv_def main_ok_def)
  with run a f have "parked a f" by (intro fiber_inv_parked [OF inv]) auto
  then have st: "fb_stack f \<noteq> None" by (simp add: parked_def)
  let ?st = "put_fiber a (f\<lparr>fb_cb := cb, fb_ctx := Fresh MainFunc, fb_state := INIT\<rparr>) st"
  from f st have "Fiber_reset a cb st = Inr ?st" by (auto simp: Fiber_reset_def)
  moreover have "count_ok ?st" using inv f by (intro count_ok_put) (auto simp: fiber_inv_def)
  moreover have "caller_ok m ?st" if "caller_ok m st"
    using that by (rule caller_ok_keep) (use f st in auto)
  then have "main_ok m k ?st" "running_ok m k ?st" "parked_ok m k ?st"
    using inv a f st run by (auto simp: fiber_inv_def main_ok_def running_ok_def parked_ok_def parked_def)
  ultimately show ?thesis by (auto simp: fiber_inv_def)
qed

lemma fiber_delete_keeps [keeps]:
  assumes inv: "fiber_inv m k st" and a: "a \<noteq> m" and s: "state_in a {INIT, TERM', EXCEPT} st"
  shows "\<exists>st'. Fiber_delete a st = Inr st' \<and> fiber_inv m k st' \<and> fibers st' a = None"
proof -
  from s obtain f where f: "fibers st a = Some f" "fb_state f \<in> {INIT, TERM', EXCEPT}"
    by (auto simp: state_in_def split: option.splits)
  from inv f have nr: "running st \<noteq> Own a MainFunc" by (auto simp: fiber_inv_def main_ok_def running_ok_def)
  with a f have "parked a f" by (intro fiber_inv_parked [OF inv]) auto
  then have st: "fb_stack f \<noteq> None" by (simp add: parked_def)
  let ?st = "st\<lparr>s_fiber_count := s_fiber_count st - 1, fibers := (fibers st)(a := None)\<rparr>"
  from f st have "Fiber_delete a st = Inr ?st" by (auto simp: Fiber_delete_def)
  moreover from inv f have "count_ok ?st"
  proof -
    from f have "a \<in> dom (fibers st)" by blast
    then have c: "card (dom (fibers st)) = Suc (card (dom (fibers st) - {a}))" if "finite (dom (fibers st))"
      using that by (rule_tac card.remove) 
    with inv show ?thesis by (auto simp: fiber_inv_def count_ok_def)
  qed
  moreover have "caller_ok m ?st" if "caller_ok m st"
    using that by (rule caller_ok_keep) (use st f in auto)
  then have "main_ok m k ?st" "running_ok m k ?st" "parked_ok m k ?st"
    using inv a f nr by (auto simp: fiber_inv_def main_ok_def running_ok_def parked_ok_def)
  ultimately show ?thesis by (auto simp: fiber_inv_def)
qed

lemma fiber_op_safe:
  assumes inv: "fiber_inv m k st" and en: "fiber_enabled m k op st"
  shows "\<exists>st'. fiber_do op st = Inr st' \<and> fiber_inv m k st'"
proof (cases op)
  case (F_SwapIn a)
  with en obtain f where "running st = k" "a \<noteq> m" "fibers st a = Some f" "fb_state f \<in> {INIT, HOLD, READY}"
    by (auto simp: state_in_def split: option.splits)
  from swap_to_fiber [OF inv this] F_SwapIn show ?thesis by auto
next
  case F_Ready
  with yield_to_main [OF inv, of READY] en show ?thesis by (auto simp: YieldToReady_def)
next
  case F_Hold
  with yield_to_main [OF inv, of HOLD] en show ?thesis by (auto simp: YieldToHold_def)
next
  case (F_End threw)
  with end_to_main [OF inv, of threw] en show ?thesis by auto
next
  case F_Reset
  with fiber_reset_keeps [OF inv] en show ?thesis by auto
next
  case F_Delete
  with fiber_delete_keeps [OF inv] en show ?thesis by auto
qed (use inv in \<open>simp add: fiber_new_keeps\<close>)

text \<open>A sequence of operations, each allowed by the discipline where it happens.\<close>

fun fiber_run :: "nat \<Rightarrow> stk \<Rightarrow> 'cb fiber_op list \<Rightarrow> 'cb fiber_sys \<Rightarrow> bool" where
  "fiber_run m k [] st = True"
| "fiber_run m k (op # ops) st =
     (fiber_enabled m k op st \<and> (case fiber_do op st of Inl e \<Rightarrow> True | Inr st' \<Rightarrow> fiber_run m k ops st'))"

fun fiber_exec :: "'cb fiber_op list \<Rightarrow> 'cb fiber_sys \<Rightarrow> 'cb fiber_sys res" where
  "fiber_exec [] st = Inr st"
| "fiber_exec (op # ops) st = bindR (fiber_do op st) (fiber_exec ops)"

lemma fiber_exec_safe:
  "fiber_inv m k st \<Longrightarrow> fiber_run m k ops st \<Longrightarrow> \<exists>st'. fiber_exec ops st = Inr st' \<and> fiber_inv m k st'"
proof (induction ops arbitrary: st)
  case (Cons op ops)
  with fiber_op_safe [of m k st op] show ?case by fastforce
qed simp

text \<open>A thread before it has met a fiber, and a pool thread at the top of its loop.\<close>

definition thread_init :: "'cb fiber_sys" where
  "thread_init = \<lparr>fibers = Map.empty, next_addr = 0, s_fiber_id = 0, s_fiber_count = 0,
     t_fiber = None, t_threadFiber = None, main_fiber = None, running = Native\<rparr>"

definition worker_start :: "'cb fiber_sys" where
  "worker_start = (case GetThis thread_init of Inr (a, st) \<Rightarrow> st\<lparr>main_fiber := Some a\<rparr> | Inl e \<Rightarrow> thread_init)"

lemma worker_start_inv: "fiber_inv 0 Native worker_start"
  by (simp add: worker_start_def thread_init_def fiber_inv_defs count_ok_def opdefs Let_def)

text \<open>
  C7. A thread that follows the scheduler's discipline (it swaps in only fibers that are
  INIT, READY or HOLD, from its main fiber; resets and destroys only fibers that are INIT,
  TERM or EXCEPT) never trips an assertion of the fiber class and never touches a dangling or
  wrong context, whatever the fibers do: every operation of the sequence succeeds. Afterwards the
  only fibers in state EXEC are the main fiber and the one that is running, and the counter of
  live fibers is exact (modulo 2^64).
\<close>
theorem fiber_discipline_safe:
  assumes "fiber_run 0 Native ops worker_start"
  shows "\<exists>st. fiber_exec ops worker_start = Inr st \<and>
    (\<forall>a f. fibers st a = Some f \<and> fb_state f = EXEC \<and> a \<noteq> 0 \<longrightarrow> running st = Own a MainFunc) \<and>
    TotalFibers st = of_nat (card (dom (fibers st)))"
proof -
  from fiber_exec_safe [OF worker_start_inv assms] obtain st
    where st: "fiber_exec ops worker_start = Inr st" "fiber_inv 0 Native st" by blast
  from st(2) have "\<forall>a f. fibers st a = Some f \<and> fb_state f = EXEC \<and> a \<noteq> 0 \<longrightarrow> running st = Own a MainFunc"
    by (auto simp: fiber_inv_def parked_ok_def dest!: parked_not_exec)
  with st show ?thesis by (auto simp: TotalFibers_def fiber_inv_def count_ok_def)
qed

text \<open>A pool thread that runs one fiber through a yield to its end and destroys it.\<close>

definition one_fiber_ops :: "string fiber_op list" where
  "one_fiber_ops = [F_New 1048576 4096 ''cb'' 0, F_SwapIn 1, F_Hold, F_SwapIn 1, F_End False, F_Delete 1]"

theorem fiber_discipline_safe_witness:
  "\<exists>st. fiber_exec one_fiber_ops worker_start = Inr st \<and> TotalFibers st = of_nat (card (dom (fibers st)))"
proof -
  have "fiber_run 0 Native one_fiber_ops worker_start"
    by (simp add: one_fiber_ops_def worker_start_def thread_init_def state_in_def opdefs Let_def)
  from fiber_discipline_safe [OF this] show ?thesis by blast
qed

text \<open>
  \<^verbatim>\<open>swapOut\<close> does not put the main fiber back as the current one: its
  \<^verbatim>\<open>SetThis(t_fiber)\<close> stores what is there already. So when a fiber has yielded and the
  scheduler's own stack runs again, \<^verbatim>\<open>Fiber::GetThis()\<close> still answers with the fiber that
  left, and once a finished fiber has been destroyed the call reads freed memory.
\<close>
theorem swapOut_leaves_stale_current:
  assumes "fiber_inv m k st" and "running st \<noteq> k"
  shows "(\<exists>st' a. fiber_do F_Hold st = Inr st' \<and> running st' = k \<and> GetThis st' = Inr (a, st') \<and> a \<noteq> m) \<and>
    (\<exists>st' st'' a. fiber_do (F_End threw) st = Inr st' \<and> running st' = k \<and> Fiber_delete a st' = Inr st'' \<and>
       GetThis st'' = Inl (Undefined ''dangling Fiber pointer''))"
proof
  from yield_to_main [OF assms, of HOLD] obtain st'
    where y: "fiber_do F_Hold st = Inr st'" "fiber_inv m k st'" "running st' = k" "t_fiber st' = t_fiber st"
    by (auto simp: YieldToHold_def)
  from assms obtain a f where a: "a \<noteq> m" "t_fiber st = Some a" "fibers st a = Some f" "running st = Own a MainFunc"
    by (rule running_fiber)
  from swap_to_main [OF assms(1) a(4,1,3), of "f\<lparr>fb_state := HOLD\<rparr>" False] a y(1)
  have "state_in a {HOLD} st'" by (auto simp: YieldToHold_def GetThis_def set_state_def)
  then have "GetThis st' = Inr (a, st')"
    using y(4) a(2) by (auto simp: GetThis_def state_in_def split: option.splits)
  with y a show "\<exists>st' a. fiber_do F_Hold st = Inr st' \<and> running st' = k \<and> GetThis st' = Inr (a, st') \<and> a \<noteq> m"
    by blast
next
  from end_to_main [OF assms, of threw] obtain st' a where e: "fiber_do (F_End threw) st = Inr st'"
    "fiber_inv m k st'" "running st' = k" "a \<noteq> m" "t_fiber st' = Some a" "state_in a {INIT, TERM', EXCEPT} st'"
    by blast
  from fiber_delete_keeps [OF e(2,4,6)] obtain st'' where d: "Fiber_delete a st' = Inr st''" "fibers st'' a = None"
    by blast
  from e(6) obtain f where f: "fibers st' a = Some f" by (auto simp: state_in_def split: option.splits)
  with e(6) have "fb_state f \<noteq> EXEC" by (auto simp: state_in_def)
  moreover have "running st' \<noteq> Own a MainFunc" using e(2,3,4) by (auto elim!: fiber_inv_main)
  ultimately have "parked a f" using f e(4) by (intro fiber_inv_parked [OF e(2)])
  then have "fb_stack f \<noteq> None" by (simp add: parked_def)
  with d f have "t_fiber st'' = t_fiber st'" by (auto simp: Fiber_delete_def Let_def split: if_splits)
  with d e have "GetThis st'' = Inl (Undefined ''dangling Fiber pointer'')"
    by (simp add: GetThis_def deref_def)
  with e d show "\<exists>st' st'' a. fiber_do (F_End threw) st = Inr st' \<and> running st' = k \<and>
      Fiber_delete a st' = Inr st'' \<and> GetThis st'' = Inl (Undefined ''dangling Fiber pointer'')"
    by blast
qed

text \<open>The state in which the pool thread's first fiber runs.\<close>

definition in_fiber :: "string fiber_sys" where
  "in_fiber = (case fiber_exec (take 2 one_fiber_ops) worker_start of Inr st \<Rightarrow> st | Inl e \<Rightarrow> worker_start)"

lemma in_fiber_ok: "fiber_inv 0 Native in_fiber" "running in_fiber \<noteq> Native"
proof -
  have "fiber_run 0 Native (take 2 one_fiber_ops) worker_start"
    by (simp add: one_fiber_ops_def worker_start_def thread_init_def state_in_def opdefs Let_def)
  from fiber_exec_safe [OF worker_start_inv this] show "fiber_inv 0 Native in_fiber"
    by (auto simp: in_fiber_def)
  show "running in_fiber \<noteq> Native"
    by (simp add: in_fiber_def one_fiber_ops_def worker_start_def thread_init_def opdefs Let_def)
qed

theorem swapOut_leaves_stale_current_witness:
  "\<exists>st' a. fiber_do F_Hold in_fiber = Inr st' \<and> running st' = Native \<and> GetThis st' = Inr (a, st') \<and> a \<noteq> 0"
  using swapOut_leaves_stale_current [OF in_fiber_ok] by blast

text \<open>
  What \<^verbatim>\<open>swapIn\<close> does when the scheduler's stack calls it, by the state of the
  fiber: one in INIT, READY or HOLD gets the processor; one in TERM or EXCEPT passes the state
  assertion and then runs past the end of its entry function, which aborts; one in EXEC, as the
  main fiber always is, trips the assertion at once. There is no other case.
\<close>
theorem swapIn_by_state:
  assumes "fiber_inv m k st" and "running st = k" and "a \<noteq> m" and "fibers st a = Some f"
  shows "((fb_state f \<in> {INIT, READY, HOLD} \<and> (\<exists>st'. Fiber_swapIn a st = Inr st' \<and> running st' = Own a MainFunc)) \<or>
      (fb_state f \<in> {TERM', EXCEPT} \<and> Fiber_swapIn a st = Inl (Assertion ''never reach'')) \<or>
      (fb_state f = EXEC \<and> Fiber_swapIn a st = Inl (Assertion ''m_state != EXEC''))) \<and>
    Fiber_swapIn m st = Inl (Assertion ''m_state != EXEC'')"
proof -
  from assms(1) obtain M where M: "fibers st m = Some M" "fb_state M = EXEC" "main_fiber st = Some m"
    by (rule fiber_inv_main)
  have "running st \<noteq> Own a MainFunc" using assms(1,2,3) by (auto elim!: fiber_inv_main)
  then have p: "parked a f" if "fb_state f \<noteq> EXEC"
    using that assms(3,4) by (intro fiber_inv_parked [OF assms(1)])
  have "Fiber_swapIn a st = Inl (Assertion ''never reach'')" if "fb_state f \<in> {TERM', EXCEPT}"
    using that assms(3,4) M p
    by (auto simp: Fiber_swapIn_def swapcontext_def SetThis_def put_fiber_def deref_def parked_def)
  moreover have "\<exists>st'. Fiber_swapIn a st = Inr st' \<and> running st' = Own a MainFunc"
    if "fb_state f \<in> {INIT, HOLD, READY}"
    using swap_to_fiber [OF assms that] by blast
  moreover have "Fiber_swapIn b st = Inl (Assertion ''m_state != EXEC'')"
    if "fibers st b = Some g" "fb_state g = EXEC" for b g
    using that by (simp add: Fiber_swapIn_def)
  ultimately show ?thesis using M assms(4) by (cases "fb_state f") auto
qed

text \<open>The pool thread once its fiber is over.\<close>

definition after_fiber :: "string fiber_sys" where
  "after_fiber = (case fiber_exec (take 5 one_fiber_ops) worker_start of Inr st \<Rightarrow> st | Inl e \<Rightarrow> worker_start)"

theorem swapIn_by_state_witness: "Fiber_swapIn 1 after_fiber = Inl (Assertion ''never reach'')"
proof -
  have "fiber_run 0 Native (take 5 one_fiber_ops) worker_start"
    by (simp add: one_fiber_ops_def worker_start_def thread_init_def state_in_def opdefs Let_def)
  from fiber_exec_safe [OF worker_start_inv this] have inv: "fiber_inv 0 Native after_fiber"
    by (auto simp: after_fiber_def)
  have run: "running after_fiber = Native" and f: "fibers after_fiber 1 \<noteq> None"
    "map_option fb_state (fibers after_fiber 1) = Some TERM'"
    by (simp_all add: after_fiber_def one_fiber_ops_def worker_start_def thread_init_def opdefs Let_def)
  then obtain f where f: "fibers after_fiber 1 = Some f" "fb_state f = TERM'" by auto
  from swapIn_by_state [OF inv run _ f(1)] f(2) show ?thesis by auto
qed

text \<open>
  The stack size is a 64-bit argument kept in a 32-bit field: the size a fiber is given is
  the requested one modulo 2^32, so a request for a multiple of 4 GiB allocates a stack of zero
  bytes; a request of zero takes the configured size.
\<close>
theorem Fiber_stacksize:
  "\<exists>f. fibers (snd (Fiber_new cfg mem cb sz caller st)) (fst (Fiber_new cfg mem cb sz caller st)) = Some f \<and>
     unat (fb_stacksize f) = (if sz = 0 then unat cfg else unat sz mod 2 ^ 32)"
proof -
  have "unat (ucast (sz :: 64 word) :: 32 word) = unat sz mod 2 ^ 32"
    by (simp add: unsigned_ucast_eq take_bit_eq_mod)
  moreover have "(ucast (ucast (cfg :: 32 word) :: 64 word) :: 32 word) = cfg"
    by (rule bit_word_eqI) (simp add: bit_ucast_iff)
  ultimately show ?thesis by (simp add: Fiber_new_def Let_def)
qed

end
