(* ===== verification/Schedulers.thy ===== *)
theory Schedulers
  imports Fibers "HOL-Library.Multiset"
begin

text \<open>
  \<^verbatim>\<open>Scheduler\<close> of \<^verbatim>\<open>vity/scheduler.h\<close>, \<^verbatim>\<open>vity/scheduler.cc\<close>: the task queue and
  the four ways to put a task into it, construction, start and stop, and the loop \<^verbatim>\<open>run\<close> of the
  pool threads, cut into the pieces between two points where other threads can act: the locked
  search for a task (\<open>pick\<close>), the dispatch, the return from a fiber, and the idle branch. The
  pool is all workers over one scheduler, stepped in any order.
\<close>

section \<open>Tasks\<close>

record 'cb task =
  ft_fiber :: "nat option"
  ft_cb :: "'cb option"
  ft_thread :: int

text \<open>
  What \<^verbatim>\<open>schedule\<close> is called with: a fiber or a callback by value, or a pointer to one. The
  constructors that take a pointer swap its content into the task and leave it null.
\<close>

datatype 'cb fiber_or_cb =
    FiberPtr "nat option"
  | FiberPtrRef "nat option"
  | Callback "'cb option"
  | CallbackRef "'cb option"

fun FiberAndThread_new :: "'cb fiber_or_cb \<Rightarrow> int \<Rightarrow> 'cb task" where
  "FiberAndThread_new (FiberPtr f) thr = \<lparr>ft_fiber = f, ft_cb = None, ft_thread = thr\<rparr>"
| "FiberAndThread_new (FiberPtrRef f) thr = \<lparr>ft_fiber = f, ft_cb = None, ft_thread = thr\<rparr>"
| "FiberAndThread_new (Callback c) thr = \<lparr>ft_fiber = None, ft_cb = c, ft_thread = thr\<rparr>"
| "FiberAndThread_new (CallbackRef c) thr = \<lparr>ft_fiber = None, ft_cb = c, ft_thread = thr\<rparr>"

text \<open>What the constructor leaves in the caller's variable.\<close>

fun FiberAndThread_source :: "'cb fiber_or_cb \<Rightarrow> 'cb fiber_or_cb" where
  "FiberAndThread_source (FiberPtrRef f) = FiberPtrRef None"
| "FiberAndThread_source (CallbackRef c) = CallbackRef None"
| "FiberAndThread_source x = x"

definition FiberAndThread_empty :: "'cb task" where
  "FiberAndThread_empty = \<lparr>ft_fiber = None, ft_cb = None, ft_thread = -1\<rparr>"

definition FiberAndThread_reset :: "'cb task \<Rightarrow> 'cb task" where
  "FiberAndThread_reset t = t\<lparr>ft_fiber := None, ft_cb := None, ft_thread := -1\<rparr>"

section \<open>The scheduler\<close>

text \<open>
  The counters of active and idle threads are \<open>int\<close>s: the invariants below show that they are
  never negative, so the unsigned counters of the source do not wrap. \<open>tickles\<close> counts the calls
  of the virtual \<^verbatim>\<open>tickle\<close>, which the base class only logs.
\<close>

record 'cb scheduler =
  m_name :: string
  m_fibers :: "'cb task list"
  m_rootFiber :: "nat option"
  m_rootThread :: int
  m_threads :: "(int \<times> string) list"
  m_threadIds :: "int list"
  m_threadCount :: nat
  m_activeThreadCount :: int
  m_idleThreadCount :: int
  m_stopping :: bool
  m_autoStop :: bool
  tickles :: nat

text \<open>
  \<^verbatim>\<open>Scheduler::Scheduler\<close>: \<open>cur\<close> is whether the calling thread has a scheduler already,
  \<open>root\<close> the address of the root fiber the constructor makes, \<open>tid\<close> the calling thread.
\<close>

definition Scheduler_new ::
  "nat \<Rightarrow> bool \<Rightarrow> string \<Rightarrow> bool \<Rightarrow> nat \<Rightarrow> int \<Rightarrow> 'cb scheduler res"
where
  "Scheduler_new threads use_caller name cur root tid =
    (let base = \<lparr>m_name = name, m_fibers = [], m_rootFiber = None, m_rootThread = 0, m_threads = [],
                 m_threadIds = [], m_threadCount = 0, m_activeThreadCount = 0, m_idleThreadCount = 0,
                 m_stopping = True, m_autoStop = False, tickles = 0\<rparr> in
     if threads = 0 then Inl (Assertion ''threads > 0'')
     else if use_caller then
       (if cur then Inl (Assertion ''GetThis() == nullptr'')
        else Inr (base\<lparr>m_rootFiber := Some root, m_rootThread := tid, m_threadIds := [tid],
                       m_threadCount := threads - 1\<rparr>))
     else Inr (base\<lparr>m_rootThread := -1, m_threadCount := threads\<rparr>))"

definition scheduleNoLock :: "'cb fiber_or_cb \<Rightarrow> int \<Rightarrow> 'cb scheduler \<Rightarrow> bool \<times> 'cb scheduler" where
  "scheduleNoLock fc thread s =
    (let need_tickle = (m_fibers s = []); ft = FiberAndThread_new fc thread in
     (need_tickle,
      if ft_fiber ft \<noteq> None \<or> ft_cb ft \<noteq> None then s\<lparr>m_fibers := m_fibers s @ [ft]\<rparr> else s))"

definition tickle :: "'cb scheduler \<Rightarrow> 'cb scheduler" where
  "tickle s = s\<lparr>tickles := Suc (tickles s)\<rparr>"

text \<open>\<open>tick\<close> is the override of \<^verbatim>\<open>tickle\<close> the object has.\<close>

definition schedule ::
  "('cb scheduler \<Rightarrow> 'cb scheduler) \<Rightarrow> 'cb fiber_or_cb \<Rightarrow> int \<Rightarrow> 'cb scheduler \<Rightarrow> 'cb scheduler"
where
  "schedule tick fc thread s =
    (case scheduleNoLock fc thread s of (need_tickle, s') \<Rightarrow> if need_tickle then tick s' else s')"

definition stopping :: "'cb scheduler \<Rightarrow> bool" where
  "stopping s \<longleftrightarrow> m_autoStop s \<and> m_stopping s \<and> m_fibers s = [] \<and> m_activeThreadCount s = 0"

definition hasIdleThreads :: "'cb scheduler \<Rightarrow> bool" where
  "hasIdleThreads s \<longleftrightarrow> m_idleThreadCount s > 0"

text \<open>\<^verbatim>\<open>start\<close>: \<open>tids i\<close> is the id of the i-th thread created.\<close>

definition Scheduler_start :: "(nat \<Rightarrow> int) \<Rightarrow> 'cb scheduler \<Rightarrow> 'cb scheduler res" where
  "Scheduler_start tids s =
    (if \<not> m_stopping s then Inr s
     else if m_threads s \<noteq> [] then Inl (Assertion ''m_threads.empty()'')
     else Inr (s\<lparr>m_stopping := False,
                 m_threads := map (\<lambda>i. (tids i, m_name s @ ''_'' @ string_of_nat i)) [0..<m_threadCount s],
                 m_threadIds := m_threadIds s @ map tids [0..<m_threadCount s]\<rparr>))"

text \<open>
  \<^verbatim>\<open>stop\<close>: \<open>cur\<close> is whether the caller's scheduler is this one, \<open>root_state\<close> the state of
  the root fiber, \<open>run_root\<close> what happens to the scheduler while the root fiber runs the loop in
  the calling thread. The result names the threads that were joined.
\<close>

definition Scheduler_stop ::
  "('cb scheduler \<Rightarrow> 'cb scheduler) \<Rightarrow> bool \<Rightarrow> State \<Rightarrow> ('cb scheduler \<Rightarrow> 'cb scheduler) \<Rightarrow>
   'cb scheduler \<Rightarrow> ((int \<times> string) list \<times> 'cb scheduler) res"
where
  "Scheduler_stop tick cur root_state run_root s =
    (let s1 = s\<lparr>m_autoStop := True\<rparr>;
         alone = (m_rootFiber s1 \<noteq> None \<and> m_threadCount s1 = 0 \<and> (root_state = TERM' \<or> root_state = INIT));
         s2 = (if alone then s1\<lparr>m_stopping := True\<rparr> else s1) in
     if alone \<and> stopping s2 then Inr ([], s2)
     else if m_rootThread s2 \<noteq> -1 \<and> \<not> cur then Inl (Assertion ''GetThis() == this'')
     else if m_rootThread s2 = -1 \<and> cur then Inl (Assertion ''GetThis() != this'')
     else
       (let s3 = (tick ^^ m_threadCount s2) (s2\<lparr>m_stopping := True\<rparr>);
            s4 = (if m_rootFiber s3 \<noteq> None then tick s3 else s3);
            s5 = (if m_rootFiber s4 \<noteq> None \<and> \<not> stopping s4 then run_root s4 else s4)
        in Inr (m_threads s5, s5\<lparr>m_threads := []\<rparr>)))"

definition Scheduler_delete :: "'cb scheduler \<Rightarrow> unit res" where
  "Scheduler_delete s = (if m_stopping s then Inr () else Inl (Assertion ''m_stopping''))"

section \<open>Handing tasks over\<close>

text \<open>
  What a client of a scheduler relies on (the pool, the event table, code outside): a call puts
  its task at the end of the queue, or nothing if the fiber or callback is null.
\<close>

definition nonempty_task :: "'cb task \<Rightarrow> bool" where
  "nonempty_task t \<longleftrightarrow> ft_fiber t \<noteq> None \<or> ft_cb t \<noteq> None"

definition task_of :: "'cb fiber_or_cb \<times> int \<Rightarrow> 'cb task" where
  "task_of x = FiberAndThread_new (fst x) (snd x)"

locale task_sink =
  fixes tasks :: "'s \<Rightarrow> 'cb task list"
    and put :: "'cb fiber_or_cb \<times> int \<Rightarrow> 's \<Rightarrow> 's"
  assumes put_tasks: "tasks (put x s) = tasks s @ (if nonempty_task (task_of x) then [task_of x] else [])"
begin

lemma put_all: "tasks (fold put xs s) = tasks s @ filter nonempty_task (map task_of xs)"
  by (induction xs arbitrary: s) (simp_all add: put_tasks)

lemma put_nonempty: "list_all nonempty_task (tasks s) \<Longrightarrow> list_all nonempty_task (tasks (fold put xs s))"
  by (auto simp: put_all list_all_iff)

end

definition put_task :: "'cb fiber_or_cb \<times> int \<Rightarrow> 'cb scheduler \<Rightarrow> 'cb scheduler" where
  "put_task x s = schedule tickle (fst x) (snd x) s"

interpretation sched: task_sink m_fibers put_task
  by unfold_locales
    (simp add: put_task_def task_of_def schedule_def scheduleNoLock_def tickle_def nonempty_task_def Let_def)

text \<open>
  The queue is first in, first out, and holds no null entry: scheduling any number of
  fibers and callbacks appends, in the order of the calls, one task for each that is not null and
  nothing else, with the thread it was given; and a queue without null entries (which the loop
  asserts) stays so.
\<close>
theorem schedule_fifo:
  "m_fibers (fold put_task xs s) = m_fibers s @ filter nonempty_task (map task_of xs) \<and>
    list_all nonempty_task (m_fibers (fold put_task xs s)) = list_all nonempty_task (m_fibers s)"
  using sched.put_all [of xs s] by (auto simp: list_all_iff)

section \<open>The search for a task\<close>

text \<open>
  The loop over \<^verbatim>\<open>m_fibers\<close> under the lock, in thread \<open>me\<close>, with the fibers' states: the
  task taken, the queue without it, and \<^verbatim>\<open>tickle_me\<close>.
\<close>

fun pick :: "int \<Rightarrow> (nat \<Rightarrow> State) \<Rightarrow> 'cb task list \<Rightarrow> ('cb task option \<times> 'cb task list \<times> bool) res" where
  "pick me st [] = Inr (None, [], False)"
| "pick me st (it # its) =
    (if ft_thread it \<noteq> -1 \<and> ft_thread it \<noteq> me then
       bindR (pick me st its) (\<lambda>(ft, rest, tickle_me). Inr (ft, it # rest, True))
     else if ft_fiber it = None \<and> ft_cb it = None then Inl (Assertion ''it->fiber || it->cb'')
     else if (case ft_fiber it of Some f \<Rightarrow> st f = EXEC | None \<Rightarrow> False) then
       bindR (pick me st its) (\<lambda>(ft, rest, tickle_me). Inr (ft, it # rest, tickle_me))
     else Inr (Some it, its, False))"

definition for_thread :: "int \<Rightarrow> 'cb task \<Rightarrow> bool" where
  "for_thread me t \<longleftrightarrow> ft_thread t = -1 \<or> ft_thread t = me"

definition eligible :: "int \<Rightarrow> (nat \<Rightarrow> State) \<Rightarrow> 'cb task \<Rightarrow> bool" where
  "eligible me st t \<longleftrightarrow> for_thread me t \<and> (\<forall>f. ft_fiber t = Some f \<longrightarrow> st f \<noteq> EXEC)"

text \<open>What the search amounts to: the first eligible task, removed from its place.\<close>

fun pick_spec :: "int \<Rightarrow> (nat \<Rightarrow> State) \<Rightarrow> 'cb task list \<Rightarrow> 'cb task option \<times> 'cb task list \<times> bool" where
  "pick_spec me st q =
    (let pre = takeWhile (\<lambda>t. \<not> eligible me st t) q; post = dropWhile (\<lambda>t. \<not> eligible me st t) q in
     (case post of [] \<Rightarrow> None | t # _ \<Rightarrow> Some t, pre @ tl post, \<exists>t \<in> set pre. \<not> for_thread me t))"

lemma pick_pick_spec:
  "list_all nonempty_task q \<Longrightarrow> pick me st q = Inr (pick_spec me st q)"
proof (induction q)
  case (Cons t q)
  then have IH: "pick me st q = Inr (pick_spec me st q)" and t: "nonempty_task t" by simp_all
  show ?case
    using t by (auto simp: IH eligible_def for_thread_def nonempty_task_def Let_def split: option.splits)
qed simp

lemma pick_mset:
  "pick me st q = Inr (ft, rest, tm) \<Longrightarrow>
     mset q = mset rest + (case ft of None \<Rightarrow> {#} | Some t \<Rightarrow> {#t#})"
proof (induction q arbitrary: ft rest tm)
  case (Cons t q)
  then show ?case
    by (auto split: if_splits option.splits)
qed simp

text \<open>
  The search of the scheduler loop takes the first task in the queue that is for the
  calling thread (pinned to it, or to none) and is not a fiber that is executing elsewhere; it
  leaves every other task in place and in order, asks for a tickle exactly if it passed over a
  task pinned to another thread, and loses no task.
\<close>
theorem pick_first_eligible:
  assumes "list_all nonempty_task q"
  shows "pick me st q = Inr (pick_spec me st q) \<and>
    mset q = mset (fst (snd (pick_spec me st q))) +
      (case fst (pick_spec me st q) of None \<Rightarrow> {#} | Some t \<Rightarrow> {#t#})"
  using pick_pick_spec [OF assms, of me st] pick_mset [of me st q] by (metis prod.collapse)

theorem pick_first_eligible_witness:
  "pick 7 (\<lambda>f. if f = 2 then EXEC else HOLD)
     [\<lparr>ft_fiber = Some 1, ft_cb = None, ft_thread = 9\<rparr>, \<lparr>ft_fiber = Some 2, ft_cb = None, ft_thread = -1\<rparr>,
      \<lparr>ft_fiber = Some 3, ft_cb = None, ft_thread = 7\<rparr>, \<lparr>ft_fiber = None, ft_cb = Some ''cb'', ft_thread = -1\<rparr>] =
   Inr (Some \<lparr>ft_fiber = Some 3, ft_cb = None, ft_thread = 7\<rparr>,
     [\<lparr>ft_fiber = Some 1, ft_cb = None, ft_thread = 9\<rparr>, \<lparr>ft_fiber = Some 2, ft_cb = None, ft_thread = -1\<rparr>,
      \<lparr>ft_fiber = None, ft_cb = Some ''cb'', ft_thread = -1\<rparr>], True)"
proof -
  let ?q = "[\<lparr>ft_fiber = Some 1, ft_cb = None, ft_thread = 9\<rparr>, \<lparr>ft_fiber = Some 2, ft_cb = None, ft_thread = -1\<rparr>,
      \<lparr>ft_fiber = Some 3, ft_cb = None, ft_thread = 7\<rparr>, \<lparr>ft_fiber = None, ft_cb = Some ''cb'', ft_thread = -1\<rparr>]"
  have "list_all nonempty_task ?q" by (simp add: nonempty_task_def)
  from pick_first_eligible [OF this, of 7 "\<lambda>f. if f = 2 then EXEC else HOLD"] show ?thesis
    by (simp add: eligible_def for_thread_def)
qed

section \<open>The pool\<close>

text \<open>
  Where a worker stands in \<^verbatim>\<open>run\<close>: at the top of the loop; with a task taken; with none
  found; on the stack of a fiber it swapped in (the flag: the fiber runs a callback); with the
  fiber having set its state but its context not yet saved; back on its own stack and no longer
  counted as active, before it looks at the fiber; on the idle fiber; out of the loop.
\<close>

datatype 'cb wstate =
    W_Loop
  | W_Took "'cb task"
  | W_Nothing
  | W_Run nat bool
  | W_Leaving nat bool
  | W_Back nat bool
  | W_Idle
  | W_Exit

text \<open>
  \<open>fstate\<close> are the states of the fibers by address (\<open>nxt\<close> is the next free one); \<open>wk\<close>,
  \<open>cbf\<close> and \<open>idle_term\<close> are the workers' positions, their \<^verbatim>\<open>cb_fiber\<close> and whether their
  idle fiber has terminated, by thread id.
\<close>

record 'cb pool =
  sch :: "'cb scheduler"
  fstate :: "nat \<Rightarrow> State"
  nxt :: nat
  wk :: "int \<Rightarrow> 'cb wstate"
  cbf :: "int \<Rightarrow> nat option"
  idle_term :: "int \<Rightarrow> bool"

datatype 'cb pool_op =
    P_Schedule "int option" "'cb fiber_or_cb" int
  | P_NewFiber
  | P_Take int
  | P_Dispatch int
  | P_Leave int State
  | P_Return int
  | P_Settle int
  | P_Idle int
  | P_IdleBack int
  | P_Stop

definition set_wk :: "int \<Rightarrow> 'cb wstate \<Rightarrow> 'cb pool \<Rightarrow> 'cb pool" where
  "set_wk w x p = p\<lparr>wk := (wk p)(w := x)\<rparr>"

definition set_fstate :: "nat \<Rightarrow> State \<Rightarrow> 'cb pool \<Rightarrow> 'cb pool" where
  "set_fstate f s p = p\<lparr>fstate := (fstate p)(f := s)\<rparr>"

definition add_active :: "int \<Rightarrow> 'cb pool \<Rightarrow> 'cb pool" where
  "add_active d p = p\<lparr>sch := (sch p)\<lparr>m_activeThreadCount := m_activeThreadCount (sch p) + d\<rparr>\<rparr>"

definition add_idle :: "int \<Rightarrow> 'cb pool \<Rightarrow> 'cb pool" where
  "add_idle d p = p\<lparr>sch := (sch p)\<lparr>m_idleThreadCount := m_idleThreadCount (sch p) + d\<rparr>\<rparr>"

text \<open>The locked block of the loop, and the tickle that follows it.\<close>

definition run_take :: "int \<Rightarrow> 'cb pool \<Rightarrow> 'cb pool res" where
  "run_take w p = bindR (pick w (fstate p) (m_fibers (sch p))) (\<lambda>(ft, rest, tickle_me).
     let p1 = p\<lparr>sch := (sch p)\<lparr>m_fibers := rest\<rparr>\<rparr>;
         p2 = (case ft of
                 Some it \<Rightarrow> set_wk w (W_Took it) (add_active 1 p1)
               | None \<Rightarrow> set_wk w W_Nothing p1)
     in Inr (if tickle_me then p2\<lparr>sch := tickle (sch p2)\<rparr> else p2))"

text \<open>The branch on what was taken, up to the switch to the fiber.\<close>

definition run_cb :: "int \<Rightarrow> 'cb task \<Rightarrow> 'cb pool \<Rightarrow> 'cb pool res" where
  "run_cb w it p =
    (if ft_cb it \<noteq> None then
       (case cbf p w of
          Some f \<Rightarrow>
            if fstate p f = INIT \<or> fstate p f = EXCEPT \<or> fstate p f = TERM'
            then Inr (set_wk w (W_Run f True) (set_fstate f EXEC p))
            else Inl (Assertion ''m_state == INIT || m_state == EXCEPT || m_state == TERM'')
        | None \<Rightarrow>
            let f = nxt p in
            Inr (set_wk w (W_Run f True)
                   (set_fstate f EXEC (p\<lparr>nxt := Suc f, cbf := (cbf p)(w := Some f)\<rparr>))))
     else Inr (set_wk w W_Loop (add_active (-1) p)))"

definition run_dispatch :: "int \<Rightarrow> 'cb task \<Rightarrow> 'cb pool \<Rightarrow> 'cb pool res" where
  "run_dispatch w it p =
    (case ft_fiber it of
       Some f \<Rightarrow>
         if fstate p f \<noteq> TERM' \<and> fstate p f \<noteq> EXCEPT then
           (if fstate p f = EXEC then Inl (Assertion ''m_state != EXEC'')
            else Inr (set_wk w (W_Run f False) (set_fstate f EXEC p)))
         else run_cb w it p
     | None \<Rightarrow> run_cb w it p)"

text \<open>
  What follows \<^verbatim>\<open>swapIn\<close> and the decrement of the active threads: a fiber that is ready is
  scheduled again, under a lock that is taken only now.
\<close>

definition run_return :: "int \<Rightarrow> nat \<Rightarrow> bool \<Rightarrow> 'cb pool \<Rightarrow> 'cb pool res" where
  "run_return w f is_cb p =
    (let p1 = set_wk w W_Loop p in
     if \<not> is_cb then
       (if fstate p f = READY then Inr (p1\<lparr>sch := schedule tickle (FiberPtr (Some f)) (-1) (sch p1)\<rparr>)
        else if fstate p f \<noteq> TERM' \<and> fstate p f \<noteq> EXCEPT then
          (if fstate p f = HOLD \<or> fstate p f = INIT then Inr p1
           else Inl (Assertion ''(m_state == HOLD) || (m_state == INIT)''))
        else Inr p1)
     else
       (if fstate p f = READY then
          Inr (p1\<lparr>sch := schedule tickle (FiberPtr (Some f)) (-1) (sch p1), cbf := (cbf p1)(w := None)\<rparr>)
        else if fstate p f = EXCEPT \<or> fstate p f = TERM' then Inr (set_fstate f INIT p1)
        else Inr ((set_fstate f HOLD p1)\<lparr>cbf := (cbf p1)(w := None)\<rparr>)))"

text \<open>
  One step. \<open>P_Schedule (Some w)\<close> is a call made by the fiber worker \<open>w\<close> runs,
  \<open>P_Schedule None\<close> one from outside the pool; \<open>P_Leave w s\<close> is a yield or the end of the
  fiber; \<open>P_Return\<close> is the switch back with the decrement of the active threads, \<open>P_Settle\<close> what
  follows. \<open>P_IdleBack\<close> is \<^verbatim>\<open>Scheduler::idle\<close> from one switch to the next; \<open>P_Stop\<close> is the
  two flags \<^verbatim>\<open>stop\<close> sets. A step that does not fit the worker's position changes nothing.
\<close>

fun pool_do :: "'cb pool_op \<Rightarrow> 'cb pool \<Rightarrow> 'cb pool res" where
  "pool_do (P_Schedule by fc thr) p = Inr (p\<lparr>sch := schedule tickle fc thr (sch p)\<rparr>)"
| "pool_do P_NewFiber p = Inr ((set_fstate (nxt p) INIT p)\<lparr>nxt := Suc (nxt p)\<rparr>)"
| "pool_do (P_Take w) p = (case wk p w of W_Loop \<Rightarrow> run_take w p | _ \<Rightarrow> Inr p)"
| "pool_do (P_Dispatch w) p = (case wk p w of W_Took it \<Rightarrow> run_dispatch w it p | _ \<Rightarrow> Inr p)"
| "pool_do (P_Leave w s) p =
     (case wk p w of W_Run f b \<Rightarrow> Inr (set_wk w (W_Leaving f b) (set_fstate f s p)) | _ \<Rightarrow> Inr p)"
| "pool_do (P_Return w) p =
     (case wk p w of W_Leaving f b \<Rightarrow> Inr (set_wk w (W_Back f b) (add_active (-1) p)) | _ \<Rightarrow> Inr p)"
| "pool_do (P_Settle w) p = (case wk p w of W_Back f b \<Rightarrow> run_return w f b p | _ \<Rightarrow> Inr p)"
| "pool_do (P_Idle w) p =
     (case wk p w of
        W_Nothing \<Rightarrow> if idle_term p w then Inr (set_wk w W_Exit p) else Inr (set_wk w W_Idle (add_idle 1 p))
      | _ \<Rightarrow> Inr p)"
| "pool_do (P_IdleBack w) p =
     (case wk p w of
        W_Idle \<Rightarrow>
          Inr (set_wk w W_Loop (add_idle (-1) (p\<lparr>idle_term := (idle_term p)(w := stopping (sch p))\<rparr>)))
      | _ \<Rightarrow> Inr p)"
| "pool_do P_Stop p = Inr (p\<lparr>sch := (sch p)\<lparr>m_autoStop := True, m_stopping := True\<rparr>\<rparr>)"

text \<open>The pool right after \<^verbatim>\<open>start\<close>, with workers \<open>W\<close>.\<close>

definition pool_init :: "'cb scheduler \<Rightarrow> int set \<Rightarrow> nat \<Rightarrow> 'cb pool" where
  "pool_init s W n = \<lparr>sch = s, fstate = (\<lambda>_. INIT), nxt = n, wk = (\<lambda>w. if w \<in> W then W_Loop else W_Exit),
     cbf = (\<lambda>_. None), idle_term = (\<lambda>_. False)\<rparr>"

lemmas pool_defs [opdefs] = set_wk_def set_fstate_def add_active_def add_idle_def run_take_def run_cb_def
  run_dispatch_def run_return_def schedule_def scheduleNoLock_def tickle_def

fun pool_exec :: "'cb pool_op list \<Rightarrow> 'cb pool \<Rightarrow> 'cb pool res" where
  "pool_exec [] p = Inr p"
| "pool_exec (op # ops) p = bindR (pool_do op p) (pool_exec ops)"

section \<open>The thread counters\<close>

fun busy :: "'cb wstate \<Rightarrow> bool" where
  "busy (W_Took it) = True"
| "busy (W_Run f b) = True"
| "busy (W_Leaving f b) = True"
| "busy _ = False"

definition counted :: "('cb wstate \<Rightarrow> bool) \<Rightarrow> int set \<Rightarrow> (int \<Rightarrow> 'cb wstate) \<Rightarrow> int" where
  "counted P W g = int (card {w \<in> W. P (g w)})"

definition acct :: "int set \<Rightarrow> 'cb pool \<Rightarrow> bool" where
  "acct W p \<longleftrightarrow> finite W \<and> (\<forall>w. w \<notin> W \<longrightarrow> wk p w = W_Exit) \<and>
     m_activeThreadCount (sch p) = counted busy W (wk p) \<and>
     m_idleThreadCount (sch p) = counted (\<lambda>x. x = W_Idle) W (wk p)"

lemma counted_upd:
  assumes "finite W" "v \<in> W"
  shows "counted P W (g(v := x)) =
    counted P W g - (if P (g v) then 1 else 0) + (if P x then 1 else 0)"
proof -
  let ?R = "{w \<in> W - {v}. P (g w)}"
  have fin: "finite ?R" using assms by simp
  have "{w \<in> W. P ((g(v := x)) w)} = ?R \<union> (if P x then {v} else {})"
    "{w \<in> W. P (g w)} = ?R \<union> (if P (g v) then {v} else {})"
    using assms by auto
  then show ?thesis using fin by (simp add: counted_def)
qed

lemma schedule_counts [simp]:
  "m_activeThreadCount (schedule tickle fc thr s) = m_activeThreadCount s"
  "m_idleThreadCount (schedule tickle fc thr s) = m_idleThreadCount s"
  by (simp_all add: schedule_def scheduleNoLock_def tickle_def Let_def)

lemma acct_step [keeps]: "acct W p \<Longrightarrow> pool_do op p = Inr p' \<Longrightarrow> acct W p'"
proof -
  assume acct: "acct W p" and step: "pool_do op p = Inr p'"
  from acct have fin: "finite W" and inW: "\<And>w. wk p w \<noteq> W_Exit \<Longrightarrow> w \<in> W" by (auto simp: acct_def)
  note upd = counted_upd [OF fin inW]
  show ?thesis
    using acct step
    by (cases op)
      (auto simp: acct_def run_take_def run_dispatch_def run_cb_def run_return_def set_wk_def set_fstate_def
        add_active_def add_idle_def tickle_def Let_def upd split: wstate.splits if_splits option.splits)
qed

lemma acct_init: "finite W \<Longrightarrow> m_activeThreadCount s = 0 \<Longrightarrow> m_idleThreadCount s = 0 \<Longrightarrow> acct W (pool_init s W n)"
  by (auto simp: acct_def pool_init_def counted_def)

text \<open>A run of the pool: some steps, each of which succeeds.\<close>

inductive pool_run :: "('cb pool_op \<Rightarrow> 'cb pool \<Rightarrow> bool) \<Rightarrow> 'cb pool \<Rightarrow> 'cb pool \<Rightarrow> bool"
  for allowed p0 where
  pool_start: "pool_run allowed p0 p0"
| pool_step: "pool_run allowed p0 p \<Longrightarrow> allowed op p \<Longrightarrow> pool_do op p = Inr p' \<Longrightarrow> pool_run allowed p0 p'"

lemma pool_run_invariant:
  assumes "pool_run allowed p0 p" and "I p0"
    and "\<And>p op p'. I p \<Longrightarrow> allowed op p \<Longrightarrow> pool_do op p = Inr p' \<Longrightarrow> I p'"
  shows "I p"
  using assms by (induction rule: pool_run.induct) auto

lemma pool_exec_run:
  "pool_exec ops p = Inr p' \<Longrightarrow> (\<forall>op \<in> set ops. \<forall>p. allowed op p) \<Longrightarrow> pool_run allowed p0 p \<Longrightarrow> pool_run allowed p0 p'"
  by (induction ops arbitrary: p) (auto intro: pool_step)

text \<open>A scheduler that has just been started, with no work yet.\<close>

definition fresh_sched :: "'cb scheduler \<Rightarrow> bool" where
  "fresh_sched s \<longleftrightarrow> m_fibers s = [] \<and> m_activeThreadCount s = 0 \<and> m_idleThreadCount s = 0"

text \<open>
  C24. The thread counters are exact, in every interleaving of any number of workers with
  calls of \<^verbatim>\<open>schedule\<close> and \<^verbatim>\<open>stop\<close> from anywhere: the active count is the number of workers
  between taking a task and having returned from it, the idle count the number of workers on
  their idle fiber. Neither is ever negative, so the unsigned counters do not wrap.
\<close>
theorem thread_counts_exact:
  assumes "pool_run (\<lambda>_ _. True) (pool_init s W n) p" and "finite W" and "fresh_sched s"
  shows "m_activeThreadCount (sch p) = int (card {w \<in> W. busy (wk p w)}) \<and>
    m_idleThreadCount (sch p) = int (card {w \<in> W. wk p w = W_Idle})"
proof -
  from assms have "acct W (pool_init s W n)" by (intro acct_init) (auto simp: fresh_sched_def)
  with assms(1) have "acct W p" by (rule pool_run_invariant) (rule acct_step)
  then show ?thesis by (simp add: acct_def counted_def)
qed

text \<open>A scheduler of two pool threads, as the constructor and \<^verbatim>\<open>start\<close> make it.\<close>

definition demo_sched :: "string scheduler" where
  "demo_sched = \<lparr>m_name = ''main'', m_fibers = [], m_rootFiber = None, m_rootThread = -1,
     m_threads = [(1, ''main_0''), (2, ''main_1'')], m_threadIds = [1, 2], m_threadCount = 2, m_activeThreadCount = 0, m_idleThreadCount = 0,
     m_stopping = False, m_autoStop = False, tickles = 0\<rparr>"

lemma demo_sched_started:
  "bindR (Scheduler_new 2 False ''main'' False 0 9) (Scheduler_start (\<lambda>i. int i + 1)) = Inr demo_sched"
  by (simp add: Scheduler_new_def Scheduler_start_def demo_sched_def upt_rec string_of_nat.simps digit_char_def)

definition pool_after :: "string pool_op list \<Rightarrow> string pool" where
  "pool_after ops = (case pool_exec ops (pool_init demo_sched {1, 2} 0) of Inr p \<Rightarrow> p | Inl e \<Rightarrow> pool_init demo_sched {1, 2} 0)"

lemma pool_after_run:
  "\<exists>p. pool_exec ops (pool_init demo_sched {1, 2} 0) = Inr p \<Longrightarrow>
     pool_run (\<lambda>_ _. True) (pool_init demo_sched {1, 2} 0) (pool_after ops)"
  by (auto simp: pool_after_def intro: pool_exec_run pool_start)

theorem thread_counts_exact_witness:
  "m_activeThreadCount (sch (pool_after [P_Schedule None (Callback (Some ''cb'')) (-1), P_Take 1, P_Dispatch 1])) =
     int (card {w \<in> {1, 2}. busy (wk (pool_after [P_Schedule None (Callback (Some ''cb'')) (-1), P_Take 1, P_Dispatch 1]) w)})"
proof -
  let ?ops = "[P_Schedule None (Callback (Some ''cb'')) (-1), P_Take 1, P_Dispatch 1]"
  have "\<exists>p. pool_exec ?ops (pool_init demo_sched {1, 2} 0) = Inr p"
    by (simp add: pool_init_def demo_sched_def opdefs Let_def)
  then have "pool_run (\<lambda>_ _. True) (pool_init demo_sched {1, 2} 0) (pool_after ?ops)"
    by (rule pool_after_run)
  moreover have "finite {1, 2 :: int}" "fresh_sched demo_sched" by (simp_all add: fresh_sched_def demo_sched_def)
  ultimately show ?thesis using thread_counts_exact by blast
qed

section \<open>Stopping\<close>

text \<open>
  Nobody outside the pool schedules once \<^verbatim>\<open>stop\<close> has set its flags, and a call from inside
  comes from a fiber some worker is running.
\<close>

fun no_late_schedule :: "'cb pool_op \<Rightarrow> 'cb pool \<Rightarrow> bool" where
  "no_late_schedule (P_Schedule None fc thr) p = (\<not> (m_autoStop (sch p) \<and> m_stopping (sch p)))"
| "no_late_schedule (P_Schedule (Some w) fc thr) p = (case wk p w of W_Run f b \<Rightarrow> True | _ \<Rightarrow> False)"
| "no_late_schedule op p = True"

text \<open>The flags stay once they are set, and only then an idle fiber terminates and a worker leaves.\<close>

definition stop_flags :: "'cb pool \<Rightarrow> bool" where
  "stop_flags p \<longleftrightarrow> m_autoStop (sch p) \<and> m_stopping (sch p)"

definition stop_inv :: "int set \<Rightarrow> 'cb pool \<Rightarrow> bool" where
  "stop_inv W p \<longleftrightarrow> acct W p \<and> (\<forall>w. idle_term p w \<or> (wk p w = W_Exit \<and> w \<in> W) \<longrightarrow> stop_flags p)"

lemma flags_step: "pool_do op p = Inr p' \<Longrightarrow> stop_flags p \<Longrightarrow> stop_flags p'"
proof -
  have flags: "m_autoStop (schedule tickle fc thr s) = m_autoStop s" "m_stopping (schedule tickle fc thr s) = m_stopping s"
    for fc thr and s :: "'a scheduler"
    by (simp_all add: schedule_def scheduleNoLock_def tickle_def Let_def)
  show "pool_do op p = Inr p' \<Longrightarrow> stop_flags p \<Longrightarrow> stop_flags p'"
    by (cases op)
      (auto simp: stop_flags_def run_take_def run_dispatch_def run_cb_def run_return_def set_wk_def set_fstate_def flags
        add_active_def add_idle_def tickle_def Let_def split: wstate.splits if_splits option.splits)
qed

lemma idle_term_step:
  "pool_do op p = Inr p' \<Longrightarrow> idle_term p' w \<Longrightarrow> idle_term p w \<or> stopping (sch p)"
  by (cases op)
    (auto simp: run_take_def run_dispatch_def run_cb_def run_return_def set_wk_def set_fstate_def
      add_active_def add_idle_def Let_def split: wstate.splits if_splits option.splits)

lemma exit_step:
  "pool_do op p = Inr p' \<Longrightarrow> wk p' w = W_Exit \<Longrightarrow> wk p w = W_Exit \<or> idle_term p w"
  by (cases op)
    (auto simp: run_take_def run_dispatch_def run_cb_def run_return_def set_wk_def set_fstate_def
      add_active_def add_idle_def Let_def split: wstate.splits if_splits option.splits)

lemma exit_stays [keeps]: "pool_do op p = Inr p' \<Longrightarrow> wk p w = W_Exit \<Longrightarrow> wk p' w = W_Exit"
  by (cases op)
    (auto simp: run_take_def run_dispatch_def run_cb_def run_return_def set_wk_def set_fstate_def
      add_active_def add_idle_def Let_def split: wstate.splits if_splits option.splits)

lemma stop_inv_step [keeps]:
  assumes inv: "stop_inv W p" and step: "pool_do op p = Inr p'"
  shows "stop_inv W p'"
proof -
  have "stop_flags p" if "idle_term p' w \<or> (wk p' w = W_Exit \<and> w \<in> W)" for w
    using that idle_term_step [OF step] exit_step [OF step] inv by (auto simp: stop_inv_def stop_flags_def stopping_def)
  with flags_step [OF step] acct_step [OF _ step] inv show ?thesis by (auto simp: stop_inv_def)
qed

lemma stop_inv_init: "fresh_sched s \<Longrightarrow> finite W \<Longrightarrow> stop_inv W (pool_init s W n)"
  by (auto simp: stop_inv_def fresh_sched_def acct_init) (auto simp: pool_init_def)

text \<open>What a worker does by itself from the top of its loop when there is nothing left to do.\<close>

definition leave_ops :: "int \<Rightarrow> 'cb pool_op list" where
  "leave_ops w = [P_Take w, P_Idle w, P_IdleBack w, P_Take w, P_Idle w]"

text \<open>
  Stopping lets go: once the scheduler is stopping, a worker at the top of its loop
  leaves it by at most five steps of its own (look for a task, find none, run the idle fiber to
  its end, look again, leave), without any failure and without touching the queue.
\<close>
theorem worker_leaves_when_stopping:
  assumes "stopping (sch p)" and "wk p w = W_Loop" and "\<not> idle_term p w"
  shows "\<exists>p'. pool_exec (leave_ops w) p = Inr p' \<and> wk p' w = W_Exit \<and> stopping (sch p') \<and>
    (\<forall>v. v \<noteq> w \<longrightarrow> wk p' v = wk p v)"
  using assms
  by (simp add: leave_ops_def run_take_def set_wk_def add_idle_def stopping_def Let_def)

theorem worker_leaves_when_stopping_witness:
  "\<exists>p'. pool_exec (leave_ops 2) (pool_after [P_Stop]) = Inr p' \<and> wk p' 2 = W_Exit"
proof -
  have "stopping (sch (pool_after [P_Stop]))" "wk (pool_after [P_Stop]) 2 = W_Loop"
    "\<not> idle_term (pool_after [P_Stop]) 2"
    by (simp_all add: pool_after_def pool_init_def demo_sched_def stopping_def)
  from worker_leaves_when_stopping [OF this] show ?thesis by blast
qed

section \<open>Fibers and workers\<close>

text \<open>
  A yield loses the pinning: a fiber scheduled for one thread that yields with
  \<^verbatim>\<open>YieldToReady\<close> is put back without a thread, so the next search of any thread at all may
  take it (here, whenever it is the only task).
\<close>
theorem ready_fiber_loses_thread:
  assumes "wk p w = W_Back f b" and "fstate p f = READY" and "m_fibers (sch p) = []"
  shows "\<exists>p' it. pool_do (P_Settle w) p = Inr p' \<and> m_fibers (sch p') = [it] \<and> ft_fiber it = Some f \<and>
    (\<forall>v. pick v (fstate p') (m_fibers (sch p')) = Inr (Some it, [], False))"
  using assms
  by (cases b)
    (auto simp: run_return_def set_wk_def schedule_def scheduleNoLock_def tickle_def Let_def)

theorem ready_fiber_loses_thread_witness:
  "\<exists>p' it. pool_do (P_Settle 1)
      (pool_after [P_NewFiber, P_Schedule None (FiberPtr (Some 0)) 1, P_Take 1, P_Dispatch 1, P_Leave 1 READY, P_Return 1]) = Inr p' \<and>
    ft_fiber it = Some 0 \<and> pick 2 (fstate p') (m_fibers (sch p')) = Inr (Some it, [], False)"
proof -
  let ?p = "pool_after [P_NewFiber, P_Schedule None (FiberPtr (Some 0)) 1, P_Take 1, P_Dispatch 1, P_Leave 1 READY, P_Return 1]"
  have "wk ?p 1 = W_Back 0 False" "fstate ?p 0 = READY" "m_fibers (sch ?p) = []"
    by (simp_all add: pool_after_def pool_init_def demo_sched_def opdefs Let_def)
  from ready_fiber_loses_thread [OF this] show ?thesis by blast
qed

text \<open>
  Two threads can be on one fiber's stack. \<^verbatim>\<open>YieldToHold\<close> sets the state before it
  saves the context; between the two, a call of \<^verbatim>\<open>schedule\<close> from elsewhere (an event handler
  that wakes the fiber) puts the fiber in the queue, and another worker finds it not executing
  and swaps it in while the first is still leaving it.
\<close>
theorem hold_then_schedule_race:
  "\<exists>p. pool_exec [P_NewFiber, P_Schedule None (FiberPtr (Some 0)) (-1), P_Take 1, P_Dispatch 1,
         P_Leave 1 HOLD, P_Schedule None (FiberPtr (Some 0)) (-1), P_Take 2, P_Dispatch 2]
       (pool_init demo_sched {1, 2} 0) = Inr p \<and>
     wk p 1 = W_Leaving 0 False \<and> wk p 2 = W_Run 0 False"
  by (simp add: pool_init_def demo_sched_def opdefs Let_def)



section \<open>A discipline under which no fiber runs twice\<close>

text \<open>Who has a fiber: a worker's task or stack, or its \<^verbatim>\<open>cb_fiber\<close>; or the queue.\<close>

fun wk_fiber :: "'cb wstate \<Rightarrow> nat option" where
  "wk_fiber (W_Took it) = ft_fiber it"
| "wk_fiber (W_Run f b) = Some f"
| "wk_fiber (W_Leaving f b) = Some f"
| "wk_fiber (W_Back f b) = Some f"
| "wk_fiber _ = None"

definition has_fiber :: "(int \<Rightarrow> 'cb wstate) \<Rightarrow> (int \<Rightarrow> nat option) \<Rightarrow> int \<Rightarrow> nat \<Rightarrow> bool" where
  "has_fiber wks cbfs w f \<longleftrightarrow> wk_fiber (wks w) = Some f \<or> cbfs w = Some f"

definition queued :: "'cb task list \<Rightarrow> nat list" where
  "queued q = List.map_filter ft_fiber q"

definition owned :: "'cb pool \<Rightarrow> nat \<Rightarrow> bool" where
  "owned p f \<longleftrightarrow> f \<in> set (queued (m_fibers (sch p))) \<or> (\<exists>w. has_fiber (wk p) (cbf p) w f)"

lemma unowned_iff:
  "\<not> owned p f \<longleftrightarrow> f \<notin> set (queued (m_fibers (sch p))) \<and> (\<forall>w. wk_fiber (wk p w) \<noteq> Some f \<and> cbf p w \<noteq> Some f)"
  by (auto simp: owned_def has_fiber_def)

lemma not_owned_simp: "owned p f = (\<not> (f \<notin> set (queued (m_fibers (sch p))) \<and> (\<forall>w. wk_fiber (wk p w) \<noteq> Some f \<and> cbf p w \<noteq> Some f)))"
  using unowned_iff [of p f] by blast

lemma idle_wk_fiber: "wk_fiber (if P then W_Loop else W_Exit) = None"
  by simp

text \<open>
  The discipline: a fiber is scheduled only if it exists and nobody has it (in particular not a
  worker that is still leaving it), and a fiber leaves in one of the four states a yield or an end
  can set.
\<close>

fun scheduled_fiber :: "'cb fiber_or_cb \<Rightarrow> nat option" where
  "scheduled_fiber (FiberPtr f) = f"
| "scheduled_fiber (FiberPtrRef f) = f"
| "scheduled_fiber _ = None"

fun disciplined :: "'cb pool_op \<Rightarrow> 'cb pool \<Rightarrow> bool" where
  "disciplined (P_Schedule by fc thr) p =
     (case scheduled_fiber fc of None \<Rightarrow> True | Some f \<Rightarrow> f < nxt p \<and> \<not> owned p f)"
| "disciplined (P_Leave w s) p = (s \<in> {READY, HOLD, TERM', EXCEPT})"
| "disciplined op p = True"

text \<open>
  A fiber is in one place at most; a worker runs what it has, in the state it should have.
\<close>

definition occ_inv :: "'cb task list \<Rightarrow> nat \<Rightarrow> (int \<Rightarrow> 'cb wstate) \<Rightarrow> (int \<Rightarrow> nat option) \<Rightarrow> bool" where
  "occ_inv q n wks cbfs \<longleftrightarrow> distinct (queued q) \<and> (\<forall>f \<in> set (queued q). f < n) \<and>
     (\<forall>w f. has_fiber wks cbfs w f \<longrightarrow> f < n \<and> f \<notin> set (queued q)) \<and>
     (\<forall>v w f. has_fiber wks cbfs v f \<longrightarrow> has_fiber wks cbfs w f \<longrightarrow> v = w)"

fun wk_ok :: "(nat \<Rightarrow> State) \<Rightarrow> 'cb wstate \<Rightarrow> nat option \<Rightarrow> bool" where
  "wk_ok st (W_Took it) c = (\<forall>f. c = Some f \<longrightarrow> ft_fiber it \<noteq> Some f \<and> st f \<in> {INIT, TERM', EXCEPT})"
| "wk_ok st (W_Run f b) c = (st f = EXEC \<and> b = (c = Some f) \<and> (\<forall>g. c = Some g \<longrightarrow> g \<noteq> f \<longrightarrow> st g \<in> {INIT, TERM', EXCEPT}))"
| "wk_ok st (W_Leaving f b) c = (st f \<in> {READY, HOLD, TERM', EXCEPT} \<and> b = (c = Some f) \<and>
     (\<forall>g. c = Some g \<longrightarrow> g \<noteq> f \<longrightarrow> st g \<in> {INIT, TERM', EXCEPT}))"
| "wk_ok st (W_Back f b) c = (st f \<in> {READY, HOLD, TERM', EXCEPT} \<and> b = (c = Some f) \<and>
     (\<forall>g. c = Some g \<longrightarrow> g \<noteq> f \<longrightarrow> st g \<in> {INIT, TERM', EXCEPT}))"
| "wk_ok st x c = (\<forall>g. c = Some g \<longrightarrow> st g \<in> {INIT, TERM', EXCEPT})"

definition exec_inv :: "(nat \<Rightarrow> State) \<Rightarrow> (int \<Rightarrow> 'cb wstate) \<Rightarrow> bool" where
  "exec_inv st wks \<longleftrightarrow> (\<forall>f. st f = EXEC \<longrightarrow> (\<exists>w b. wks w = W_Run f b))"

definition pool_ok :: "'cb pool \<Rightarrow> bool" where
  "pool_ok p \<longleftrightarrow> occ_inv (m_fibers (sch p)) (nxt p) (wk p) (cbf p) \<and>
     list_all nonempty_task (m_fibers (sch p)) \<and>
     (\<forall>w. wk_ok (fstate p) (wk p w) (cbf p w)) \<and> exec_inv (fstate p) (wk p)"

lemma queued_simps [simp]:
  "queued [] = []" "queued (a @ b) = queued a @ queued b"
  "queued (t # q) = (case ft_fiber t of None \<Rightarrow> queued q | Some f \<Rightarrow> f # queued q)"
  by (simp_all add: queued_def map_filter_def split: option.splits)

lemma pick_parts:
  "pick me st q = Inr (ft, rest, tm) \<Longrightarrow>
     (case ft of None \<Rightarrow> rest = q
      | Some it \<Rightarrow> \<exists>a b. q = a @ it # b \<and> rest = a @ b \<and> (\<forall>f. ft_fiber it = Some f \<longrightarrow> st f \<noteq> EXEC))"
proof (induction q arbitrary: ft rest tm)
  case (Cons t q)
  then show ?case
    by (auto split: if_splits option.splits) (metis append_Cons append_Nil)+
qed simp

lemma queue_ops [simp]:
  "m_fibers (schedule tickle fc thr s) =
     m_fibers s @ (if nonempty_task (FiberAndThread_new fc thr) then [FiberAndThread_new fc thr] else [])"
  "m_fibers (tickle s) = m_fibers s"
  by (simp_all add: schedule_def scheduleNoLock_def tickle_def nonempty_task_def Let_def)

lemma task_fiber [simp]: "ft_fiber (FiberAndThread_new fc thr) = scheduled_fiber fc"
  by (cases fc) simp_all

lemma has_fiber_upd [simp]:
  "has_fiber (wks(w := x)) cbfs v f = (if v = w then wk_fiber x = Some f \<or> cbfs w = Some f else has_fiber wks cbfs v f)"
  "has_fiber wks (cbfs(w := c)) v f = (if v = w then wk_fiber (wks w) = Some f \<or> c = Some f else has_fiber wks cbfs v f)"
  by (auto simp: has_fiber_def)

lemma wk_ok_upd:
  "\<not> (wk_fiber x = Some f \<or> c = Some f) \<Longrightarrow> wk_ok (st(f := s)) x c = wk_ok st x c"
  by (cases x) auto

text \<open>Changing the state of a fiber concerns only the worker that has it.\<close>

lemma wk_ok_others:
  assumes "occ_inv q n wks cbfs" "\<forall>w. wk_ok st (wks w) (cbfs w)" "has_fiber wks cbfs w f" "v \<noteq> w"
  shows "wk_ok (st(f := s)) (wks v) (cbfs v)"
proof -
  have "\<not> has_fiber wks cbfs v f" using assms(1,3,4) by (auto simp: occ_inv_def)
  then show ?thesis using assms(2) by (simp add: wk_ok_upd has_fiber_def)
qed

lemma pool_ok_schedule:
  assumes "pool_ok p" "disciplined (P_Schedule by fc thr) p"
  shows "pool_ok (p\<lparr>sch := schedule tickle fc thr (sch p)\<rparr>)"
  using assms by (auto simp: pool_ok_def occ_inv_def owned_def split: option.splits)

lemma exec_inv_upd: "exec_inv st wks \<Longrightarrow> \<forall>f b. wks w \<noteq> W_Run f b \<Longrightarrow> exec_inv st (wks(w := x))"
  unfolding exec_inv_def by (metis fun_upd_apply)

lemma occ_inv_mono: "occ_inv q n wks cbfs \<Longrightarrow> n \<le> m \<Longrightarrow> occ_inv q m wks cbfs"
  by (auto simp: occ_inv_def) (meson less_le_trans)+

lemma pool_okD:
  assumes "pool_ok p" "has_fiber (wk p) (cbf p) w f"
  shows "f < nxt p" "f \<notin> set (queued (m_fibers (sch p)))" "v \<noteq> w \<Longrightarrow> \<not> has_fiber (wk p) (cbf p) v f"
  using assms unfolding pool_ok_def occ_inv_def by blast+

lemma pool_ok_wk: "pool_ok p \<Longrightarrow> wk p w = x \<Longrightarrow> wk_ok (fstate p) x (cbf p w)"
  by (auto simp: pool_ok_def)

text \<open>A worker that is not on a fiber's stack moves on, and drops the task it has, if any.\<close>

lemma pool_ok_move:
  assumes ok: "pool_ok p" and w: "\<forall>f b. wk p w \<noteq> W_Run f b"
    and x: "wk_fiber x = None" "wk_ok (fstate p) x (cbf p w)"
    and new: "nxt p' = nxt p" "wk p' = (wk p)(w := x)" "cbf p' = cbf p" "fstate p' = fstate p"
      "m_fibers (sch p') = m_fibers (sch p)"
  shows "pool_ok p'"
proof -
  have "exec_inv (fstate p) ((wk p)(w := x))" using ok w by (simp add: pool_ok_def exec_inv_upd)
  moreover have "occ_inv (m_fibers (sch p)) (nxt p) ((wk p)(w := x)) (cbf p)"
    using ok x by (auto simp: pool_ok_def occ_inv_def has_fiber_def)
  moreover have "wk_ok (fstate p) (((wk p)(w := x)) v) (cbf p v)" for v
    using ok x by (auto simp: pool_ok_def)
  ultimately show ?thesis using ok by (simp add: pool_ok_def new)
qed

text \<open>
  The general step of a worker \<open>w\<close> on a fiber \<open>f\<close> that nobody else has: afterwards it has
  no other fibers than before, and the state it gave \<open>f\<close> fits.
\<close>

text \<open>Worker \<open>w\<close> moves, and may leave fiber \<open>f\<close> in the queue: who has a fiber stays unique.\<close>

lemma occ_inv_worker:
  assumes occ: "occ_inv q n wks cbfs"
    and free: "f < n" "f \<notin> set (queued q)" "\<And>v. v \<noteq> w \<Longrightarrow> \<not> has_fiber wks cbfs v f"
    and keep: "\<And>g. wk_fiber x = Some g \<or> c = Some g \<Longrightarrow> g = f \<or> has_fiber wks cbfs w g"
    and queue: "q' = q \<or> (\<exists>t. q' = q @ [t] \<and> ft_fiber t = Some f \<and> wk_fiber x \<noteq> Some f \<and> c \<noteq> Some f)"
  shows "occ_inv q' n (wks(w := x)) (cbfs(w := c))"
proof -
  let ?has = "has_fiber (wks(w := x)) (cbfs(w := c))"
  have has: "?has v g \<longleftrightarrow> (if v = w then wk_fiber x = Some g \<or> c = Some g else has_fiber wks cbfs v g)" for v g
    by simp
  have excl: "has_fiber wks cbfs v g \<Longrightarrow> has_fiber wks cbfs u g \<Longrightarrow> v = u" for u v g
    using occ unfolding occ_inv_def by blast
  have sub: "v = w \<and> g = f \<or> has_fiber wks cbfs v g" if "?has v g" for v g
    using that keep [of g] by (auto simp: has split: if_splits)
  show ?thesis
    unfolding occ_inv_def
  proof (intro conjI allI ballI impI)
    show "distinct (queued q')" using occ queue free(2) by (auto simp: occ_inv_def)
    show "g < n" if "g \<in> set (queued q')" for g
      using that occ queue free(1) by (auto simp: occ_inv_def)
    fix v g assume g: "?has v g"
    then show "g < n" using sub [OF g] free(1) occ by (auto simp: occ_inv_def)
    show "g \<notin> set (queued q')"
    proof (cases "g = f")
      case True
      with g free(3) queue free(2) show ?thesis by (auto simp: has split: if_splits)
    next
      case False
      with sub [OF g] occ queue show ?thesis by (auto simp: occ_inv_def)
    qed
    show "v = u" if "?has u g" for u
      using sub [OF g] sub [OF that] free(3) excl by metis
  qed
qed

lemma exec_inv_worker:
  assumes ex: "exec_inv st wks" and exec: "s = EXEC \<Longrightarrow> \<exists>b. x = W_Run f b" "\<And>g b. wks w = W_Run g b \<Longrightarrow> g = f"
  shows "exec_inv (st(f := s)) (wks(w := x))"
  unfolding exec_inv_def
proof (intro allI impI)
  fix g assume g: "(st(f := s)) g = EXEC"
  show "\<exists>v b. (wks(w := x)) v = W_Run g b"
  proof (cases "g = f")
    case True
    with g exec(1) show ?thesis by auto
  next
    case False
    with g ex obtain v b where v: "wks v = W_Run g b" by (auto simp: exec_inv_def)
    with False exec(2) have "v \<noteq> w" by blast
    with v show ?thesis by auto
  qed
qed

lemma pool_ok_worker:
  assumes ok: "pool_ok p"
    and free: "f < nxt p" "f \<notin> set (queued (m_fibers (sch p)))" "\<And>v. v \<noteq> w \<Longrightarrow> \<not> has_fiber (wk p) (cbf p) v f"
    and keep: "\<And>g. wk_fiber x = Some g \<or> c = Some g \<Longrightarrow> g = f \<or> has_fiber (wk p) (cbf p) w g"
    and fits: "wk_ok ((fstate p)(f := s)) x c"
    and exec: "s = EXEC \<Longrightarrow> \<exists>b. x = W_Run f b" "\<And>g b. wk p w = W_Run g b \<Longrightarrow> g = f"
    and queue: "m_fibers (sch p') = m_fibers (sch p) \<or>
      (\<exists>t. m_fibers (sch p') = m_fibers (sch p) @ [t] \<and> ft_fiber t = Some f \<and> wk_fiber x \<noteq> Some f \<and> c \<noteq> Some f)"
    and new: "nxt p' = nxt p" "wk p' = (wk p)(w := x)" "cbf p' = (cbf p)(w := c)" "fstate p' = (fstate p)(f := s)"
  shows "pool_ok p'"
proof -
  from ok have occ: "occ_inv (m_fibers (sch p)) (nxt p) (wk p) (cbf p)" and ne: "list_all nonempty_task (m_fibers (sch p))"
    and wok: "\<And>w. wk_ok (fstate p) (wk p w) (cbf p w)" and ex: "exec_inv (fstate p) (wk p)" by (simp_all add: pool_ok_def)
  have "occ_inv (m_fibers (sch p')) (nxt p') (wk p') (cbf p')"
    unfolding new by (rule occ_inv_worker [OF occ free keep queue])
  moreover have "list_all nonempty_task (m_fibers (sch p'))"
    using ne queue by (auto simp: nonempty_task_def)
  moreover have "wk_ok (fstate p') (wk p' v) (cbf p' v)" for v
    using wok [of v] fits free(3) [of v] by (cases "v = w") (simp_all add: new wk_ok_upd has_fiber_def)
  moreover have "exec_inv (fstate p') (wk p')"
    unfolding new by (rule exec_inv_worker [OF ex exec])
  ultimately show ?thesis by (simp add: pool_ok_def)
qed

lemma pool_ok_new:
  assumes "pool_ok p"
  shows "pool_ok ((set_fstate (nxt p) INIT p)\<lparr>nxt := Suc (nxt p)\<rparr>)"
proof -
  have occ: "occ_inv (m_fibers (sch p)) (nxt p) (wk p) (cbf p)" using assms by (simp add: pool_ok_def)
  then have "\<not> has_fiber (wk p) (cbf p) w (nxt p)" for w by (auto simp: occ_inv_def)
  with assms show ?thesis
    by (auto simp: pool_ok_def set_fstate_def exec_inv_def wk_ok_upd has_fiber_def intro: occ_inv_mono)
qed

lemma pool_ok_take:
  assumes ok: "pool_ok p" and w: "wk p w = W_Loop"
  shows "\<exists>p'. run_take w p = Inr p' \<and> pool_ok p'"
proof -
  have ne: "list_all nonempty_task (m_fibers (sch p))" using ok by (simp add: pool_ok_def)
  obtain ft rest tm where pick: "pick w (fstate p) (m_fibers (sch p)) = Inr (ft, rest, tm)"
    using pick_pick_spec [OF ne] by (metis prod_cases3)
  note parts = pick_parts [OF pick]
  have occ: "occ_inv (m_fibers (sch p)) (nxt p) (wk p) (cbf p)" and wok: "\<forall>w. wk_ok (fstate p) (wk p w) (cbf p w)"
    and ex: "exec_inv (fstate p) (wk p)" using ok by (simp_all add: pool_ok_def)
  show ?thesis
  proof (cases ft)
    case None
    with parts have rest: "rest = m_fibers (sch p)" by simp
    obtain p' where p': "run_take w p = Inr p'" using pick by (simp add: run_take_def Let_def)
    have "pool_ok p'"
      by (rule pool_ok_move [OF ok, where w = w and x = W_Nothing])
        (use p' pick None rest w pool_ok_wk [OF ok w] in \<open>auto simp: run_take_def set_wk_def Let_def\<close>)
    with p' show ?thesis by blast
  next
    case (Some it)
    with parts obtain a b where ab: "m_fibers (sch p) = a @ it # b" "rest = a @ b" by auto
    moreover have "occ_inv (a @ b) (nxt p) ((wk p)(w := W_Took it)) (cbf p)"
      using occ w unfolding ab by (auto simp: occ_inv_def has_fiber_def split: option.splits)
    moreover have "\<forall>v. wk_ok (fstate p) (((wk p)(w := W_Took it)) v) (cbf p v)"
    proof
      fix v
      have "ft_fiber it \<noteq> Some f" if "cbf p w = Some f" for f
      proof -
        from that have "has_fiber (wk p) (cbf p) w f" by (simp add: has_fiber_def)
        with occ have "f \<notin> set (queued (m_fibers (sch p)))" unfolding occ_inv_def by blast
        with ab(1) show ?thesis by auto
      qed
      then show "wk_ok (fstate p) (((wk p)(w := W_Took it)) v) (cbf p v)"
        using wok [rule_format, of v] w by auto
    qed
    moreover have "exec_inv (fstate p) ((wk p)(w := W_Took it))"
      using ex w by (simp add: exec_inv_upd)
    ultimately show ?thesis using pick Some ne
      by (simp add: run_take_def pool_ok_def set_wk_def add_active_def Let_def)
  qed
qed

lemma pool_ok_leave:
  assumes ok: "pool_ok p" and w: "wk p w = W_Run f b" and s: "s \<in> {READY, HOLD, TERM', EXCEPT}"
  shows "pool_ok (set_wk w (W_Leaving f b) (set_fstate f s p))"
proof -
  have h: "has_fiber (wk p) (cbf p) w f" using w by (simp add: has_fiber_def)
  note wok = pool_ok_wk [OF ok w]
  show ?thesis
    by (rule pool_ok_worker [OF ok pool_okD [OF ok h], where x = "W_Leaving f b" and c = "cbf p w" and s = s])
      (use w s wok in \<open>auto simp: set_wk_def set_fstate_def has_fiber_def\<close>)
qed

lemma pool_ok_back:
  assumes ok: "pool_ok p" and w: "wk p w = W_Leaving f b"
  shows "pool_ok (set_wk w (W_Back f b) (add_active (-1) p))"
proof -
  have h: "has_fiber (wk p) (cbf p) w f" using w by (simp add: has_fiber_def)
  note wok = pool_ok_wk [OF ok w]
  show ?thesis
    by (rule pool_ok_worker [OF ok pool_okD [OF ok h], where x = "W_Back f b" and c = "cbf p w" and s = "fstate p f"])
      (use w wok in \<open>auto simp: set_wk_def add_active_def has_fiber_def\<close>)
qed

lemma pool_ok_return:
  assumes ok: "pool_ok p" and w: "wk p w = W_Back f b"
  shows "\<exists>p'. run_return w f b p = Inr p' \<and> pool_ok p'"
proof -
  have h: "has_fiber (wk p) (cbf p) w f" using w by (simp add: has_fiber_def)
  note wok = pool_ok_wk [OF ok w]
  note step = pool_ok_worker [OF ok pool_okD [OF ok h], where x = W_Loop]
  show ?thesis
  proof (cases b)
    case False
    with wok obtain p' where p': "run_return w f b p = Inr p'" by (auto simp: run_return_def Let_def)
    have "pool_ok p'"
      by (rule step [where c = "cbf p w" and s = "fstate p f"])
        (use p' False w wok in \<open>auto simp: run_return_def set_wk_def add_active_def nonempty_task_def has_fiber_def Let_def split: if_splits\<close>)
    with p' show ?thesis by blast
  next
    case True
    with wok obtain p' where p': "run_return w f b p = Inr p'" by (auto simp: run_return_def Let_def)
    have "pool_ok p'"
      by (rule step [where c = "if fstate p f \<in> {EXCEPT, TERM'} then Some f else None"
          and s = "if fstate p f = READY then READY else if fstate p f \<in> {EXCEPT, TERM'} then INIT else HOLD"])
        (use p' True w wok in \<open>auto simp: run_return_def set_wk_def set_fstate_def add_active_def nonempty_task_def has_fiber_def Let_def split: if_splits\<close>)
    with p' show ?thesis by blast
  qed
qed

lemma pool_ok_run:
  assumes ok: "pool_ok p" and w: "wk p w = W_Took it"
    and f: "has_fiber (wk p) (cbf p) w f" and fits: "b = (cbf p w = Some f)"
    and other: "\<And>g. cbf p w = Some g \<Longrightarrow> g \<noteq> f \<Longrightarrow> fstate p g \<in> {INIT, TERM', EXCEPT}"
  shows "pool_ok (set_wk w (W_Run f b) (set_fstate f EXEC p))"
  by (rule pool_ok_worker [OF ok pool_okD [OF ok f], where x = "W_Run f b" and c = "cbf p w" and s = EXEC])
    (use w fits other in \<open>auto simp: set_wk_def set_fstate_def has_fiber_def\<close>)

lemma pool_ok_run_cb:
  assumes ok: "pool_ok p" and w: "wk p w = W_Took it"
  shows "\<exists>p'. run_cb w it p = Inr p' \<and> pool_ok p'"
proof -
  note wok = pool_ok_wk [OF ok w]
  show ?thesis
  proof (cases "ft_cb it = None")
    case True
    have "pool_ok (set_wk w W_Loop (add_active (-1) p))"
      by (rule pool_ok_move [OF ok, where w = w and x = W_Loop])
        (use w wok in \<open>auto simp: set_wk_def add_active_def\<close>)
    with True show ?thesis by (simp add: run_cb_def)
  next
    case False
    show ?thesis
    proof (cases "cbf p w")
      case (Some f)
      with wok have "pool_ok (set_wk w (W_Run f True) (set_fstate f EXEC p))"
        by (intro pool_ok_run [OF ok w]) (auto simp: has_fiber_def)
      moreover have "fstate p f \<in> {INIT, TERM', EXCEPT}" using wok Some by simp
      ultimately show ?thesis using False Some by (auto simp: run_cb_def)
    next
      case None
      let ?f = "nxt p"
      let ?q = "(set_fstate ?f INIT p)\<lparr>nxt := Suc ?f\<rparr>"
      let ?p' = "set_wk w (W_Run ?f True) (set_fstate ?f EXEC (p\<lparr>nxt := Suc ?f, cbf := (cbf p)(w := Some ?f)\<rparr>))"
      have q: "pool_ok ?q" by (rule pool_ok_new [OF ok])
      have fresh: "?f \<notin> set (queued (m_fibers (sch p)))" "\<not> has_fiber (wk p) (cbf p) v ?f" for v
        using ok by (auto simp: pool_ok_def occ_inv_def)
      have "pool_ok ?p'"
        by (rule pool_ok_worker [OF q, where f = ?f and w = w and x = "W_Run ?f True" and c = "Some ?f" and s = EXEC])
          (use w fresh in \<open>auto simp: set_wk_def set_fstate_def\<close>)
      with False None show ?thesis by (simp add: run_cb_def Let_def)
    qed
  qed
qed

lemma pool_ok_dispatch:
  assumes ok: "pool_ok p" and w: "wk p w = W_Took it"
  shows "\<exists>p'. run_dispatch w it p = Inr p' \<and> pool_ok p'"
proof (cases "\<exists>f. ft_fiber it = Some f \<and> fstate p f \<noteq> TERM' \<and> fstate p f \<noteq> EXCEPT")
  case True
  note wok = pool_ok_wk [OF ok w]
  from True obtain f where f: "ft_fiber it = Some f" "fstate p f \<noteq> TERM'" "fstate p f \<noteq> EXCEPT" by blast
  have h: "has_fiber (wk p) (cbf p) w f" using w f by (simp add: has_fiber_def)
  have "fstate p f \<noteq> EXEC"
  proof
    assume "fstate p f = EXEC"
    with ok obtain v b where v: "wk p v = W_Run f b" by (auto simp: pool_ok_def exec_inv_def)
    with pool_okD(3) [OF ok h, of v] have "v = w" by (auto simp: has_fiber_def)
    with v w show False by simp
  qed
  moreover have "pool_ok (set_wk w (W_Run f False) (set_fstate f EXEC p))"
    using wok f by (intro pool_ok_run [OF ok w h]) auto
  ultimately show ?thesis using f by (simp add: run_dispatch_def)
next
  case False
  then have "run_dispatch w it p = run_cb w it p" by (auto simp: run_dispatch_def split: option.splits)
  with pool_ok_run_cb [OF ok w] show ?thesis by simp
qed

lemma pool_ok_step [keeps]:
  assumes ok: "pool_ok p" and op: "disciplined op p"
  shows "\<exists>p'. pool_do op p = Inr p' \<and> pool_ok p'"
proof (cases op)
  case (P_Schedule bw fc thr)
  then show ?thesis using pool_ok_schedule [OF ok op [unfolded P_Schedule]] by simp
next
  case P_NewFiber
  then show ?thesis using pool_ok_new [OF ok] by simp
next
  case (P_Take w)
  then show ?thesis using ok pool_ok_take [OF ok] by (auto split: wstate.splits)
next
  case (P_Dispatch w)
  then show ?thesis using ok pool_ok_dispatch [OF ok] by (auto split: wstate.splits)
next
  case (P_Leave w s)
  then show ?thesis using ok op pool_ok_leave [OF ok] by (auto split: wstate.splits)
next
  case (P_Return w)
  then show ?thesis using ok pool_ok_back [OF ok] by (auto split: wstate.splits)
next
  case (P_Settle w)
  then show ?thesis using ok pool_ok_return [OF ok] by (auto split: wstate.splits)
next
  case (P_Idle w)
  have "pool_ok (set_wk w W_Exit p)" "pool_ok (set_wk w W_Idle (add_idle 1 p))" if w: "wk p w = W_Nothing"
    using pool_ok_wk [OF ok w]
    by (auto simp: set_wk_def add_idle_def w intro!: pool_ok_move [OF ok, where w = w])
  with P_Idle ok show ?thesis by (auto split: wstate.splits)
next
  case (P_IdleBack w)
  have "pool_ok (set_wk w W_Loop (add_idle (-1) (p\<lparr>idle_term := g\<rparr>)))" if w: "wk p w = W_Idle" for g
    using pool_ok_wk [OF ok w]
    by (auto simp: set_wk_def add_idle_def w intro!: pool_ok_move [OF ok, where w = w])
  with P_IdleBack ok show ?thesis by (auto split: wstate.splits)
next
  case P_Stop
  with ok show ?thesis by (simp add: pool_ok_def)
qed

lemma pool_ok_init: "m_fibers s = [] \<Longrightarrow> pool_ok (pool_init s W n)"
  by (simp add: pool_ok_def pool_init_def occ_inv_def has_fiber_def exec_inv_def)

text \<open>
  C1. A fiber runs on one thread at a time. In every interleaving of the workers in which
  code schedules a fiber only when nobody has it (it is not queued, taken, running, or still being
  left), no two workers ever have the same fiber, and no assertion of the loop, of
  \<^verbatim>\<open>swapIn\<close> or of \<^verbatim>\<open>reset\<close> can fail: every next step succeeds.
\<close>
theorem disciplined_pool_safe:
  assumes "pool_run disciplined (pool_init s W n) p" and "fresh_sched s" and "disciplined op p"
  shows "(\<exists>p'. pool_do op p = Inr p') \<and>
    (has_fiber (wk p) (cbf p) v f \<and> has_fiber (wk p) (cbf p) w f \<longrightarrow> v = w)"
proof -
  have "pool_ok (pool_init s W n)" using assms(2) by (simp add: fresh_sched_def pool_ok_init)
  then have "pool_ok p" by (rule pool_run_invariant [OF assms(1)]) (use pool_ok_step in fastforce)
  with pool_ok_step [OF this assms(3)] show ?thesis unfolding pool_ok_def occ_inv_def by blast
qed

theorem disciplined_pool_safe_witness:
  "\<exists>p p'. pool_exec [P_NewFiber, P_Schedule None (FiberPtr (Some 0)) (-1), P_Take 1] (pool_init demo_sched {1, 2} 0) = Inr p \<and>
     pool_do (P_Dispatch 1) p = Inr p'"
proof -
  let ?p0 = "pool_init demo_sched {1, 2} 0"
  obtain p1 where p1: "pool_do P_NewFiber ?p0 = Inr p1" by simp
  obtain p2 where p2: "pool_do (P_Schedule None (FiberPtr (Some 0)) (-1)) p1 = Inr p2" by simp
  obtain p3 where p3: "pool_do (P_Take 1) p2 = Inr p3"
    using p1 p2 by (auto simp: pool_init_def demo_sched_def opdefs Let_def)
  have d: "disciplined (P_Schedule None (FiberPtr (Some 0)) (-1)) p1"
    using p1 by (auto simp: owned_def has_fiber_def pool_init_def demo_sched_def set_fstate_def split: if_splits)
  have "pool_run disciplined ?p0 p1" by (rule pool_step [OF pool_start _ p1]) simp
  then have "pool_run disciplined ?p0 p2" using d p2 by (rule pool_step)
  then have "pool_run disciplined ?p0 p3" by (rule pool_step [OF _ _ p3]) simp
  moreover have "fresh_sched demo_sched" "disciplined (P_Dispatch 1) p3"
    by (simp_all add: fresh_sched_def demo_sched_def)
  ultimately obtain p' where "pool_do (P_Dispatch 1) p3 = Inr p'"
    using disciplined_pool_safe by blast
  moreover have "pool_exec [P_NewFiber, P_Schedule None (FiberPtr (Some 0)) (-1), P_Take 1] ?p0 = Inr p3"
    using p1 p2 p3 by simp
  ultimately show ?thesis by blast
qed
end
