(* ===== verification/IOManagers.thy ===== *)
theory IOManagers
  imports Schedulers
begin

unbundle bit_operations_syntax

text \<open>
  \<^verbatim>\<open>IOManager\<close> of \<^verbatim>\<open>vity/iomanager.h\<close>, \<^verbatim>\<open>vity/iomanager.cc\<close>: the table
  of file descriptor contexts with the events registered in each, the operations that add, delete,
  cancel and trigger events, the wake-up pipe, and one turn of the idle loop over what
  \<^verbatim>\<open>epoll_wait\<close> returns. The results of \<^verbatim>\<open>epoll_ctl\<close> and \<^verbatim>\<open>write\<close> are arguments; the
  kernel's interest list is kept beside the table and changes exactly when a call succeeds.
  Each operation is cut where the source releases \<^verbatim>\<open>m_mutex\<close>: the search for the context,
  the growth of the table, and the rest, which runs under the context's own mutex.
\<close>

section \<open>Events and contexts\<close>

text \<open>
  \<^verbatim>\<open>Event\<close> is an unscoped enumeration whose values are combined bitwise and cast back; its
  bits are those of \<^verbatim>\<open>EPOLLIN\<close> and \<^verbatim>\<open>EPOLLOUT\<close>.
\<close>

type_synonym event = "32 word"

definition NONE :: event where "NONE = 0"
definition READ :: event where "READ = 1"
definition WRITE :: event where "WRITE = 4"

definition EPOLLIN :: "32 word" where "EPOLLIN = 1"
definition EPOLLOUT :: "32 word" where "EPOLLOUT = 4"
definition EPOLLERR :: "32 word" where "EPOLLERR = 8"
definition EPOLLHUP :: "32 word" where "EPOLLHUP = 16"
definition EPOLLET :: "32 word" where "EPOLLET = 0x80000000"

lemmas event_defs = NONE_def READ_def WRITE_def EPOLLIN_def EPOLLOUT_def EPOLLERR_def EPOLLHUP_def

record 'cb event_context =
  ec_scheduler :: "nat option"
  ec_fiber :: "nat option"
  ec_cb :: "'cb option"

record 'cb fd_context =
  fc_fd :: int
  fc_read :: "'cb event_context"
  fc_write :: "'cb event_context"
  fc_events :: event

definition EventContext_new :: "'cb event_context" where
  "EventContext_new = \<lparr>ec_scheduler = None, ec_fiber = None, ec_cb = None\<rparr>"

definition FdContext_new :: "int \<Rightarrow> 'cb fd_context" where
  "FdContext_new i = \<lparr>fc_fd = i, fc_read = EventContext_new, fc_write = EventContext_new, fc_events = NONE\<rparr>"

definition getContext :: "event \<Rightarrow> 'cb fd_context \<Rightarrow> 'cb event_context res" where
  "getContext event c =
    (if event = READ then Inr (fc_read c)
     else if event = WRITE then Inr (fc_write c)
     else Inl (Assertion ''getContext''))"

text \<open>Writing through the reference \<^verbatim>\<open>getContext\<close> returned.\<close>

definition putContext :: "event \<Rightarrow> 'cb event_context \<Rightarrow> 'cb fd_context \<Rightarrow> 'cb fd_context" where
  "putContext event x c = (if event = READ then c\<lparr>fc_read := x\<rparr> else c\<lparr>fc_write := x\<rparr>)"

definition resetContext :: "'cb event_context \<Rightarrow> 'cb event_context" where
  "resetContext ctx = ctx\<lparr>ec_scheduler := None, ec_fiber := None, ec_cb := None\<rparr>"

section \<open>The manager\<close>

text \<open>
  What the kernel hands back with an event: a descriptor (the pipe) or a context's address.
\<close>

datatype epoll_data = Data_fd int | Data_ptr nat

datatype ctl_op = CTL_ADD | CTL_MOD | CTL_DEL

text \<open>
  \<open>ctxs\<close> are the contexts allocated so far, by address; \<open>m_fdContexts\<close> the vector of
  addresses. \<open>scheds\<close> are the schedulers by address (the manager itself is the one at
  \<open>self\<close>); \<open>pipes\<close> is, for those that are IO managers, the number of bytes waiting in the
  wake-up pipe. \<open>interest\<close> is the kernel's interest list.
\<close>

record 'cb iomanager =
  m_epfd :: int
  m_tickleFds :: "int \<times> int"
  m_pendingEventCount :: int
  m_fdContexts :: "nat list"
  ctxs :: "'cb fd_context list"
  interest :: "int \<rightharpoonup> 32 word \<times> epoll_data"
  scheds :: "nat \<rightharpoonup> 'cb scheduler"
  pipes :: "nat \<rightharpoonup> nat"
  self :: nat

definition epoll_ctl ::
  "int \<Rightarrow> ctl_op \<Rightarrow> int \<Rightarrow> 32 word \<Rightarrow> epoll_data \<Rightarrow> 'cb iomanager \<Rightarrow> 'cb iomanager"
where
  "epoll_ctl rt op fd evs data m =
    (if rt \<noteq> 0 then m
     else m\<lparr>interest := (interest m)(fd := (if op = CTL_DEL then None else Some (evs, data)))\<rparr>)"

text \<open>
  The two overrides of \<^verbatim>\<open>tickle\<close>: the base class only logs (counted in \<open>tickles\<close>); the
  IO manager writes a byte to its pipe, \<open>wr\<close> being what \<^verbatim>\<open>write\<close> returns.
\<close>

definition tickle_at :: "int \<Rightarrow> nat \<Rightarrow> 'cb scheduler \<Rightarrow> 'cb iomanager \<Rightarrow> 'cb iomanager res" where
  "tickle_at wr a s m =
    (case pipes m a of
       None \<Rightarrow> Inr (m\<lparr>scheds := (scheds m)(a \<mapsto> tickle s)\<rparr>)
     | Some n \<Rightarrow>
         if hasIdleThreads s then Inr m
         else if wr \<noteq> 1 then Inl (Assertion ''rt == 1'')
         else Inr (m\<lparr>pipes := (pipes m)(a \<mapsto> Suc n)\<rparr>))"

text \<open>\<^verbatim>\<open>p->schedule(x)\<close> for a scheduler pointer \<open>p\<close>.\<close>

definition schedule_at :: "int \<Rightarrow> nat option \<Rightarrow> 'cb fiber_or_cb \<Rightarrow> 'cb iomanager \<Rightarrow> 'cb iomanager res" where
  "schedule_at wr p fc m =
    (case p of
       None \<Rightarrow> Inl (Undefined ''null scheduler'')
     | Some a \<Rightarrow>
         (case scheds m a of
            None \<Rightarrow> Inl (Undefined ''dangling scheduler'')
          | Some s \<Rightarrow>
              (case scheduleNoLock fc (-1) s of
                 (need_tickle, s') \<Rightarrow>
                   let m' = m\<lparr>scheds := (scheds m)(a \<mapsto> s')\<rparr> in
                   if need_tickle then tickle_at wr a s' m' else Inr m')))"

definition put_ctx :: "nat \<Rightarrow> 'cb fd_context \<Rightarrow> 'cb iomanager \<Rightarrow> 'cb iomanager" where
  "put_ctx a c m = m\<lparr>ctxs := (ctxs m)[a := c]\<rparr>"

definition add_pending :: "int \<Rightarrow> 'cb iomanager \<Rightarrow> 'cb iomanager" where
  "add_pending d m = m\<lparr>m_pendingEventCount := m_pendingEventCount m + d\<rparr>"

definition triggerEvent :: "int \<Rightarrow> event \<Rightarrow> nat \<Rightarrow> 'cb iomanager \<Rightarrow> 'cb iomanager res" where
  "triggerEvent wr event a m =
    (let c = ctxs m ! a in
     if fc_events c AND event = 0 then Inl (Assertion ''events & event'')
     else
       (let c1 = c\<lparr>fc_events := fc_events c AND NOT event\<rparr> in
        bindR (getContext event c1) (\<lambda>ctx.
          case ec_cb ctx of
            Some f \<Rightarrow>
              bindR (schedule_at wr (ec_scheduler ctx) (CallbackRef (Some f)) m) (\<lambda>m1.
                Inr (put_ctx a (putContext event (ctx\<lparr>ec_cb := None, ec_scheduler := None\<rparr>) c1) m1))
          | None \<Rightarrow>
              bindR (schedule_at wr (ec_scheduler ctx) (FiberPtrRef (ec_fiber ctx)) m) (\<lambda>m1.
                Inr (put_ctx a (putContext event (ctx\<lparr>ec_fiber := None, ec_scheduler := None\<rparr>) c1) m1)))))"

text \<open>
  \<^verbatim>\<open>contextResize\<close>: \<^verbatim>\<open>resize\<close> cuts the vector or extends it by null pointers, which the
  loop replaces by new contexts.
\<close>

definition contextResize :: "nat \<Rightarrow> 'cb iomanager \<Rightarrow> 'cb iomanager" where
  "contextResize size' m =
    (let old = take size' (m_fdContexts m); k = length old in
     m\<lparr>m_fdContexts := old @ map (\<lambda>i. length (ctxs m) + (i - k)) [k..<size'],
       ctxs := ctxs m @ map (\<lambda>i. FdContext_new (int i)) [k..<size']\<rparr>)"

section \<open>Adding, deleting and cancelling events\<close>

text \<open>
  The search under the read lock: \<open>None\<close> if the vector is too short. A negative descriptor
  passes the comparison of signed sizes and indexes far out of range.
\<close>

definition find_context :: "int \<Rightarrow> 'cb iomanager \<Rightarrow> nat option res" where
  "find_context fd m =
    (if int (length (m_fdContexts m)) > fd then
       (if fd < 0 then Inl (Undefined ''m_fdContexts[fd]'') else Inr (Some (m_fdContexts m ! nat fd)))
     else Inr None)"

text \<open>The growth under the write lock: \<^verbatim>\<open>fd * 1.5\<close>, truncated.\<close>

definition addEvent_grow :: "int \<Rightarrow> 'cb iomanager \<Rightarrow> (nat \<times> 'cb iomanager) res" where
  "addEvent_grow fd m =
    (let m1 = contextResize (nat (fd * 3 div 2)) m in
     if nat fd < length (m_fdContexts m1) then Inr (m_fdContexts m1 ! nat fd, m1)
     else Inl (Undefined ''m_fdContexts[fd]''))"

text \<open>
  The rest, under the context's mutex. \<open>cur\<close> is \<^verbatim>\<open>Scheduler::GetThis()\<close>, \<open>this\<close> the
  fiber \<^verbatim>\<open>Fiber::GetThis()\<close> returns and its state, \<open>rt\<close> the result of \<^verbatim>\<open>epoll_ctl\<close>.
\<close>

definition addEvent_locked ::
  "int \<Rightarrow> nat option \<Rightarrow> nat \<times> State \<Rightarrow> int \<Rightarrow> event \<Rightarrow> 'cb option \<Rightarrow> nat \<Rightarrow> 'cb iomanager \<Rightarrow>
   (int \<times> 'cb iomanager) res"
where
  "addEvent_locked rt cur this fd event cb a m =
    (let c = ctxs m ! a in
     if fc_events c AND event \<noteq> 0 then Inl (Assertion ''!(fd_ctx->events & event)'')
     else
       (let op = (if fc_events c \<noteq> 0 then CTL_MOD else CTL_ADD);
            m1 = epoll_ctl rt op fd (EPOLLET OR fc_events c OR event) (Data_ptr a) m in
        if rt \<noteq> 0 then Inr (-1, m1)
        else
          (let m2 = add_pending 1 m1;
               c2 = c\<lparr>fc_events := fc_events c OR event\<rparr> in
           bindR (getContext event c2) (\<lambda>ctx.
             if ec_scheduler ctx \<noteq> None \<or> ec_fiber ctx \<noteq> None \<or> ec_cb ctx \<noteq> None
             then Inl (Assertion ''!event_ctx.scheduler && !event_ctx.fiber && !event_ctx.cb'')
             else
               (case cb of
                  Some f \<Rightarrow>
                    Inr (0, put_ctx a (putContext event (ctx\<lparr>ec_scheduler := cur, ec_cb := Some f\<rparr>) c2) m2)
                | None \<Rightarrow>
                    if snd this \<noteq> EXEC then Inl (Assertion ''event_ctx.fiber->getState() == Fiber::EXEC'')
                    else Inr (0, put_ctx a
                      (putContext event (ctx\<lparr>ec_scheduler := cur, ec_fiber := Some (fst this)\<rparr>) c2) m2))))))"

definition addEvent ::
  "int \<Rightarrow> nat option \<Rightarrow> nat \<times> State \<Rightarrow> int \<Rightarrow> event \<Rightarrow> 'cb option \<Rightarrow> 'cb iomanager \<Rightarrow>
   (int \<times> 'cb iomanager) res"
where
  "addEvent rt cur this fd event cb m =
    bindR (find_context fd m) (\<lambda>found.
      case found of
        Some a \<Rightarrow> addEvent_locked rt cur this fd event cb a m
      | None \<Rightarrow> bindR (addEvent_grow fd m) (\<lambda>(a, m1). addEvent_locked rt cur this fd event cb a m1))"

definition delEvent_locked :: "int \<Rightarrow> int \<Rightarrow> event \<Rightarrow> nat \<Rightarrow> 'cb iomanager \<Rightarrow> (bool \<times> 'cb iomanager) res" where
  "delEvent_locked rt fd event a m =
    (let c = ctxs m ! a in
     if fc_events c AND event = 0 then Inr (False, m)
     else
       (let new_events = fc_events c AND NOT event;
            op = (if new_events \<noteq> 0 then CTL_MOD else CTL_DEL);
            m1 = epoll_ctl rt op fd (EPOLLET OR new_events) (Data_ptr a) m in
        if rt \<noteq> 0 then Inr (False, m1)
        else
          (let c1 = c\<lparr>fc_events := new_events\<rparr> in
           bindR (getContext event c1) (\<lambda>ctx.
             Inr (True, put_ctx a (putContext event (resetContext ctx) c1) (add_pending (-1) m1))))))"

definition delEvent :: "int \<Rightarrow> int \<Rightarrow> event \<Rightarrow> 'cb iomanager \<Rightarrow> (bool \<times> 'cb iomanager) res" where
  "delEvent rt fd event m =
    bindR (find_context fd m) (\<lambda>found.
      case found of None \<Rightarrow> Inr (False, m) | Some a \<Rightarrow> delEvent_locked rt fd event a m)"

definition cancelEvent_locked ::
  "int \<Rightarrow> int \<Rightarrow> int \<Rightarrow> event \<Rightarrow> nat \<Rightarrow> 'cb iomanager \<Rightarrow> (bool \<times> 'cb iomanager) res"
where
  "cancelEvent_locked wr rt fd event a m =
    (let c = ctxs m ! a in
     if fc_events c AND event = 0 then Inr (False, m)
     else
       (let new_events = fc_events c AND NOT event;
            op = (if new_events \<noteq> 0 then CTL_MOD else CTL_DEL);
            m1 = epoll_ctl rt op fd (EPOLLET OR new_events) (Data_ptr a) m in
        if rt \<noteq> 0 then Inr (False, m1)
        else bindR (triggerEvent wr event a m1) (\<lambda>m2. Inr (True, add_pending (-1) m2))))"

definition cancelEvent :: "int \<Rightarrow> int \<Rightarrow> int \<Rightarrow> event \<Rightarrow> 'cb iomanager \<Rightarrow> (bool \<times> 'cb iomanager) res" where
  "cancelEvent wr rt fd event m =
    bindR (find_context fd m) (\<lambda>found.
      case found of None \<Rightarrow> Inr (False, m) | Some a \<Rightarrow> cancelEvent_locked wr rt fd event a m)"

text \<open>One of the two blocks of \<^verbatim>\<open>cancelAll\<close> and of the idle loop.\<close>

definition trigger_if :: "int \<Rightarrow> bool \<Rightarrow> event \<Rightarrow> nat \<Rightarrow> 'cb iomanager \<Rightarrow> 'cb iomanager res" where
  "trigger_if wr cond event a m =
    (if cond then bindR (triggerEvent wr event a m) (\<lambda>m1. Inr (add_pending (-1) m1)) else Inr m)"

definition cancelAll_locked :: "int \<Rightarrow> int \<Rightarrow> int \<Rightarrow> nat \<Rightarrow> 'cb iomanager \<Rightarrow> (bool \<times> 'cb iomanager) res" where
  "cancelAll_locked wr rt fd a m =
    (if fc_events (ctxs m ! a) = 0 then Inr (False, m)
     else
       (let m1 = epoll_ctl rt CTL_DEL fd 0 (Data_ptr a) m in
        if rt \<noteq> 0 then Inr (False, m1)
        else
          bindR (trigger_if wr (fc_events (ctxs m1 ! a) AND READ \<noteq> 0) READ a m1) (\<lambda>m2.
          bindR (trigger_if wr (fc_events (ctxs m2 ! a) AND WRITE \<noteq> 0) WRITE a m2) (\<lambda>m3.
          if fc_events (ctxs m3 ! a) = 0 then Inr (True, m3)
          else Inl (Assertion ''fd_ctx->events == 0'')))))"

definition cancelAll :: "int \<Rightarrow> int \<Rightarrow> int \<Rightarrow> 'cb iomanager \<Rightarrow> (bool \<times> 'cb iomanager) res" where
  "cancelAll wr rt fd m =
    bindR (find_context fd m) (\<lambda>found.
      case found of None \<Rightarrow> Inr (False, m) | Some a \<Rightarrow> cancelAll_locked wr rt fd a m)"


section \<open>The idle loop\<close>

text \<open>
  \<^verbatim>\<open>stopping\<close> looks twice: at the atomic counter, in state \<open>m\<close>, and then, if it was zero, at the
  scheduler under its lock, in state \<open>m'\<close>. Other threads can act in between.
\<close>

definition IOManager_stopping :: "'cb iomanager \<Rightarrow> 'cb iomanager \<Rightarrow> bool" where
  "IOManager_stopping m m' \<longleftrightarrow> m_pendingEventCount m = 0 \<and>
     (case scheds m' (self m') of Some s \<Rightarrow> stopping s | None \<Rightarrow> False)"

text \<open>
  What the loop does with one event of the kernel: an error or a hang-up counts as readable and
  writable; what is left of the registered events is given back to the kernel; then both
  conditions are triggered in turn.
\<close>

definition real_events :: "32 word \<Rightarrow> event" where
  "real_events evs =
    (let evs' = (if evs AND (EPOLLERR OR EPOLLHUP) \<noteq> 0 then evs OR EPOLLIN OR EPOLLOUT else evs) in
     (if evs' AND EPOLLIN \<noteq> 0 then READ else NONE) OR (if evs' AND EPOLLOUT \<noteq> 0 then WRITE else NONE))"

definition idle_event :: "int \<Rightarrow> int \<Rightarrow> 32 word \<Rightarrow> nat \<Rightarrow> 'cb iomanager \<Rightarrow> 'cb iomanager res" where
  "idle_event wr rt evs a m =
    (let c = ctxs m ! a; re = real_events evs in
     if fc_events c AND re = NONE then Inr m
     else
       (let left_events = fc_events c AND NOT re;
            op = (if left_events \<noteq> 0 then CTL_MOD else CTL_DEL);
            m1 = epoll_ctl rt op (fc_fd c) (EPOLLET OR left_events) (Data_ptr a) m in
        if rt \<noteq> 0 then Inr m1
        else bindR (trigger_if wr (re AND READ \<noteq> 0) READ a m1) (trigger_if wr (re AND WRITE \<noteq> 0) WRITE a)))"

text \<open>An entry of the array \<^verbatim>\<open>epoll_wait\<close> fills; the pipe is read until it is empty.\<close>

fun idle_item :: "int \<Rightarrow> epoll_data \<times> 32 word \<times> int \<Rightarrow> 'cb iomanager \<Rightarrow> 'cb iomanager res" where
  "idle_item wr (Data_fd fd, evs, rt) m =
     (if fd = fst (m_tickleFds m) then Inr (m\<lparr>pipes := (pipes m)(self m \<mapsto> 0)\<rparr>)
      else Inl (Undefined ''event.data.ptr''))"
| "idle_item wr (Data_ptr a, evs, rt) m = idle_event wr rt evs a m"

text \<open>
  One turn of the loop, up to the next \<^verbatim>\<open>swapOut\<close>, with the events \<^verbatim>\<open>epoll_wait\<close>
  returned, when no other thread acts; the flag tells that the loop has been left.
\<close>

definition IOManager_idle ::
  "int \<Rightarrow> (epoll_data \<times> 32 word \<times> int) list \<Rightarrow> 'cb iomanager \<Rightarrow> (bool \<times> 'cb iomanager) res"
where
  "IOManager_idle wr items m =
    (if IOManager_stopping m m then Inr (True, m)
     else bindR (foldR (idle_item wr) items m) (\<lambda>m'. Inr (False, m')))"

section \<open>Construction and destruction\<close>

text \<open>
  \<open>addr\<close> is where the object is built among the schedulers \<open>others\<close>; \<open>epfd\<close>,
  \<open>fds\<close> and the three results are what the kernel returns.
\<close>

definition IOManager_new ::
  "nat \<Rightarrow> (nat \<rightharpoonup> 'cb scheduler) \<Rightarrow> (nat \<rightharpoonup> nat) \<Rightarrow> int \<Rightarrow> int \<times> int \<Rightarrow> int \<Rightarrow> int \<Rightarrow> int \<Rightarrow>
   nat \<Rightarrow> bool \<Rightarrow> string \<Rightarrow> bool \<Rightarrow> nat \<Rightarrow> int \<Rightarrow> (nat \<Rightarrow> int) \<Rightarrow> 'cb iomanager res"
where
  "IOManager_new addr others other_pipes epfd fds pipe_rt fcntl_rt ctl_rt threads use_caller name cur root tid tids =
    bindR (Scheduler_new threads use_caller name cur root tid) (\<lambda>s.
     if epfd \<le> 0 then Inl (Assertion ''m_epfd > 0'')
     else if pipe_rt \<noteq> 0 then Inl (Assertion ''!rt'')
     else if fcntl_rt \<noteq> 0 then Inl (Assertion ''!rt'')
     else if ctl_rt \<noteq> 0 then Inl (Assertion ''!rt'')
     else
       (let m = \<lparr>m_epfd = epfd, m_tickleFds = fds, m_pendingEventCount = 0, m_fdContexts = [], ctxs = [],
                 interest = (\<lambda>_. None), scheds = others(addr \<mapsto> s), pipes = other_pipes(addr \<mapsto> 0), self = addr\<rparr>;
            m1 = contextResize 32 (epoll_ctl ctl_rt CTL_ADD (fst fds) (EPOLLIN OR EPOLLET) (Data_fd (fst fds)) m)
        in bindR (Scheduler_start tids s) (\<lambda>s'. Inr (m1\<lparr>scheds := (scheds m1)(addr \<mapsto> s')\<rparr>))))"

text \<open>
  The destructor, after \<^verbatim>\<open>stop\<close> has left the scheduler in state \<open>s\<close>: the contexts in the
  vector are deleted; the result are the addresses of those that stay allocated for ever.
\<close>

definition IOManager_delete :: "'cb scheduler \<Rightarrow> 'cb iomanager \<Rightarrow> nat list res" where
  "IOManager_delete s m =
    bindR (Scheduler_delete s) (\<lambda>_. Inr (filter (\<lambda>a. a \<notin> set (m_fdContexts m)) [0..<length (ctxs m)]))"

definition IOManager_getThis :: "nat option \<Rightarrow> 'cb iomanager \<Rightarrow> nat option" where
  "IOManager_getThis cur m =
    (case cur of None \<Rightarrow> None | Some a \<Rightarrow> (case pipes m a of Some n \<Rightarrow> Some a | None \<Rightarrow> None))"

section \<open>The event table\<close>

text \<open>
  A slot of a context is live exactly if its event is registered: then it names a scheduler and
  either a callback or a fiber, otherwise it is empty.
\<close>

definition slot_ok :: "nat set \<Rightarrow> bool \<Rightarrow> 'cb event_context \<Rightarrow> bool" where
  "slot_ok S live x \<longleftrightarrow>
    (if live then (\<exists>s \<in> S. ec_scheduler x = Some s) \<and> (ec_cb x = None) \<noteq> (ec_fiber x = None)
     else x = EventContext_new)"

definition ctx_ok :: "nat set \<Rightarrow> 'cb fd_context \<Rightarrow> bool" where
  "ctx_ok S c \<longleftrightarrow> fc_events c \<in> {0, 1, 4, 5} \<and>
     slot_ok S (fc_events c AND READ \<noteq> 0) (fc_read c) \<and> slot_ok S (fc_events c AND WRITE \<noteq> 0) (fc_write c)"

definition live_count :: "'cb fd_context \<Rightarrow> int" where
  "live_count c = (if fc_events c AND READ \<noteq> 0 then 1 else 0) + (if fc_events c AND WRITE \<noteq> 0 then 1 else 0)"

text \<open>What the kernel is told about a context.\<close>

definition mirrored :: "nat \<Rightarrow> 'cb fd_context \<Rightarrow> (int \<rightharpoonup> 32 word \<times> epoll_data) \<Rightarrow> bool" where
  "mirrored a c i \<longleftrightarrow>
    i (fc_fd c) = (if fc_events c = 0 then None else Some (EPOLLET OR fc_events c, Data_ptr a))"

definition table_ok :: "'cb iomanager \<Rightarrow> bool" where
  "table_ok m \<longleftrightarrow> 32 \<le> length (m_fdContexts m) \<and>
     (\<forall>i < length (m_fdContexts m). m_fdContexts m ! i < length (ctxs m) \<and> fc_fd (ctxs m ! (m_fdContexts m ! i)) = int i)"

definition kernel_ok :: "'cb iomanager \<Rightarrow> bool" where
  "kernel_ok m \<longleftrightarrow>
     (\<forall>i < length (m_fdContexts m). int i \<noteq> fst (m_tickleFds m) \<longrightarrow>
        mirrored (m_fdContexts m ! i) (ctxs m ! (m_fdContexts m ! i)) (interest m)) \<and>
     (\<forall>fd. int (length (m_fdContexts m)) \<le> fd \<longrightarrow> fd \<noteq> fst (m_tickleFds m) \<longrightarrow> interest m fd = None)"

definition io_inv :: "'cb iomanager \<Rightarrow> bool" where
  "io_inv m \<longleftrightarrow> (\<forall>c \<in> set (ctxs m). ctx_ok (dom (scheds m)) c) \<and>
     m_pendingEventCount m = sum_list (map live_count (ctxs m)) \<and> table_ok m \<and> kernel_ok m"


section \<open>Scheduling from the table\<close>

definition queue_at :: "'cb iomanager \<Rightarrow> nat \<Rightarrow> 'cb task list" where
  "queue_at m a = (case scheds m a of Some s \<Rightarrow> m_fibers s | None \<Rightarrow> [])"

text \<open>What stays the same when a scheduler is called.\<close>

definition table_frame :: "'cb iomanager \<Rightarrow> 'cb iomanager \<Rightarrow> bool" where
  "table_frame m m' \<longleftrightarrow> m_fdContexts m' = m_fdContexts m \<and> m_tickleFds m' = m_tickleFds m \<and>
     self m' = self m \<and> dom (scheds m') = dom (scheds m)"

lemma table_frame_refl [simp]: "table_frame m m"
  by (simp add: table_frame_def)

lemma table_frame_trans: "table_frame m m1 \<Longrightarrow> table_frame m1 m2 \<Longrightarrow> table_frame m m2"
  by (simp add: table_frame_def)

lemma table_frame_simps [simp]:
  "table_frame m (epoll_ctl rt op fd evs data m1) = table_frame m m1"
  "table_frame m (put_ctx a c m1) = table_frame m m1"
  "table_frame m (add_pending d m1) = table_frame m m1"
  by (simp_all add: table_frame_def epoll_ctl_def put_ctx_def add_pending_def)

lemma ctxs_simps [simp]:
  "ctxs (epoll_ctl rt op fd evs data m) = ctxs m" "scheds (epoll_ctl rt op fd evs data m) = scheds m"
  "m_pendingEventCount (epoll_ctl rt op fd evs data m) = m_pendingEventCount m"
  "ctxs (put_ctx a c m) = (ctxs m)[a := c]" "scheds (put_ctx a c m) = scheds m" "interest (put_ctx a c m) = interest m"
  "m_pendingEventCount (put_ctx a c m) = m_pendingEventCount m"
  "ctxs (add_pending d m) = ctxs m" "scheds (add_pending d m) = scheds m" "interest (add_pending d m) = interest m"
  "m_pendingEventCount (add_pending d m) = m_pendingEventCount m + d"
  by (simp_all add: epoll_ctl_def put_ctx_def add_pending_def)

lemma queue_at_simps [simp]:
  "queue_at (epoll_ctl rt op fd evs data m) = queue_at m" "queue_at (put_ctx a c m) = queue_at m"
  "queue_at (add_pending d m) = queue_at m"
  by (simp_all add: fun_eq_iff queue_at_def)

lemma schedule_at_frame:
  "schedule_at wr p fc m = Inr m' \<Longrightarrow> table_frame m m' \<and> ctxs m' = ctxs m \<and> interest m' = interest m \<and>
     m_pendingEventCount m' = m_pendingEventCount m"
  by (auto simp: schedule_at_def tickle_at_def scheduleNoLock_def table_frame_def Let_def
      split: option.splits if_splits)

lemma schedule_at_queue:
  "schedule_at wr (Some a) fc m = Inr m' \<Longrightarrow>
     queue_at m' = (queue_at m)(a := queue_at m a @ (if nonempty_task (FiberAndThread_new fc (-1)) then [FiberAndThread_new fc (-1)] else []))"
  by (auto simp: schedule_at_def tickle_at_def scheduleNoLock_def queue_at_def nonempty_task_def tickle_def fun_eq_iff Let_def
      split: option.splits if_splits)

lemma schedule_at_total:
  "a \<in> dom (scheds m) \<Longrightarrow> wr = 1 \<Longrightarrow> \<exists>m'. schedule_at wr (Some a) fc m = Inr m'"
  by (auto simp: schedule_at_def tickle_at_def Let_def split: option.splits prod.splits)

section \<open>Triggering\<close>

definition slot :: "event \<Rightarrow> 'cb fd_context \<Rightarrow> 'cb event_context" where
  "slot event c = (if event = READ then fc_read c else fc_write c)"

text \<open>The task a live slot stands for.\<close>

definition slot_task :: "'cb event_context \<Rightarrow> 'cb task" where
  "slot_task x = \<lparr>ft_fiber = (if ec_cb x = None then ec_fiber x else None), ft_cb = ec_cb x, ft_thread = -1\<rparr>"

lemma rw_distinct [simp]: "READ \<noteq> WRITE" "WRITE \<noteq> READ"
  by (simp_all add: event_defs)

lemma getContext_slot: "ev = READ \<or> ev = WRITE \<Longrightarrow> getContext ev c = Inr (slot ev c)"
  by (auto simp: getContext_def slot_def)

text \<open>Registering or clearing one event, with a slot to match.\<close>

lemma ctx_ok_set:
  assumes ok: "ctx_ok S c" and ev: "ev = READ \<or> ev = WRITE" and x: "slot_ok S True x"
  shows "ctx_ok S (putContext ev x (c\<lparr>fc_events := fc_events c OR ev\<rparr>))"
    "fc_events c AND ev = 0 \<Longrightarrow>
      live_count (putContext ev x (c\<lparr>fc_events := fc_events c OR ev\<rparr>)) = live_count c + 1"
proof -
  have "fc_events c = 0 \<or> fc_events c = 1 \<or> fc_events c = 4 \<or> fc_events c = 5"
    using ok by (auto simp: ctx_ok_def)
  then show "ctx_ok S (putContext ev x (c\<lparr>fc_events := fc_events c OR ev\<rparr>))"
    "fc_events c AND ev = 0 \<Longrightarrow>
      live_count (putContext ev x (c\<lparr>fc_events := fc_events c OR ev\<rparr>)) = live_count c + 1"
    using ok ev x by (elim disjE; simp add: ctx_ok_def putContext_def live_count_def event_defs)+
qed

lemma ctx_ok_clear:
  assumes ok: "ctx_ok S c" and ev: "ev = READ \<or> ev = WRITE"
  shows "ctx_ok S (putContext ev EventContext_new (c\<lparr>fc_events := fc_events c AND NOT ev\<rparr>))"
    "fc_events c AND ev \<noteq> 0 \<Longrightarrow>
      live_count (putContext ev x (c\<lparr>fc_events := fc_events c AND NOT ev\<rparr>)) = live_count c - 1"
proof -
  have "fc_events c = 0 \<or> fc_events c = 1 \<or> fc_events c = 4 \<or> fc_events c = 5"
    using ok by (auto simp: ctx_ok_def)
  then show "ctx_ok S (putContext ev EventContext_new (c\<lparr>fc_events := fc_events c AND NOT ev\<rparr>))"
    "fc_events c AND ev \<noteq> 0 \<Longrightarrow>
      live_count (putContext ev x (c\<lparr>fc_events := fc_events c AND NOT ev\<rparr>)) = live_count c - 1"
    using ok ev by (elim disjE; simp add: ctx_ok_def putContext_def live_count_def event_defs slot_ok_def)+
qed

lemma putContext_simps [simp]:
  "fc_events (putContext ev x c) = fc_events c" "fc_fd (putContext ev x c) = fc_fd c"
  by (simp_all add: putContext_def)

text \<open>A live event is triggered: its task is queued, its slot emptied, its bit cleared.\<close>

definition cleared :: "event \<Rightarrow> 'cb fd_context \<Rightarrow> 'cb fd_context" where
  "cleared ev c = putContext ev EventContext_new (c\<lparr>fc_events := fc_events c AND NOT ev\<rparr>)"

lemma triggerEvent_result:
  assumes ev: "ev = READ \<or> ev = WRITE" and ok: "ctx_ok (dom (scheds m)) (ctxs m ! a)"
    and live: "fc_events (ctxs m ! a) AND ev \<noteq> 0" and step: "triggerEvent wr ev a m = Inr m'"
  shows "table_frame m m' \<and> interest m' = interest m \<and> m_pendingEventCount m' = m_pendingEventCount m \<and>
    ctxs m' = (ctxs m)[a := cleared ev (ctxs m ! a)] \<and>
    (\<exists>s \<in> dom (scheds m). ec_scheduler (slot ev (ctxs m ! a)) = Some s \<and>
      queue_at m' = (queue_at m)(s := queue_at m s @ [slot_task (slot ev (ctxs m ! a))]))"
proof -
  let ?c = "ctxs m ! a" let ?x = "slot ev ?c"
  from ok live ev have x: "slot_ok (dom (scheds m)) True ?x" by (auto simp: ctx_ok_def slot_def)
  then obtain s where s: "s \<in> dom (scheds m)" "ec_scheduler ?x = Some s" by (auto simp: slot_ok_def)
  have sl: "slot ev (?c\<lparr>fc_events := e\<rparr>) = ?x" for e by (simp add: slot_def)
  show ?thesis
  proof (cases "ec_cb ?x")
    case None
    with x have fb: "ec_fiber ?x \<noteq> None" by (auto simp: slot_ok_def)
    from None s step live ev obtain m1 where m1: "schedule_at wr (Some s) (FiberPtrRef (ec_fiber ?x)) m = Inr m1"
      and m': "m' = put_ctx a (putContext ev (?x\<lparr>ec_fiber := None, ec_scheduler := None\<rparr>) (?c\<lparr>fc_events := fc_events ?c AND NOT ev\<rparr>)) m1"
      by (auto simp: triggerEvent_def getContext_slot sl Let_def)
    have "?x\<lparr>ec_fiber := None, ec_scheduler := None\<rparr> = EventContext_new"
      using None by (simp add: EventContext_new_def)
    with schedule_at_frame [OF m1] schedule_at_queue [OF m1] s fb None show ?thesis
      by (auto simp: m' cleared_def slot_task_def nonempty_task_def)
  next
    case (Some f)
    with x have fb: "ec_fiber ?x = None" by (auto simp: slot_ok_def)
    from Some s step live ev obtain m1 where m1: "schedule_at wr (Some s) (CallbackRef (Some f)) m = Inr m1"
      and m': "m' = put_ctx a (putContext ev (?x\<lparr>ec_cb := None, ec_scheduler := None\<rparr>) (?c\<lparr>fc_events := fc_events ?c AND NOT ev\<rparr>)) m1"
      by (auto simp: triggerEvent_def getContext_slot sl Let_def)
    have "?x\<lparr>ec_cb := None, ec_scheduler := None\<rparr> = EventContext_new"
      using fb by (simp add: EventContext_new_def)
    with schedule_at_frame [OF m1] schedule_at_queue [OF m1] s fb Some show ?thesis
      by (auto simp: m' cleared_def slot_task_def nonempty_task_def)
  qed
qed

lemma triggerEvent_total:
  assumes ev: "ev = READ \<or> ev = WRITE" and ok: "ctx_ok (dom (scheds m)) (ctxs m ! a)"
    and live: "fc_events (ctxs m ! a) AND ev \<noteq> 0"
  shows "\<exists>m'. triggerEvent 1 ev a m = Inr m'"
proof -
  let ?x = "slot ev (ctxs m ! a)"
  from ok live ev have "slot_ok (dom (scheds m)) True ?x" by (auto simp: ctx_ok_def slot_def)
  then obtain s where s: "s \<in> dom (scheds m)" "ec_scheduler ?x = Some s" by (auto simp: slot_ok_def)
  have sl: "slot ev ((ctxs m ! a)\<lparr>fc_events := e\<rparr>) = ?x" for e by (simp add: slot_def)
  show ?thesis
    using schedule_at_total [OF s(1), of 1 "CallbackRef (ec_cb ?x)"] schedule_at_total [OF s(1), of 1 "FiberPtrRef (ec_fiber ?x)"] live ev
    by (cases "ec_cb ?x") (auto simp: triggerEvent_def getContext_slot sl s(2) Let_def)
qed

lemma ctx_ok_cleared:
  assumes "ctx_ok S c" "ev = READ \<or> ev = WRITE"
  shows "ctx_ok S (cleared ev c)" "fc_events (cleared ev c) = fc_events c AND NOT ev" "fc_fd (cleared ev c) = fc_fd c"
    "fc_events c AND ev \<noteq> 0 \<Longrightarrow> live_count (cleared ev c) = live_count c - 1"
  using ctx_ok_clear [OF assms] by (simp_all add: cleared_def)


section \<open>The invariant of the table\<close>

lemma sum_list_upd: "a < length xs \<Longrightarrow> sum_list ((xs :: int list)[a := y]) = sum_list xs + y - xs ! a"
  by (induction xs arbitrary: a) (auto split: nat.splits)

lemma epoll_ctl_interest [simp]:
  "interest (epoll_ctl 0 op fd evs d m) = (interest m)(fd := (if op = CTL_DEL then None else Some (evs, d)))"
  by (simp add: epoll_ctl_def)

text \<open>A change of one context in the vector, with the kernel told about it.\<close>

lemma io_inv_update:
  assumes inv: "io_inv m" and i: "i < length (m_fdContexts m)" "m_fdContexts m ! i = a" "int i \<noteq> fst (m_tickleFds m)"
    and frame: "table_frame m m'" and new: "ctxs m' = (ctxs m)[a := c]"
    and c: "ctx_ok (dom (scheds m)) c" "fc_fd c = int i"
    and pend: "m_pendingEventCount m' = m_pendingEventCount m + live_count c - live_count (ctxs m ! a)"
    and kern: "interest m' = (interest m)(int i := (if fc_events c = 0 then None else Some (EPOLLET OR fc_events c, Data_ptr a)))"
  shows "io_inv m'"
proof -
  from inv have tab: "table_ok m" and ker: "kernel_ok m" and ok: "\<forall>c \<in> set (ctxs m). ctx_ok (dom (scheds m)) c"
    and sum: "m_pendingEventCount m = sum_list (map live_count (ctxs m))" by (simp_all add: io_inv_def)
  from tab i have a: "a < length (ctxs m)" by (auto simp: table_ok_def)
  have fr: "m_fdContexts m' = m_fdContexts m" "m_tickleFds m' = m_tickleFds m" "dom (scheds m') = dom (scheds m)"
    using frame by (simp_all add: table_frame_def)
  have other: "m_fdContexts m ! j \<noteq> a" if "j < length (m_fdContexts m)" "j \<noteq> i" for j
    using tab that i unfolding table_ok_def by (metis of_nat_eq_iff)
  have "\<forall>x \<in> set (ctxs m'). ctx_ok (dom (scheds m')) x"
    using ok c(1) by (auto simp: new fr dest!: set_update_subset_insert [THEN subsetD])
  moreover have "m_pendingEventCount m' = sum_list (map live_count (ctxs m'))"
    using a sum pend by (simp add: new map_update sum_list_upd)
  moreover have "table_ok m'"
    unfolding table_ok_def fr new
  proof (intro conjI allI impI)
    fix j assume j: "j < length (m_fdContexts m)"
    show "m_fdContexts m ! j < length ((ctxs m)[a := c])" using tab j by (simp add: table_ok_def)
    show "fc_fd ((ctxs m)[a := c] ! (m_fdContexts m ! j)) = int j"
      using tab a c(2) i j other [OF j] by (cases "j = i") (simp_all add: table_ok_def)
  qed (use tab in \<open>simp add: table_ok_def\<close>)
  moreover have "kernel_ok m'"
    unfolding kernel_ok_def fr
  proof (intro conjI allI impI)
    fix j assume j: "j < length (m_fdContexts m)" "int j \<noteq> fst (m_tickleFds m)"
    show "mirrored (m_fdContexts m ! j) (ctxs m' ! (m_fdContexts m ! j)) (interest m')"
    proof (cases "j = i")
      case True
      with i a c(2) show ?thesis by (simp add: mirrored_def new kern)
    next
      case False
      have "fc_fd (ctxs m ! (m_fdContexts m ! j)) = int j" using tab j by (simp add: table_ok_def)
      with ker j other [OF j(1) False] False show ?thesis by (auto simp: mirrored_def new kern kernel_ok_def)
    qed
  next
    fix fd assume "int (length (m_fdContexts m)) \<le> fd" "fd \<noteq> fst (m_tickleFds m)"
    with ker i show "interest m' fd = None" by (auto simp: kernel_ok_def kern)
  qed
  ultimately show ?thesis by (simp add: io_inv_def)
qed

lemma io_inv_ctx:
  assumes "io_inv m" "i < length (m_fdContexts m)"
  shows "ctx_ok (dom (scheds m)) (ctxs m ! (m_fdContexts m ! i))" "fc_fd (ctxs m ! (m_fdContexts m ! i)) = int i"
    "m_fdContexts m ! i < length (ctxs m)"
  using assms by (auto simp: io_inv_def table_ok_def)

text \<open>Calling a scheduler, draining the pipe and failing calls do not matter.\<close>

lemma io_inv_frame:
  assumes "io_inv m" "table_frame m m'" "ctxs m' = ctxs m" "interest m' = interest m"
    "m_pendingEventCount m' = m_pendingEventCount m"
  shows "io_inv m'"
  using assms by (simp add: io_inv_def table_frame_def table_ok_def kernel_ok_def)

text \<open>Growing the vector.\<close>

lemma contextResize_grow:
  assumes inv: "io_inv m" and n: "length (m_fdContexts m) \<le> n"
  shows "io_inv (contextResize n m)" "length (m_fdContexts (contextResize n m)) = n"
    "\<And>i. i < length (m_fdContexts m) \<Longrightarrow> m_fdContexts (contextResize n m) ! i = m_fdContexts m ! i"
    "\<And>i. length (m_fdContexts m) \<le> i \<Longrightarrow> i < n \<Longrightarrow>
      ctxs (contextResize n m) ! (m_fdContexts (contextResize n m) ! i) = FdContext_new (int i)"
proof -
  let ?k = "length (m_fdContexts m)" let ?m = "contextResize n m"
  have vec: "m_fdContexts ?m = m_fdContexts m @ map (\<lambda>i. length (ctxs m) + (i - ?k)) [?k..<n]"
    and cx: "ctxs ?m = ctxs m @ map (\<lambda>i. FdContext_new (int i)) [?k..<n]"
    using n by (simp_all add: contextResize_def Let_def)
  have rest: "scheds ?m = scheds m" "interest ?m = interest m" "m_tickleFds ?m = m_tickleFds m"
    "m_pendingEventCount ?m = m_pendingEventCount m" by (simp_all add: contextResize_def Let_def)
  show len: "length (m_fdContexts ?m) = n" using n by (simp add: vec)
  show old: "\<And>i. i < ?k \<Longrightarrow> m_fdContexts ?m ! i = m_fdContexts m ! i" by (simp add: vec nth_append)
  from inv have tab: "table_ok m" and ker: "kernel_ok m" by (simp_all add: io_inv_def)
  have ctx: "m_fdContexts ?m ! i < length (ctxs ?m) \<and>
      ctxs ?m ! (m_fdContexts ?m ! i) = (if i < ?k then ctxs m ! (m_fdContexts m ! i) else FdContext_new (int i))"
    if "i < n" for i
    using tab that by (auto simp: vec cx nth_append table_ok_def)
  then show "\<And>i. ?k \<le> i \<Longrightarrow> i < n \<Longrightarrow> ctxs ?m ! (m_fdContexts ?m ! i) = FdContext_new (int i)" by simp
  have "table_ok ?m"
    using tab n ctx by (auto simp: table_ok_def len FdContext_new_def)
  moreover have "kernel_ok ?m"
    unfolding kernel_ok_def len rest
  proof (intro conjI allI impI)
    fix i assume i: "i < n" "int i \<noteq> fst (m_tickleFds m)"
    show "mirrored (m_fdContexts ?m ! i) (ctxs ?m ! (m_fdContexts ?m ! i)) (interest m)"
      using ker i ctx [OF i(1)] old [of i]
      by (cases "i < ?k") (auto simp: kernel_ok_def mirrored_def FdContext_new_def NONE_def)
  next
    fix fd assume "int n \<le> fd" "fd \<noteq> fst (m_tickleFds m)"
    with ker n show "interest m fd = None" by (auto simp: kernel_ok_def)
  qed
  moreover have "sum_list (map live_count (map (\<lambda>i. FdContext_new (int i)) xs)) = 0" for xs
    by (induction xs) (simp_all add: live_count_def FdContext_new_def NONE_def)
  moreover have "ctx_ok S (FdContext_new i)" for S i
    by (simp add: ctx_ok_def slot_ok_def FdContext_new_def NONE_def)
  ultimately show "io_inv ?m" using inv unfolding io_inv_def cx rest by (auto simp: comp_def)
qed

section \<open>The operations keep the invariant\<close>

text \<open>The position of a descriptor's context, and that nobody but the manager uses the pipe's.\<close>

definition fd_at :: "'cb iomanager \<Rightarrow> int \<Rightarrow> nat \<Rightarrow> bool" where
  "fd_at m fd a \<longleftrightarrow> 0 \<le> fd \<and> fd < int (length (m_fdContexts m)) \<and> m_fdContexts m ! nat fd = a \<and> fd \<noteq> fst (m_tickleFds m)"

definition new_slot :: "nat \<Rightarrow> nat \<times> State \<Rightarrow> 'cb option \<Rightarrow> 'cb event_context" where
  "new_slot s this cb = \<lparr>ec_scheduler = Some s, ec_fiber = (if cb = None then Some (fst this) else None), ec_cb = cb\<rparr>"

definition registered :: "event \<Rightarrow> 'cb event_context \<Rightarrow> 'cb fd_context \<Rightarrow> 'cb fd_context" where
  "registered ev x c = putContext ev x (c\<lparr>fc_events := fc_events c OR ev\<rparr>)"

lemma addEvent_locked_result:
  assumes inv: "io_inv m" and at: "fd_at m fd a" and ev: "ev = READ \<or> ev = WRITE"
    and s: "s \<in> dom (scheds m)" and exec: "snd this = EXEC" and free: "fc_events (ctxs m ! a) AND ev = 0"
  shows "\<exists>m'. addEvent_locked 0 (Some s) this fd ev cb a m = Inr (0, m') \<and> io_inv m' \<and> table_frame m m' \<and>
    ctxs m' = (ctxs m)[a := registered ev (new_slot s this cb) (ctxs m ! a)] \<and> queue_at m' = queue_at m"
proof -
  let ?c = "ctxs m ! a"
  from at have i: "nat fd < length (m_fdContexts m)" "m_fdContexts m ! nat fd = a" "int (nat fd) = fd" "fd \<noteq> fst (m_tickleFds m)"
    by (auto simp: fd_at_def)
  note ctx = io_inv_ctx [OF inv i(1), unfolded i(2,3)]
  have x: "slot_ok (dom (scheds m)) True (new_slot s this cb)"
    using s by (cases cb) (auto simp: slot_ok_def new_slot_def)
  note reg = ctx_ok_set [OF ctx(1) ev x, folded registered_def]
  have empty: "slot ev (?c\<lparr>fc_events := e\<rparr>) = EventContext_new" for e
    using ctx(1) free ev by (auto simp: ctx_ok_def slot_ok_def slot_def split: if_splits)
  have ev0: "fc_events ?c OR ev \<noteq> 0" using ev by (auto simp: event_defs or_eq_0_iff)
  define m' where "m' = put_ctx a (registered ev (new_slot s this cb) ?c)
    (add_pending 1 (epoll_ctl 0 (if fc_events ?c \<noteq> 0 then CTL_MOD else CTL_ADD) fd (EPOLLET OR fc_events ?c OR ev) (Data_ptr a) m))"
  have run: "addEvent_locked 0 (Some s) this fd ev cb a m = Inr (0, m')"
    using free exec ev
    by (cases cb) (auto simp: addEvent_locked_def getContext_slot empty EventContext_new_def m'_def registered_def new_slot_def Let_def)
  have "io_inv m'"
    by (rule io_inv_update [OF inv i(1,2), where c = "registered ev (new_slot s this cb) ?c"])
      (use i ctx reg free ev0 in \<open>auto simp: m'_def registered_def or.assoc\<close>)
  moreover have "table_frame m m'" "ctxs m' = (ctxs m)[a := registered ev (new_slot s this cb) ?c]" "queue_at m' = queue_at m"
    by (simp_all add: m'_def)
  ultimately show ?thesis using run by blast
qed

lemma addEvent_locked_other:
  "fc_events (ctxs m ! a) AND ev \<noteq> 0 \<Longrightarrow>
     addEvent_locked rt cur this fd ev cb a m = Inl (Assertion ''!(fd_ctx->events & event)'')"
  "fc_events (ctxs m ! a) AND ev = 0 \<Longrightarrow> rt \<noteq> 0 \<Longrightarrow> addEvent_locked rt cur this fd ev cb a m = Inr (-1, m)"
  by (simp_all add: addEvent_locked_def epoll_ctl_def Let_def)

text \<open>Triggering and counting down: what happens to a context and to the queues.\<close>

definition fire :: "event \<Rightarrow> 'cb fd_context \<Rightarrow> (nat \<Rightarrow> 'cb task list) \<Rightarrow> nat \<Rightarrow> 'cb task list" where
  "fire ev c q =
    (if fc_events c AND ev \<noteq> 0 then
       (case ec_scheduler (slot ev c) of Some s \<Rightarrow> q(s := q s @ [slot_task (slot ev c)]) | None \<Rightarrow> q)
     else q)"

lemma trigger_if_result:
  assumes ev: "ev = READ \<or> ev = WRITE" and ok: "ctx_ok (dom (scheds m)) (ctxs m ! a)" and a: "a < length (ctxs m)"
    and live: "cond \<Longrightarrow> fc_events (ctxs m ! a) AND ev \<noteq> 0"
  shows "\<exists>m'. trigger_if 1 cond ev a m = Inr m' \<and> table_frame m m' \<and> interest m' = interest m \<and>
    ctxs m' = (ctxs m)[a := if cond then cleared ev (ctxs m ! a) else ctxs m ! a] \<and>
    m_pendingEventCount m' = m_pendingEventCount m - (if cond then 1 else 0) \<and>
    queue_at m' = (if cond then fire ev (ctxs m ! a) (queue_at m) else queue_at m)"
proof (cases cond)
  case True
  obtain m1 where m1: "triggerEvent 1 ev a m = Inr m1" using triggerEvent_total [OF ev ok live [OF True]] by blast
  from triggerEvent_result [OF ev ok live [OF True] m1] True m1 live [OF True] show ?thesis
    by (auto simp: trigger_if_def fire_def)
qed (simp add: trigger_if_def)

definition clear_both :: "bool \<Rightarrow> bool \<Rightarrow> 'cb fd_context \<Rightarrow> 'cb fd_context" where
  "clear_both r w c =
    (let c1 = (if r then cleared READ c else c) in if w then cleared WRITE c1 else c1)"

definition fire_both :: "bool \<Rightarrow> bool \<Rightarrow> 'cb fd_context \<Rightarrow> (nat \<Rightarrow> 'cb task list) \<Rightarrow> nat \<Rightarrow> 'cb task list" where
  "fire_both r w c q =
    (let q1 = (if r then fire READ c q else q) in if w then fire WRITE c q1 else q1)"

lemma cleared_other:
  assumes "ctx_ok S c"
  shows "(fc_events (cleared READ c) AND WRITE = 0) = (fc_events c AND WRITE = 0)"
    "slot WRITE (cleared READ c) = slot WRITE c"
proof -
  have "fc_events c = 0 \<or> fc_events c = 1 \<or> fc_events c = 4 \<or> fc_events c = 5"
    using assms by (auto simp: ctx_ok_def)
  then show "(fc_events (cleared READ c) AND WRITE = 0) = (fc_events c AND WRITE = 0)"
    by (elim disjE) (simp_all add: cleared_def event_defs)
qed (simp add: cleared_def slot_def putContext_def)

lemma clear_both_ok:
  assumes ok: "ctx_ok S c" and r: "r \<Longrightarrow> fc_events c AND READ \<noteq> 0" and w: "w \<Longrightarrow> fc_events c AND WRITE \<noteq> 0"
  shows "ctx_ok S (clear_both r w c)" "fc_fd (clear_both r w c) = fc_fd c"
    "fc_events (clear_both r w c) = fc_events c AND NOT ((if r then READ else NONE) OR (if w then WRITE else NONE))"
    "live_count (clear_both r w c) = live_count c - (if r then 1 else 0) - (if w then 1 else 0)"
proof -
  note R = ctx_ok_cleared [OF ok, of READ, simplified]
  note W = ctx_ok_cleared [of S _ WRITE, simplified]
  have c1: "ctx_ok S (if r then cleared READ c else c)" using ok R(1) by simp
  show "ctx_ok S (clear_both r w c)" using c1 W(1) [OF c1] by (simp add: clear_both_def Let_def)
  show "fc_fd (clear_both r w c) = fc_fd c" by (simp add: clear_both_def Let_def cleared_def)
  show "fc_events (clear_both r w c) = fc_events c AND NOT ((if r then READ else NONE) OR (if w then WRITE else NONE))"
    by (simp add: clear_both_def Let_def cleared_def NONE_def and.assoc)
  have w': "w \<Longrightarrow> fc_events (if r then cleared READ c else c) AND WRITE \<noteq> 0"
    using w cleared_other(1) [OF ok] by simp
  show "live_count (clear_both r w c) = live_count c - (if r then 1 else 0) - (if w then 1 else 0)"
    using R(4) r W(4) [OF c1] w' by (simp add: clear_both_def Let_def)
qed

lemma trigger_both_result:
  assumes ok: "ctx_ok (dom (scheds m)) (ctxs m ! a)" and a: "a < length (ctxs m)"
    and r: "r \<Longrightarrow> fc_events (ctxs m ! a) AND READ \<noteq> 0" and w: "w \<Longrightarrow> fc_events (ctxs m ! a) AND WRITE \<noteq> 0"
  shows "\<exists>m1 m'. trigger_if 1 r READ a m = Inr m1 \<and> trigger_if 1 w WRITE a m1 = Inr m' \<and>
    ctxs m1 ! a = (if r then cleared READ (ctxs m ! a) else ctxs m ! a) \<and>
    table_frame m m' \<and> interest m' = interest m \<and> ctxs m' = (ctxs m)[a := clear_both r w (ctxs m ! a)] \<and>
    m_pendingEventCount m' = m_pendingEventCount m + live_count (clear_both r w (ctxs m ! a)) - live_count (ctxs m ! a) \<and>
    queue_at m' = fire_both r w (ctxs m ! a) (queue_at m)"
proof -
  let ?c = "ctxs m ! a" let ?c1 = "if r then cleared READ ?c else ?c"
  obtain m1 where m1: "trigger_if 1 r READ a m = Inr m1" "table_frame m m1" "interest m1 = interest m"
    "ctxs m1 = (ctxs m)[a := ?c1]" "m_pendingEventCount m1 = m_pendingEventCount m - (if r then 1 else 0)"
    "queue_at m1 = (if r then fire READ ?c (queue_at m) else queue_at m)"
    using trigger_if_result [of READ m a r] ok a r by auto
  have c1: "ctxs m1 ! a = ?c1" using m1(4) a by simp
  have ok1: "ctx_ok (dom (scheds m1)) (ctxs m1 ! a)"
    using ok ctx_ok_cleared(1) [OF ok, of READ] m1(2) unfolding c1 by (simp add: table_frame_def)
  have w1: "w \<Longrightarrow> fc_events (ctxs m1 ! a) AND WRITE \<noteq> 0" using w cleared_other(1) [OF ok] by (simp add: c1)
  have a1: "a < length (ctxs m1)" using m1(4) a by simp
  obtain m' where m': "trigger_if 1 w WRITE a m1 = Inr m'" "table_frame m1 m'" "interest m' = interest m1"
    "ctxs m' = (ctxs m1)[a := if w then cleared WRITE (ctxs m1 ! a) else ctxs m1 ! a]"
    "m_pendingEventCount m' = m_pendingEventCount m1 - (if w then 1 else 0)"
    "queue_at m' = (if w then fire WRITE (ctxs m1 ! a) (queue_at m1) else queue_at m1)"
    using trigger_if_result [OF _ ok1 a1 w1] by auto
  have "fire WRITE ?c1 q = fire WRITE ?c q" for q
    using cleared_other [OF ok] by (auto simp: fire_def split: option.splits)
  then have "queue_at m' = fire_both r w ?c (queue_at m)"
    unfolding m'(6) m1(6) c1 by (simp add: fire_both_def Let_def)
  moreover have "ctxs m' = (ctxs m)[a := clear_both r w ?c]"
    unfolding m'(4) c1 by (simp add: m1(4) clear_both_def Let_def)
  moreover have "m_pendingEventCount m' = m_pendingEventCount m + live_count (clear_both r w ?c) - live_count ?c"
    using clear_both_ok(4) [OF ok r w] m1(5) m'(5) by simp
  ultimately show ?thesis using m1 m' c1 table_frame_trans by metis
qed


text \<open>The operations that trigger, on a context of the vector, when the kernel agrees.\<close>

lemma clear_both_one:
  "clear_both True False c = cleared READ c" "clear_both False True c = cleared WRITE c"
  by (simp_all add: clear_both_def)

text \<open>The common step: the kernel is told the rest of the events, then some are triggered.\<close>

lemma clear_step:
  assumes inv: "io_inv m" and at: "fd_at m fd a"
    and r: "r \<Longrightarrow> fc_events (ctxs m ! a) AND READ \<noteq> 0" and w: "w \<Longrightarrow> fc_events (ctxs m ! a) AND WRITE \<noteq> 0"
    and left: "left = fc_events (clear_both r w (ctxs m ! a))"
    and m0: "m0 = epoll_ctl 0 (if left \<noteq> 0 then CTL_MOD else CTL_DEL) fd evs (Data_ptr a) m" "left \<noteq> 0 \<Longrightarrow> evs = EPOLLET OR left"
  shows "\<exists>m1 m'. trigger_if 1 r READ a m0 = Inr m1 \<and> trigger_if 1 w WRITE a m1 = Inr m' \<and>
    ctxs m1 ! a = (if r then cleared READ (ctxs m ! a) else ctxs m ! a) \<and> io_inv m' \<and> table_frame m m' \<and>
    ctxs m' = (ctxs m)[a := clear_both r w (ctxs m ! a)] \<and> queue_at m' = fire_both r w (ctxs m ! a) (queue_at m)"
proof -
  let ?c = "ctxs m ! a"
  from at have i: "nat fd < length (m_fdContexts m)" "m_fdContexts m ! nat fd = a" "int (nat fd) = fd" "fd \<noteq> fst (m_tickleFds m)"
    by (auto simp: fd_at_def)
  note ctx = io_inv_ctx [OF inv i(1), unfolded i(2,3)]
  have cs: "ctxs m0 = ctxs m" "scheds m0 = scheds m" "queue_at m0 = queue_at m" "m_pendingEventCount m0 = m_pendingEventCount m"
    "table_frame m m0" by (simp_all add: m0)
  obtain m1 m' where *: "trigger_if 1 r READ a m0 = Inr m1" "trigger_if 1 w WRITE a m1 = Inr m'"
    "ctxs m1 ! a = (if r then cleared READ ?c else ?c)"
    "table_frame m0 m'" "interest m' = interest m0" "ctxs m' = (ctxs m)[a := clear_both r w ?c]"
    "m_pendingEventCount m' = m_pendingEventCount m + live_count (clear_both r w ?c) - live_count ?c"
    "queue_at m' = fire_both r w ?c (queue_at m)"
    using trigger_both_result [of m0 a r w, unfolded cs] ctx(1,3) r w by auto
  have fr: "table_frame m m'" using cs(5) *(4) by (rule table_frame_trans)
  have "io_inv m'"
    by (rule io_inv_update [OF inv i(1,2) _ fr *(6) clear_both_ok(1) [OF ctx(1) r w]])
      (use i clear_both_ok(2) [OF ctx(1) r w] ctx(2) *(5,7) m0 left in auto)
  with * fr show ?thesis by blast
qed

lemma both_bits:
  assumes "ctx_ok S c" "r = (fc_events c AND READ \<noteq> 0)" "w = (fc_events c AND WRITE \<noteq> 0)"
  shows "fc_events (clear_both r w c) = 0"
proof -
  have "fc_events c = 0 \<or> fc_events c = 1 \<or> fc_events c = 4 \<or> fc_events c = 5"
    using assms(1) by (auto simp: ctx_ok_def)
  then show ?thesis using clear_both_ok(3) [OF assms(1), of r w] assms(2,3)
    by (elim disjE) (simp_all add: event_defs)
qed

lemma cancelAll_locked_result:
  assumes inv: "io_inv m" and at: "fd_at m fd a" and live: "fc_events (ctxs m ! a) \<noteq> 0"
    and r: "r = (fc_events (ctxs m ! a) AND READ \<noteq> 0)" and w: "w = (fc_events (ctxs m ! a) AND WRITE \<noteq> 0)"
  shows "\<exists>m'. cancelAll_locked 1 0 fd a m = Inr (True, m') \<and> io_inv m' \<and> table_frame m m' \<and>
    ctxs m' = (ctxs m)[a := clear_both r w (ctxs m ! a)] \<and> fc_events (ctxs m' ! a) = 0 \<and>
    queue_at m' = fire_both r w (ctxs m ! a) (queue_at m)"
proof -
  from at have i: "nat fd < length (m_fdContexts m)" "m_fdContexts m ! nat fd = a" "int (nat fd) = fd"
    by (auto simp: fd_at_def)
  note ctx = io_inv_ctx [OF inv i(1), unfolded i(2,3)]
  note z = both_bits [OF ctx(1) r w]
  have r': "r \<Longrightarrow> fc_events (ctxs m ! a) AND READ \<noteq> 0" and w': "w \<Longrightarrow> fc_events (ctxs m ! a) AND WRITE \<noteq> 0"
    using r w by blast+
  obtain m1 m' where *: "trigger_if 1 r READ a (epoll_ctl 0 CTL_DEL fd 0 (Data_ptr a) m) = Inr m1"
    "trigger_if 1 w WRITE a m1 = Inr m'" "ctxs m1 ! a = (if r then cleared READ (ctxs m ! a) else ctxs m ! a)"
    "io_inv m'" "table_frame m m'"
    "ctxs m' = (ctxs m)[a := clear_both r w (ctxs m ! a)]" "queue_at m' = fire_both r w (ctxs m ! a) (queue_at m)"
    using clear_step [OF inv at r' w' z [symmetric], of "epoll_ctl 0 CTL_DEL fd 0 (Data_ptr a) m" 0] by auto
  have "(fc_events (ctxs m1 ! a) AND WRITE \<noteq> 0) = w" using *(3) cleared_other(1) [OF ctx(1)] w by simp
  then have "cancelAll_locked 1 0 fd a m = Inr (True, m')"
    using *(1,2,6) live z ctx(3) by (simp add: cancelAll_locked_def r [symmetric] Let_def)
  with * z ctx(3) show ?thesis by simp
qed

lemma cancelEvent_locked_result:
  assumes inv: "io_inv m" and at: "fd_at m fd a" and ev: "ev = READ \<or> ev = WRITE"
    and live: "fc_events (ctxs m ! a) AND ev \<noteq> 0"
  shows "\<exists>m'. cancelEvent_locked 1 0 fd ev a m = Inr (True, m') \<and> io_inv m' \<and> table_frame m m' \<and>
    ctxs m' = (ctxs m)[a := cleared ev (ctxs m ! a)] \<and> queue_at m' = fire ev (ctxs m ! a) (queue_at m)"
proof -
  let ?left = "fc_events (ctxs m ! a) AND NOT ev"
  let ?m0 = "epoll_ctl 0 (if ?left \<noteq> 0 then CTL_MOD else CTL_DEL) fd (EPOLLET OR ?left) (Data_ptr a) m"
  have ifs: "trigger_if 1 False e a x = Inr x" for e x by (simp add: trigger_if_def)
  have cl: "fc_events (cleared ev c) = fc_events c AND NOT ev" for c :: "'a fd_context" by (simp add: cleared_def)
  have "\<exists>m'. trigger_if 1 True ev a ?m0 = Inr m' \<and> io_inv m' \<and> table_frame m m' \<and>
    ctxs m' = (ctxs m)[a := cleared ev (ctxs m ! a)] \<and> queue_at m' = fire ev (ctxs m ! a) (queue_at m)"
    using ev
  proof
    assume e: "ev = READ"
    show ?thesis using clear_step [OF inv at, of True False ?left ?m0 "EPOLLET OR ?left"] live cl
      by (simp add: e ifs clear_both_one fire_both_def cl split del: if_split) blast
  next
    assume e: "ev = WRITE"
    show ?thesis using clear_step [OF inv at, of False True ?left ?m0 "EPOLLET OR ?left"] live cl
      by (simp add: e ifs clear_both_one fire_both_def cl split del: if_split)
  qed
  then show ?thesis using live by (auto simp: cancelEvent_locked_def trigger_if_def Let_def)
qed

lemma delEvent_locked_result:
  assumes inv: "io_inv m" and at: "fd_at m fd a" and ev: "ev = READ \<or> ev = WRITE"
    and live: "fc_events (ctxs m ! a) AND ev \<noteq> 0"
  shows "\<exists>m'. delEvent_locked 0 fd ev a m = Inr (True, m') \<and> io_inv m' \<and> table_frame m m' \<and>
    ctxs m' = (ctxs m)[a := cleared ev (ctxs m ! a)] \<and> queue_at m' = queue_at m"
proof -
  let ?c = "ctxs m ! a"
  from at have i: "nat fd < length (m_fdContexts m)" "m_fdContexts m ! nat fd = a" "int (nat fd) = fd" "fd \<noteq> fst (m_tickleFds m)"
    by (auto simp: fd_at_def)
  note ctx = io_inv_ctx [OF inv i(1), unfolded i(2,3)]
  have reset: "resetContext x = EventContext_new" for x :: "'a event_context"
    by (simp add: resetContext_def EventContext_new_def)
  define m' where "m' = put_ctx a (cleared ev ?c) (add_pending (-1)
    (epoll_ctl 0 (if fc_events ?c AND NOT ev \<noteq> 0 then CTL_MOD else CTL_DEL) fd (EPOLLET OR fc_events ?c AND NOT ev) (Data_ptr a) m))"
  have run: "delEvent_locked 0 fd ev a m = Inr (True, m')"
    using live ev by (auto simp: delEvent_locked_def getContext_slot reset m'_def cleared_def Let_def)
  note cl = ctx_ok_cleared [OF ctx(1) ev]
  have "io_inv m'"
    by (rule io_inv_update [OF inv i(1,2), where c = "cleared ev ?c"])
      (use i cl ctx live in \<open>auto simp: m'_def\<close>)
  moreover have "table_frame m m'" "ctxs m' = (ctxs m)[a := cleared ev ?c]" "queue_at m' = queue_at m"
    by (simp_all add: m'_def)
  ultimately show ?thesis using run by blast
qed


section \<open>An event of the kernel\<close>

lemma real_events_bits:
  "real_events evs = (if real_events evs AND READ \<noteq> 0 then READ else NONE) OR (if real_events evs AND WRITE \<noteq> 0 then WRITE else NONE)"
  "real_events evs = 0 \<or> real_events evs = 1 \<or> real_events evs = 4 \<or> real_events evs = 5"
  by (simp_all add: real_events_def event_defs Let_def)

lemma real_events_live:
  assumes "ctx_ok S c" "real_events evs AND NOT (fc_events c) = 0"
  shows "real_events evs AND READ \<noteq> 0 \<Longrightarrow> fc_events c AND READ \<noteq> 0"
    "real_events evs AND WRITE \<noteq> 0 \<Longrightarrow> fc_events c AND WRITE \<noteq> 0"
proof -
  have "fc_events c = 0 \<or> fc_events c = 1 \<or> fc_events c = 4 \<or> fc_events c = 5"
    using assms(1) by (auto simp: ctx_ok_def)
  then show "real_events evs AND READ \<noteq> 0 \<Longrightarrow> fc_events c AND READ \<noteq> 0"
    "real_events evs AND WRITE \<noteq> 0 \<Longrightarrow> fc_events c AND WRITE \<noteq> 0"
    using assms(2) real_events_bits(2) [of evs] by (elim disjE; simp add: event_defs)+
qed

lemma idle_event_fires:
  assumes inv: "io_inv m" and at: "fd_at m fd a"
    and some: "fc_events (ctxs m ! a) AND real_events evs \<noteq> 0" and sub: "real_events evs AND NOT (fc_events (ctxs m ! a)) = 0"
    and r: "r = (real_events evs AND READ \<noteq> 0)" and w: "w = (real_events evs AND WRITE \<noteq> 0)"
  shows "\<exists>m'. idle_event 1 0 evs a m = Inr m' \<and> io_inv m' \<and> table_frame m m' \<and>
    ctxs m' = (ctxs m)[a := clear_both r w (ctxs m ! a)] \<and> queue_at m' = fire_both r w (ctxs m ! a) (queue_at m)"
proof -
  let ?c = "ctxs m ! a" let ?left = "fc_events ?c AND NOT (real_events evs)"
  from at have i: "nat fd < length (m_fdContexts m)" "m_fdContexts m ! nat fd = a" "int (nat fd) = fd"
    by (auto simp: fd_at_def)
  note ctx = io_inv_ctx [OF inv i(1), unfolded i(2,3)]
  have re: "real_events evs = (if r then READ else NONE) OR (if w then WRITE else NONE)"
    unfolding r w by (rule real_events_bits(1))
  have rl: "r \<Longrightarrow> fc_events ?c AND READ \<noteq> 0" and wl: "w \<Longrightarrow> fc_events ?c AND WRITE \<noteq> 0"
    using real_events_live [OF ctx(1) sub] unfolding r w by simp_all
  have "?left = fc_events (clear_both r w ?c)"
    by (simp only: clear_both_ok(3) [OF ctx(1) rl wl] re [symmetric])
  note step = clear_step [OF inv at rl wl this, of "epoll_ctl 0 (if ?left \<noteq> 0 then CTL_MOD else CTL_DEL) fd (EPOLLET OR ?left) (Data_ptr a) m" "EPOLLET OR ?left"]
  then obtain m1 m' where "trigger_if 1 r READ a (epoll_ctl 0 (if ?left \<noteq> 0 then CTL_MOD else CTL_DEL) fd (EPOLLET OR ?left) (Data_ptr a) m) = Inr m1"
    "trigger_if 1 w WRITE a m1 = Inr m'" "io_inv m'" "table_frame m m'"
    "ctxs m' = (ctxs m)[a := clear_both r w ?c]" "queue_at m' = fire_both r w ?c (queue_at m)" by auto
  moreover from this(1,2) have "idle_event 1 0 evs a m = Inr m'"
    using some ctx(2) by (simp add: idle_event_def r [symmetric] w [symmetric] NONE_def Let_def)
  ultimately show ?thesis by blast
qed

lemma trigger_if_dead: "fc_events (ctxs m ! a) AND ev = 0 \<Longrightarrow> trigger_if wr True ev a m = Inl (Assertion ''events & event'')"
  by (simp add: trigger_if_def triggerEvent_def Let_def)

lemma idle_event_aborts_at:
  assumes ctx: "ctx_ok (dom (scheds m)) (ctxs m ! a)" "a < length (ctxs m)"
    and some: "fc_events (ctxs m ! a) AND real_events evs \<noteq> 0" and sub: "real_events evs AND NOT (fc_events (ctxs m ! a)) \<noteq> 0"
  shows "idle_event 1 0 evs a m = Inl (Assertion ''events & event'')"
proof -
  let ?c = "ctxs m ! a" let ?left = "fc_events ?c AND NOT (real_events evs)"
  let ?m0 = "epoll_ctl 0 (if ?left \<noteq> 0 then CTL_MOD else CTL_DEL) (fc_fd ?c) (EPOLLET OR ?left) (Data_ptr a) m"
  have e: "fc_events ?c = 0 \<or> fc_events ?c = 1 \<or> fc_events ?c = 4 \<or> fc_events ?c = 5"
    using ctx(1) by (auto simp: ctx_ok_def)
  have cases: "real_events evs AND READ \<noteq> 0 \<and> fc_events ?c AND READ = 0 \<or>
     real_events evs AND READ \<noteq> 0 \<and> fc_events ?c AND READ \<noteq> 0 \<and> real_events evs AND WRITE \<noteq> 0 \<and> fc_events ?c AND WRITE = 0"
    using e real_events_bits(2) [of evs] some sub by (elim disjE; simp add: event_defs)
  have run: "idle_event 1 0 evs a m =
     bindR (trigger_if 1 (real_events evs AND READ \<noteq> 0) READ a ?m0) (trigger_if 1 (real_events evs AND WRITE \<noteq> 0) WRITE a)"
    using some by (simp add: idle_event_def NONE_def Let_def)
  from cases show ?thesis
  proof
    assume "real_events evs AND READ \<noteq> 0 \<and> fc_events ?c AND READ = 0"
    then show ?thesis using trigger_if_dead [of ?m0 a READ 1] by (simp add: run)
  next
    assume *: "real_events evs AND READ \<noteq> 0 \<and> fc_events ?c AND READ \<noteq> 0 \<and> real_events evs AND WRITE \<noteq> 0 \<and> fc_events ?c AND WRITE = 0"
    obtain m1 where m1: "trigger_if 1 True READ a ?m0 = Inr m1" "ctxs m1 = (ctxs m)[a := cleared READ ?c]"
      using trigger_if_result [of READ ?m0 a True] ctx * by auto
    have "fc_events (ctxs m1 ! a) AND WRITE = 0" using m1(2) ctx(2) cleared_other(1) [OF ctx(1)] * by simp
    with m1(1) * show ?thesis by (simp add: run trigger_if_dead)
  qed
qed

lemma idle_event_aborts:
  assumes "io_inv m" "fd_at m fd a"
    and "fc_events (ctxs m ! a) AND real_events evs \<noteq> 0" "real_events evs AND NOT (fc_events (ctxs m ! a)) \<noteq> 0"
  shows "idle_event 1 0 evs a m = Inl (Assertion ''events & event'')"
proof -
  from assms(2) have i: "nat fd < length (m_fdContexts m)" "m_fdContexts m ! nat fd = a" by (auto simp: fd_at_def)
  note ctx = io_inv_ctx [OF assms(1) i(1), unfolded i(2)]
  from idle_event_aborts_at [OF ctx(1,3) assms(3,4)] show ?thesis .
qed


section \<open>Every operation, in any order\<close>

text \<open>
  The calls of a program and the events of the kernel, each with what the kernel answers. The
  byte written to a pipe always fits (\<open>wr = 1\<close>): the pipe is emptied on every turn of the idle
  loop, and \<^verbatim>\<open>write\<close> blocks while it is full. An event names the descriptor whose context the
  kernel holds; it may have been collected before the last change of the registration.
\<close>

datatype 'cb io_op =
    IO_Add int "nat option" "nat \<times> State" int event "'cb option"
  | IO_Del int int event
  | IO_Cancel int int event
  | IO_CancelAll int int
  | IO_Event int "32 word" int
  | IO_Tickled

definition forget :: "('a \<times> 'cb iomanager) res \<Rightarrow> 'cb iomanager res" where
  "forget r = bindR r (\<lambda>(x, m). Inr m)"

fun io_do :: "'cb io_op \<Rightarrow> 'cb iomanager \<Rightarrow> 'cb iomanager res" where
  "io_do (IO_Add rt cur this fd ev cb) m = forget (addEvent rt cur this fd ev cb m)"
| "io_do (IO_Del rt fd ev) m = forget (delEvent rt fd ev m)"
| "io_do (IO_Cancel rt fd ev) m = forget (cancelEvent 1 rt fd ev m)"
| "io_do (IO_CancelAll rt fd) m = forget (cancelAll 1 rt fd m)"
| "io_do (IO_Event rt evs fd) m =
     bindR (find_context fd m) (\<lambda>found.
       case found of Some a \<Rightarrow> idle_item 1 (Data_ptr a, evs, rt) m | None \<Rightarrow> Inr m)"
| "io_do IO_Tickled m = idle_item 1 (Data_fd (fst (m_tickleFds m)), EPOLLIN, 0) m"

text \<open>
  The events registered for a descriptor; and what callers keep to: descriptors are those of user
  files, an event is one of the two, and the thread that adds one has a scheduler and runs the
  fiber it waits with. The kernel may report anything for a user's file, at any time.
\<close>

definition events_at :: "'cb iomanager \<Rightarrow> int \<Rightarrow> event" where
  "events_at m fd =
    (if fd < int (length (m_fdContexts m)) then fc_events (ctxs m ! (m_fdContexts m ! nat fd)) else 0)"

definition user_fd :: "'cb iomanager \<Rightarrow> int \<Rightarrow> bool" where
  "user_fd m fd \<longleftrightarrow> 0 \<le> fd \<and> fd \<noteq> fst (m_tickleFds m)"

definition io_event :: "event \<Rightarrow> bool" where
  "io_event ev \<longleftrightarrow> ev = READ \<or> ev = WRITE"

fun io_called :: "'cb io_op \<Rightarrow> 'cb iomanager \<Rightarrow> bool" where
  "io_called (IO_Add rt cur this fd ev cb) m =
     (user_fd m fd \<and> io_event ev \<and> snd this = EXEC \<and> (case cur of None \<Rightarrow> False | Some s \<Rightarrow> scheds m s \<noteq> None))"
| "io_called (IO_Del rt fd ev) m = (user_fd m fd \<and> io_event ev)"
| "io_called (IO_Cancel rt fd ev) m = (user_fd m fd \<and> io_event ev)"
| "io_called (IO_CancelAll rt fd) m = user_fd m fd"
| "io_called (IO_Event rt evs fd) m = user_fd m fd"
| "io_called IO_Tickled m = True"

text \<open>
  The two cases in which an assertion fails: an event is added that is registered already, and the
  kernel reports, beside a registered event, one that is not (a hang-up or an error with one event
  registered, or a report that was overtaken by a deletion), and lets the descriptor be changed.
\<close>

fun io_aborts :: "'cb io_op \<Rightarrow> 'cb iomanager \<Rightarrow> bool" where
  "io_aborts (IO_Add rt cur this fd ev cb) m = (events_at m fd AND ev \<noteq> 0)"
| "io_aborts (IO_Event rt evs fd) m =
     (rt = 0 \<and> events_at m fd AND real_events evs \<noteq> 0 \<and> real_events evs AND NOT (events_at m fd) \<noteq> 0)"
| "io_aborts op m = False"

abbreviation io_allowed :: "'cb io_op \<Rightarrow> 'cb iomanager \<Rightarrow> bool" where
  "io_allowed op m \<equiv> io_called op m \<and> \<not> io_aborts op m"

lemma found:
  assumes "user_fd m fd" "fd < int (length (m_fdContexts m))"
  shows "find_context fd m = Inr (Some (m_fdContexts m ! nat fd))" "fd_at m fd (m_fdContexts m ! nat fd)"
    "events_at m fd = fc_events (ctxs m ! (m_fdContexts m ! nat fd))"
  using assms by (simp_all add: find_context_def fd_at_def events_at_def user_fd_def)

lemma not_found: "\<not> fd < int (length (m_fdContexts m)) \<Longrightarrow> find_context fd m = Inr None"
  by (simp add: find_context_def)

lemma addEvent_locked_step:
  assumes "io_inv m" "fd_at m fd a" "io_event ev" "cur = Some s" "s \<in> dom (scheds m)" "snd this = EXEC"
    "fc_events (ctxs m ! a) AND ev = 0"
  shows "\<exists>m'. forget (addEvent_locked rt cur this fd ev cb a m) = Inr m' \<and> io_inv m'"
proof (cases "rt = 0")
  case True
  with addEvent_locked_result [of m fd a ev s this cb] assms show ?thesis
    by (auto simp: forget_def io_event_def)
next
  case False
  with assms show ?thesis by (simp add: addEvent_locked_other(2) forget_def)
qed

text \<open>The table after a growth, with the context of the descriptor that asked for it.\<close>

lemma addEvent_grow_result:
  assumes inv: "io_inv m" and fd: "user_fd m fd" and long: "\<not> fd < int (length (m_fdContexts m))"
  shows "\<exists>a m1. addEvent_grow fd m = Inr (a, m1) \<and> io_inv m1 \<and> fd_at m1 fd a \<and> fc_events (ctxs m1 ! a) = 0 \<and>
    scheds m1 = scheds m \<and> queue_at m1 = queue_at m"
proof -
  let ?n = "nat (fd * 3 div 2)"
  have len: "32 \<le> length (m_fdContexts m)" using inv by (simp add: io_inv_def table_ok_def)
  with long have n: "length (m_fdContexts m) \<le> ?n" "nat fd < ?n" by linarith+
  note grow = contextResize_grow [OF inv n(1)]
  let ?m1 = "contextResize ?n m" let ?a = "m_fdContexts ?m1 ! nat fd"
  have rest: "scheds ?m1 = scheds m" "queue_at ?m1 = queue_at m" "m_tickleFds ?m1 = m_tickleFds m"
    by (simp_all add: contextResize_def Let_def queue_at_def fun_eq_iff)
  have k: "length (m_fdContexts m) \<le> nat fd" using long by linarith
  have "ctxs ?m1 ! ?a = FdContext_new (int (nat fd))"
    using grow(4) [OF k n(2)] .
  moreover have "fd_at ?m1 fd ?a" using fd n long grow(2) rest(3) by (simp add: fd_at_def user_fd_def)
  moreover have "addEvent_grow fd m = Inr (?a, ?m1)" using grow(2) n by (simp add: addEvent_grow_def Let_def)
  ultimately show ?thesis using grow(1) rest by (auto simp: FdContext_new_def NONE_def)
qed

lemma io_inv_Add:
  assumes inv: "io_inv m" and ok: "io_allowed (IO_Add rt cur this fd ev cb) m"
  shows "\<exists>m'. io_do (IO_Add rt cur this fd ev cb) m = Inr m' \<and> io_inv m'"
proof -
  from ok obtain s where s: "user_fd m fd" "io_event ev" "snd this = EXEC" "events_at m fd AND ev = 0"
    "cur = Some s" "s \<in> dom (scheds m)" by (auto split: option.splits)
  show ?thesis
  proof (cases "fd < int (length (m_fdContexts m))")
    case True
    note f = found [OF s(1) True]
    from addEvent_locked_step [OF inv f(2) s(2,5,6,3), of rt cb] s(4) f(1,3) show ?thesis
      by (simp add: addEvent_def)
  next
    case False
    obtain a m1 where g: "addEvent_grow fd m = Inr (a, m1)" "io_inv m1" "fd_at m1 fd a" "fc_events (ctxs m1 ! a) = 0"
      "scheds m1 = scheds m" using addEvent_grow_result [OF inv s(1) False] by blast
    from addEvent_locked_step [OF g(2,3) s(2,5) _ s(3), of rt cb] s(6) g not_found [OF False] show ?thesis
      by (simp add: addEvent_def)
  qed
qed

lemma io_inv_Del:
  assumes inv: "io_inv m" and ok: "io_allowed (IO_Del rt fd ev) m"
  shows "\<exists>m'. io_do (IO_Del rt fd ev) m = Inr m' \<and> io_inv m'"
proof (cases "fd < int (length (m_fdContexts m))")
  case True
  from ok have "user_fd m fd" and ev: "ev = READ \<or> ev = WRITE" by (auto simp: io_event_def)
  note f = found [OF this(1) True]
  show ?thesis
  proof (cases "rt = 0 \<and> events_at m fd AND ev \<noteq> 0")
    case True
    with delEvent_locked_result [OF inv f(2) ev] f show ?thesis by (auto simp: delEvent_def forget_def)
  next
    case False
    with f inv show ?thesis by (auto simp: delEvent_def delEvent_locked_def epoll_ctl_def forget_def Let_def)
  qed
qed (use inv in \<open>auto simp: delEvent_def forget_def not_found\<close>)

lemma io_inv_Cancel:
  assumes inv: "io_inv m" and ok: "io_allowed (IO_Cancel rt fd ev) m"
  shows "\<exists>m'. io_do (IO_Cancel rt fd ev) m = Inr m' \<and> io_inv m'"
proof (cases "fd < int (length (m_fdContexts m))")
  case True
  from ok have "user_fd m fd" and ev: "ev = READ \<or> ev = WRITE" by (auto simp: io_event_def)
  note f = found [OF this(1) True]
  show ?thesis
  proof (cases "rt = 0 \<and> events_at m fd AND ev \<noteq> 0")
    case True
    with cancelEvent_locked_result [OF inv f(2) ev] f show ?thesis by (auto simp: cancelEvent_def forget_def)
  next
    case False
    with f inv show ?thesis by (auto simp: cancelEvent_def cancelEvent_locked_def epoll_ctl_def forget_def Let_def)
  qed
qed (use inv in \<open>auto simp: cancelEvent_def forget_def not_found\<close>)

lemma io_inv_CancelAll:
  assumes inv: "io_inv m" and ok: "io_allowed (IO_CancelAll rt fd) m"
  shows "\<exists>m'. io_do (IO_CancelAll rt fd) m = Inr m' \<and> io_inv m'"
proof (cases "fd < int (length (m_fdContexts m))")
  case True
  from ok have "user_fd m fd" by simp
  note f = found [OF this True]
  show ?thesis
  proof (cases "rt = 0 \<and> events_at m fd \<noteq> 0")
    case True
    with cancelAll_locked_result [OF inv f(2) _ refl refl] f show ?thesis
      by (auto simp: cancelAll_def forget_def)
  next
    case False
    with f inv show ?thesis by (auto simp: cancelAll_def cancelAll_locked_def epoll_ctl_def forget_def Let_def)
  qed
qed (use inv in \<open>auto simp: cancelAll_def forget_def not_found\<close>)

lemma io_inv_Event:
  assumes inv: "io_inv m" and ok: "io_allowed (IO_Event rt evs fd) m"
  shows "\<exists>m'. io_do (IO_Event rt evs fd) m = Inr m' \<and> io_inv m'"
proof (cases "fd < int (length (m_fdContexts m))")
  case True
  from ok have "user_fd m fd" by simp
  note f = found [OF this True]
  show ?thesis
  proof (cases "rt = 0 \<and> events_at m fd AND real_events evs \<noteq> 0")
    case True
    with idle_event_fires [OF inv f(2) _ _ refl refl, of evs] f ok show ?thesis by auto
  next
    case False
    with f inv show ?thesis by (auto simp: idle_event_def epoll_ctl_def NONE_def Let_def)
  qed
qed (use inv in \<open>auto simp: not_found\<close>)

lemma io_inv_do [keeps]:
  assumes inv: "io_inv m" and ok: "io_allowed op m"
  shows "\<exists>m'. io_do op m = Inr m' \<and> io_inv m'"
proof (cases op)
  case IO_Tickled
  with inv show ?thesis by (auto simp: table_frame_def intro: io_inv_frame)
qed (use ok io_inv_Add [OF inv] io_inv_Del [OF inv] io_inv_Cancel [OF inv] io_inv_CancelAll [OF inv]
    io_inv_Event [OF inv] in blast)+

lemma io_abort:
  assumes inv: "io_inv m" and called: "io_called op m" and bad: "io_aborts op m"
  shows "\<exists>e. io_do op m = Inl (Assertion e)"
proof -
  have inside: "fd < int (length (m_fdContexts m))" if "events_at m fd AND ev \<noteq> 0" for fd ev
    using that by (cases "fd < int (length (m_fdContexts m))") (simp_all add: events_at_def)
  show ?thesis
  proof (cases op)
    case (IO_Add rt cur this fd ev cb)
    with called bad have "user_fd m fd" "fd < int (length (m_fdContexts m))" using inside by auto
    note f = found [OF this]
    with bad IO_Add show ?thesis by (simp add: addEvent_def addEvent_locked_def forget_def)
  next
    case (IO_Event rt evs fd)
    with called bad have "user_fd m fd" "fd < int (length (m_fdContexts m))" using inside by auto
    note f = found [OF this]
    with bad IO_Event idle_event_aborts [OF inv f(2), of evs] show ?thesis by simp
  qed (use bad in simp_all)
qed

text \<open>Runs from a freshly constructed manager; an operation that aborts ends the process.\<close>

inductive io_run :: "'cb iomanager \<Rightarrow> 'cb iomanager \<Rightarrow> bool" for m0 where
  io_start: "io_run m0 m0"
| io_step: "io_run m0 m \<Longrightarrow> io_called op m \<Longrightarrow> io_do op m = Inr m' \<Longrightarrow> io_run m0 m'"

lemma io_run_inv: "io_run m0 m \<Longrightarrow> io_inv m0 \<Longrightarrow> io_inv m"
proof (induction rule: io_run.induct)
  case (io_step m op m')
  then show ?case using io_abort [of m op] io_inv_do [of m op] by (cases "io_aborts op m") auto
qed

lemma IOManager_new_table:
  assumes "IOManager_new addr others other_pipes epfd fds pipe_rt fcntl_rt ctl_rt threads use_caller name cur root tid tids = Inr m"
  shows "m_fdContexts m = [0..<32]" "ctxs m = map (\<lambda>i. FdContext_new (int i)) [0..<32]" "m_pendingEventCount m = 0"
    "m_tickleFds m = fds" "\<And>fd. fd \<noteq> fst fds \<Longrightarrow> interest m fd = None"
  using assms by (auto simp: IOManager_new_def contextResize_def epoll_ctl_def Let_def map_idI split: if_splits)

lemma IOManager_new_inv:
  assumes "IOManager_new addr others other_pipes epfd fds pipe_rt fcntl_rt ctl_rt threads use_caller name cur root tid tids = Inr m"
  shows "io_inv m"
proof -
  have ok: "ctx_ok S (FdContext_new i)" "live_count (FdContext_new i) = 0" "fc_fd (FdContext_new i) = i"
    "fc_events (FdContext_new i) = 0" for S and i :: int
    by (simp_all add: ctx_ok_def slot_ok_def live_count_def FdContext_new_def NONE_def)
  note vec = IOManager_new_table [OF assms]
  have "sum_list (map live_count (map (\<lambda>i. FdContext_new (int i)) xs)) = 0" for xs
    by (induction xs) (simp_all add: ok)
  then show ?thesis
    unfolding io_inv_def table_ok_def kernel_ok_def mirrored_def vec
    by (auto simp: ok vec comp_def)
qed

text \<open>
  C2. The event table and the kernel agree, always. From construction on, in every sequence of
  additions, deletions and cancellations by threads of a scheduler and of reports of the kernel (each
  accepted or refused by the kernel), the pending count is the number of registered events, and for
  every descriptor the kernel watches exactly the registered events, with a pointer to that
  descriptor's context. An operation succeeds in all but two cases, in which an assertion fails: an
  event that is registered is added again, or the kernel reports an event that is registered
  together with one that is not.
\<close>
theorem event_table_sound:
  assumes "IOManager_new addr others other_pipes epfd fds pipe_rt fcntl_rt ctl_rt threads use_caller name cur root tid tids = Inr m0"
    and "io_run m0 m" and "io_called op m"
  shows "(if io_aborts op m then \<exists>e. io_do op m = Inl (Assertion e) else \<exists>m'. io_do op m = Inr m') \<and>
    m_pendingEventCount m = sum_list (map live_count (ctxs m)) \<and>
    (\<forall>fd. user_fd m fd \<longrightarrow> interest m fd =
       (if events_at m fd = 0 then None else Some (EPOLLET OR events_at m fd, Data_ptr (m_fdContexts m ! nat fd))))"
proof -
  have inv: "io_inv m" using assms(2) IOManager_new_inv [OF assms(1)] by (rule io_run_inv)
  have "interest m fd = (if events_at m fd = 0 then None else Some (EPOLLET OR events_at m fd, Data_ptr (m_fdContexts m ! nat fd)))"
    if fd: "user_fd m fd" for fd
  proof (cases "fd < int (length (m_fdContexts m))")
    case True
    have i: "nat fd < length (m_fdContexts m)" "int (nat fd) = fd" "int (nat fd) \<noteq> fst (m_tickleFds m)"
      using True fd by (auto simp: user_fd_def)
    note fds = io_inv_ctx(2) [OF inv i(1), unfolded i(2)]
    from inv i have "mirrored (m_fdContexts m ! nat fd) (ctxs m ! (m_fdContexts m ! nat fd)) (interest m)"
      unfolding io_inv_def kernel_ok_def by blast
    with fds True show ?thesis by (simp add: mirrored_def events_at_def)
  next
    case False
    with inv fd show ?thesis by (auto simp: io_inv_def kernel_ok_def events_at_def user_fd_def)
  qed
  with io_inv_do [OF inv, of op] io_abort [OF inv assms(3)] assms(3) inv show ?thesis by (auto simp: io_inv_def)
qed

text \<open>A manager with two threads, and what it is after some operations.\<close>

definition demo_new :: "string iomanager res" where
  "demo_new = IOManager_new 0 (\<lambda>_. None) (\<lambda>_. None) 3 (4, 5) 0 0 0 2 False ''io'' False 0 9 (\<lambda>i. int i + 1)"

definition demo_io :: "string iomanager" where
  "demo_io = (case demo_new of Inr m \<Rightarrow> m | Inl e \<Rightarrow> undefined)"

lemma demo_io: "demo_new = Inr demo_io" "user_fd demo_io 40" "scheds demo_io 0 \<noteq> None" "events_at demo_io 40 = 0"
  "events_at demo_io 7 = 0" "user_fd demo_io 7" "int (length (m_fdContexts demo_io)) = 32"
  by (simp_all add: demo_io_def demo_new_def IOManager_new_def Scheduler_new_def Scheduler_start_def user_fd_def events_at_def
      contextResize_def FdContext_new_def NONE_def epoll_ctl_def Let_def)

lemma demo_io_inv: "io_inv demo_io"
  by (rule IOManager_new_inv) (rule demo_io(1) [unfolded demo_new_def])

theorem event_table_sound_witness:
  "\<exists>m e. io_do (IO_Add 0 (Some 0) (1, EXEC) 40 READ (Some ''cb'')) demo_io = Inr m \<and> m_pendingEventCount m = 1 \<and>
    io_do (IO_Event 0 EPOLLHUP 40) m = Inl (Assertion e)"
proof -
  let ?add = "IO_Add 0 (Some 0) (1, EXEC) 40 READ (Some ''cb'')"
  have ok: "io_called ?add demo_io" "\<not> io_aborts ?add demo_io"
    using demo_io(2,3,4) by (auto simp: io_event_def)
  from event_table_sound [OF demo_io(1) [unfolded demo_new_def] io_start ok(1)] ok(2)
  obtain m where m: "io_do ?add demo_io = Inr m" by auto
  have after: "case io_do ?add demo_io of
      Inl e \<Rightarrow> False
    | Inr m \<Rightarrow> m_pendingEventCount m = 1 \<and> user_fd m 40 \<and> events_at m 40 = READ"
    by code_simp
  have "user_fd m 40" "events_at m 40 = READ" "m_pendingEventCount m = 1" using after unfolding m by simp_all
  moreover have "READ AND real_events EPOLLHUP \<noteq> 0" "real_events EPOLLHUP AND NOT READ \<noteq> 0" by code_simp+
  ultimately have "io_called (IO_Event 0 EPOLLHUP 40) m" "io_aborts (IO_Event 0 EPOLLHUP 40) m" by simp_all
  with event_table_sound [OF demo_io(1) [unfolded demo_new_def] io_step [OF io_start ok(1) m], of "IO_Event 0 EPOLLHUP 40"]
  have "\<exists>e. io_do (IO_Event 0 EPOLLHUP 40) m = Inl (Assertion e)" by presburger
  with m \<open>m_pendingEventCount m = 1\<close> show ?thesis by blast
qed

section \<open>What a registration amounts to\<close>

lemma cleared_registered:
  assumes "ctx_ok S c" "fc_events c AND ev = 0" "ev = READ \<or> ev = WRITE"
  shows "cleared ev (registered ev x c) = c"
proof -
  have "fc_events c = 0 \<or> fc_events c = 1 \<or> fc_events c = 4 \<or> fc_events c = 5"
    using assms(1) by (auto simp: ctx_ok_def)
  then have "(fc_events c OR ev) AND NOT ev = fc_events c"
    using assms(2,3) by (elim disjE) (simp_all add: event_defs)
  moreover have "slot ev c = EventContext_new"
    using assms by (auto simp: ctx_ok_def slot_ok_def slot_def)
  ultimately show ?thesis using assms(3)
    by (cases c) (auto simp: cleared_def registered_def putContext_def slot_def split: if_splits)
qed

lemma registered_bits:
  assumes "ctx_ok S c" "ev = READ \<or> ev = WRITE"
  shows "(fc_events c OR ev) AND ev \<noteq> 0"
proof -
  have "fc_events c = 0 \<or> fc_events c = 1 \<or> fc_events c = 4 \<or> fc_events c = 5"
    using assms(1) by (auto simp: ctx_ok_def)
  then show ?thesis using assms(2) by (elim disjE) (simp_all add: event_defs)
qed

text \<open>
  C18. An event is delivered exactly once. Adding an event and then cancelling it puts exactly
  the given callback (or, without one, the calling fiber) once at the end of the scheduler's queue,
  free for any thread; cancelling again finds nothing; and the table of contexts is what it was
  before. Deleting instead restores the table too and queues nothing.
\<close>
theorem event_delivered_once:
  assumes "io_inv m" and "user_fd m fd" and "fd < int (length (m_fdContexts m))" and "io_event ev"
    and "scheds m s \<noteq> None" and "snd this = EXEC" and "events_at m fd AND ev = 0"
  shows "\<exists>m1 m2 m3. addEvent 0 (Some s) this fd ev cb m = Inr (0, m1) \<and>
    cancelEvent 1 0 fd ev m1 = Inr (True, m2) \<and> ctxs m2 = ctxs m \<and>
    queue_at m2 = (queue_at m)(s := queue_at m s @
      [\<lparr>ft_fiber = (if cb = None then Some (fst this) else None), ft_cb = cb, ft_thread = -1\<rparr>]) \<and>
    cancelEvent 1 0 fd ev m2 = Inr (False, m2) \<and>
    delEvent 0 fd ev m1 = Inr (True, m3) \<and> ctxs m3 = ctxs m \<and> queue_at m3 = queue_at m"
proof -
  let ?a = "m_fdContexts m ! nat fd" let ?c = "ctxs m ! ?a" let ?x = "new_slot s this cb"
  have ev: "ev = READ \<or> ev = WRITE" using assms(4) by (simp add: io_event_def)
  note f = found [OF assms(2,3)]
  have i: "nat fd < length (m_fdContexts m)" using f(2) by (auto simp: fd_at_def)
  note ctx = io_inv_ctx [OF assms(1) i]
  have free: "fc_events ?c AND ev = 0" using assms(7) f(3) by simp
  obtain m1 where m1: "addEvent_locked 0 (Some s) this fd ev cb ?a m = Inr (0, m1)" "io_inv m1" "table_frame m m1"
    "ctxs m1 = (ctxs m)[?a := registered ev ?x ?c]" "queue_at m1 = queue_at m"
    using addEvent_locked_result [OF assms(1) f(2) ev _ assms(6) free, of s cb] assms(5) by blast
  have u1: "user_fd m1 fd" "fd < int (length (m_fdContexts m1))" "m_fdContexts m1 = m_fdContexts m"
    using m1(3) assms(2,3) by (simp_all add: table_frame_def user_fd_def)
  note f1 = found [OF u1(1,2), unfolded u1(3)]
  have c1: "ctxs m1 ! ?a = registered ev ?x ?c" using m1(4) ctx(3) by simp
  have reg: "fc_events (registered ev ?x ?c) AND ev \<noteq> 0" "slot ev (registered ev ?x ?c) = ?x"
    using registered_bits [OF ctx(1) ev] ev by (auto simp: registered_def slot_def putContext_def)
  have live: "fc_events (ctxs m1 ! ?a) AND ev \<noteq> 0" using reg c1 by simp
  have restored: "(ctxs m1)[?a := cleared ev (ctxs m1 ! ?a)] = ctxs m"
    using cleared_registered [OF ctx(1) free ev, of ?x] c1 m1(4) by simp
  obtain m2 where m2: "cancelEvent_locked 1 0 fd ev ?a m1 = Inr (True, m2)" "table_frame m1 m2" "ctxs m2 = ctxs m"
    "queue_at m2 = fire ev (ctxs m1 ! ?a) (queue_at m1)"
    using cancelEvent_locked_result [OF m1(2) f1(2) ev live] restored by auto
  obtain m3 where m3: "delEvent_locked 0 fd ev ?a m1 = Inr (True, m3)" "ctxs m3 = ctxs m" "queue_at m3 = queue_at m1"
    using delEvent_locked_result [OF m1(2) f1(2) ev live] restored by auto
  have "user_fd m2 fd" "fd < int (length (m_fdContexts m2))" "m_fdContexts m2 = m_fdContexts m"
    using m2(2) u1 by (simp_all add: table_frame_def user_fd_def)
  note f2 = found [OF this(1,2), unfolded this(3)]
  have "cancelEvent 1 0 fd ev m2 = Inr (False, m2)"
    using f2(1) m2(3) free by (simp add: cancelEvent_def cancelEvent_locked_def Let_def)
  moreover have "queue_at m2 = (queue_at m)(s := queue_at m s @
      [\<lparr>ft_fiber = (if cb = None then Some (fst this) else None), ft_cb = cb, ft_thread = -1\<rparr>])"
    using reg c1 m1(5) by (simp add: m2(4) fire_def new_slot_def slot_task_def)
  ultimately show ?thesis using m1 m2 m3 f(1) f1(1) by (simp add: addEvent_def cancelEvent_def delEvent_def)
qed

theorem event_delivered_once_witness:
  "\<exists>m1 m2. addEvent 0 (Some 0) (1, EXEC) 7 WRITE None demo_io = Inr (0, m1) \<and> cancelEvent 1 0 7 WRITE m1 = Inr (True, m2) \<and>
    queue_at m2 0 = queue_at demo_io 0 @ [\<lparr>ft_fiber = Some 1, ft_cb = None, ft_thread = -1\<rparr>]"
proof -
  have "(7 :: int) < int (length (m_fdContexts demo_io))" using demo_io(7) by simp
  moreover have "io_event WRITE" "events_at demo_io 7 AND WRITE = 0" using demo_io(5) by (simp_all add: io_event_def)
  ultimately show ?thesis
    using event_delivered_once [OF demo_io_inv demo_io(6), of WRITE 0 "(1, EXEC)" None] demo_io(3) by auto
qed

text \<open>
  What the idle loop does with an event of the kernel for a descriptor, in all cases: if
  none of its conditions is registered any more, nothing; if all of them are, each is triggered
  once (read first) and the rest stays registered; if some are and some are not, an assertion of
  \<^verbatim>\<open>triggerEvent\<close> fails.
\<close>
theorem kernel_event_cases:
  assumes "io_inv m" and "fd_at m fd a"
  shows "(fc_events (ctxs m ! a) AND real_events evs = 0 \<longrightarrow> idle_event 1 0 evs a m = Inr m) \<and>
    (fc_events (ctxs m ! a) AND real_events evs \<noteq> 0 \<and> real_events evs AND NOT (fc_events (ctxs m ! a)) = 0 \<longrightarrow>
      (\<exists>m'. idle_event 1 0 evs a m = Inr m' \<and> io_inv m' \<and>
        fc_events (ctxs m' ! a) = fc_events (ctxs m ! a) AND NOT (real_events evs) \<and>
        queue_at m' = fire_both (real_events evs AND READ \<noteq> 0) (real_events evs AND WRITE \<noteq> 0) (ctxs m ! a) (queue_at m))) \<and>
    (fc_events (ctxs m ! a) AND real_events evs \<noteq> 0 \<and> real_events evs AND NOT (fc_events (ctxs m ! a)) \<noteq> 0 \<longrightarrow>
      idle_event 1 0 evs a m = Inl (Assertion ''events & event''))"
proof -
  let ?c = "ctxs m ! a"
  let ?r = "real_events evs AND READ \<noteq> 0" let ?w = "real_events evs AND WRITE \<noteq> 0"
  have i: "nat fd < length (m_fdContexts m)" "m_fdContexts m ! nat fd = a" using assms(2) by (auto simp: fd_at_def)
  note ctx = io_inv_ctx [OF assms(1) i(1), unfolded i(2)]
  have "\<exists>m'. idle_event 1 0 evs a m = Inr m' \<and> io_inv m' \<and> fc_events (ctxs m' ! a) = fc_events ?c AND NOT (real_events evs) \<and>
      queue_at m' = fire_both ?r ?w ?c (queue_at m)"
    if some: "fc_events ?c AND real_events evs \<noteq> 0" and sub: "real_events evs AND NOT (fc_events ?c) = 0"
  proof -
    define r where r: "r = ?r"
    define w where w: "w = ?w"
    have live: "r \<Longrightarrow> fc_events ?c AND READ \<noteq> 0" "w \<Longrightarrow> fc_events ?c AND WRITE \<noteq> 0"
      using real_events_live [OF ctx(1) sub] unfolding r w by simp_all
    have re: "real_events evs = (if r then READ else NONE) OR (if w then WRITE else NONE)"
      unfolding r w by (rule real_events_bits(1))
    have "fc_events (clear_both r w ?c) = fc_events ?c AND NOT (real_events evs)"
      by (simp only: clear_both_ok(3) [OF ctx(1) live] re [symmetric])
    with idle_event_fires [OF assms some sub r w] ctx(3) show ?thesis unfolding r w by auto
  qed
  with idle_event_aborts [OF assms] show ?thesis by (auto simp: idle_event_def NONE_def Let_def)
qed


lemma demo_at: "fd_at demo_io 7 (m_fdContexts demo_io ! 7)" "fc_events (ctxs demo_io ! (m_fdContexts demo_io ! 7)) = 0"
  using found(2,3) [OF demo_io(6)] demo_io(5,7) by simp_all

theorem kernel_event_cases_witness:
  "idle_event 1 0 EPOLLIN (m_fdContexts demo_io ! 7) demo_io = Inr demo_io"
  using kernel_event_cases [OF demo_io_inv demo_at(1), of EPOLLIN] demo_at(2) by simp

text \<open>
  A hang-up or an error on a descriptor with one of the two events registered aborts the
  process: the loop turns it into both events without looking at what is registered, and
  \<^verbatim>\<open>triggerEvent\<close> asserts that the other one is.
\<close>
theorem hangup_one_sided_aborts:
  assumes "io_inv m" and "fd_at m fd a" and "evs AND (EPOLLERR OR EPOLLHUP) \<noteq> 0"
    and "fc_events (ctxs m ! a) = READ \<or> fc_events (ctxs m ! a) = WRITE"
  shows "idle_event 1 0 evs a m = Inl (Assertion ''events & event'')"
proof (rule idle_event_aborts [OF assms(1,2)])
  have nz: "(evs OR EPOLLIN OR EPOLLOUT) AND EPOLLIN \<noteq> 0" "(evs OR EPOLLIN OR EPOLLOUT) AND EPOLLOUT \<noteq> 0"
  proof -
    have "bit ((evs OR EPOLLIN OR EPOLLOUT) AND EPOLLIN) 0" "bit ((evs OR EPOLLIN OR EPOLLOUT) AND EPOLLOUT) 2"
      by (simp_all add: bit_simps EPOLLIN_def EPOLLOUT_def)
    then show "(evs OR EPOLLIN OR EPOLLOUT) AND EPOLLIN \<noteq> 0" "(evs OR EPOLLIN OR EPOLLOUT) AND EPOLLOUT \<noteq> 0" by auto
  qed
  have "real_events evs = READ OR WRITE"
    using assms(3) nz by (simp add: real_events_def Let_def)
  with assms(4) show "fc_events (ctxs m ! a) AND real_events evs \<noteq> 0"
    "real_events evs AND NOT (fc_events (ctxs m ! a)) \<noteq> 0" by (auto simp: event_defs)
qed

theorem hangup_one_sided_aborts_witness:
  "\<exists>m1. addEvent 0 (Some 0) (1, EXEC) 7 READ (Some ''cb'') demo_io = Inr (0, m1) \<and>
    idle_event 1 0 EPOLLHUP (m_fdContexts demo_io ! 7) m1 = Inl (Assertion ''events & event'')"
proof -
  let ?a = "m_fdContexts demo_io ! 7"
  have f: "find_context 7 demo_io = Inr (Some ?a)" using found(1) [OF demo_io(6)] demo_io(7) by simp
  obtain m1 where m1: "addEvent_locked 0 (Some 0) (1, EXEC) 7 READ (Some ''cb'') ?a demo_io = Inr (0, m1)" "io_inv m1"
    "table_frame demo_io m1" "ctxs m1 = (ctxs demo_io)[?a := registered READ (new_slot 0 (1, EXEC) (Some ''cb'')) (ctxs demo_io ! ?a)]"
    using addEvent_locked_result [OF demo_io_inv demo_at(1), of READ 0 "(1, EXEC)" "Some ''cb''"] demo_io(3) demo_at(2) by auto
  have "?a < length (ctxs demo_io)" using io_inv_ctx(3) [OF demo_io_inv, of 7] demo_io(7) by simp
  then have "fc_events (ctxs m1 ! ?a) = READ" using demo_at(2) by (simp add: m1(4) registered_def)
  moreover have "fd_at m1 7 ?a" using demo_at(1) m1(3) by (simp add: fd_at_def table_frame_def)
  ultimately have "idle_event 1 0 EPOLLHUP ?a m1 = Inl (Assertion ''events & event'')"
    using hangup_one_sided_aborts [OF m1(2), of 7 ?a EPOLLHUP] by (simp add: EPOLLHUP_def EPOLLERR_def)
  with m1(1) f show ?thesis by (simp add: addEvent_def)
qed

section \<open>Waking up and stopping\<close>

text \<open>
  Scheduling on an IO manager writes a byte to its pipe exactly if the queue was empty and
  \<^emph>\<open>no\<close> thread is idle. The threads that wait in \<^verbatim>\<open>epoll_wait\<close> are the idle ones, so the
  wake-up is sent only when there is nobody to wake: a task given to a manager whose threads all
  wait is not seen before the time-out.
\<close>
theorem tickle_wakes_nobody:
  assumes "scheds m a = Some s" and "pipes m a = Some n"
  shows "\<exists>m'. schedule_at 1 (Some a) fc m = Inr m' \<and>
    pipes m' a = Some (if m_fibers s = [] \<and> \<not> hasIdleThreads s then Suc n else n)"
  using assms
  by (auto simp: schedule_at_def tickle_at_def scheduleNoLock_def hasIdleThreads_def Let_def)

theorem tickle_wakes_nobody_witness:
  "\<exists>m'. schedule_at 1 (Some 0) (Callback (Some ''cb'')) demo_io = Inr m' \<and> pipes m' 0 = Some 1"
proof -
  obtain s where s: "scheds demo_io 0 = Some s" "pipes demo_io 0 = Some 0" "m_fibers s = []" "m_idleThreadCount s = 0"
    by (simp add: demo_io_def demo_new_def IOManager_new_def Scheduler_new_def Scheduler_start_def
        contextResize_def epoll_ctl_def Let_def)
  from tickle_wakes_nobody [OF s(1,2), of "Callback (Some ''cb'')"] s(3,4) show ?thesis by (simp add: hasIdleThreads_def)
qed

text \<open>
  The idle loop of an IO manager is not left while an event is registered anywhere, even
  if the scheduler is stopping and its queue is empty.
\<close>
theorem idle_waits_for_events:
  assumes "io_inv m" and "fd_at m fd a" and "events_at m fd \<noteq> 0"
  shows "IOManager_idle 1 [] m = Inr (False, m)"
proof -
  let ?c = "ctxs m ! a"
  from assms(2) have i: "nat fd < length (m_fdContexts m)" "m_fdContexts m ! nat fd = a" and fd: "fd < int (length (m_fdContexts m))"
    by (auto simp: fd_at_def)
  note ctx = io_inv_ctx [OF assms(1) i(1), unfolded i(2)]
  have nn: "0 \<le> live_count c" for c :: "'a fd_context" by (simp add: live_count_def)
  have "fc_events ?c \<noteq> 0" using assms(3) fd i(2) by (simp add: events_at_def)
  moreover have "fc_events ?c = 0 \<or> fc_events ?c = 1 \<or> fc_events ?c = 4 \<or> fc_events ?c = 5"
    using ctx(1) by (auto simp: ctx_ok_def)
  ultimately have pos: "0 < live_count ?c" by (auto simp: live_count_def event_defs)
  have "live_count ?c \<le> sum_list (map live_count (ctxs m))"
    by (rule member_le_sum_list) (use ctx(3) nn in auto)
  with pos assms(1) have "m_pendingEventCount m \<noteq> 0" by (auto simp: io_inv_def)
  then show ?thesis by (simp add: IOManager_idle_def IOManager_stopping_def)
qed

theorem idle_waits_for_events_witness:
  "\<exists>m1. addEvent 0 (Some 0) (1, EXEC) 7 READ (Some ''cb'') demo_io = Inr (0, m1) \<and> IOManager_idle 1 [] m1 = Inr (False, m1)"
proof -
  let ?a = "m_fdContexts demo_io ! 7"
  have f: "find_context 7 demo_io = Inr (Some ?a)" using found(1) [OF demo_io(6)] demo_io(7) by simp
  obtain m1 where m1: "addEvent_locked 0 (Some 0) (1, EXEC) 7 READ (Some ''cb'') ?a demo_io = Inr (0, m1)" "io_inv m1"
    "table_frame demo_io m1" "ctxs m1 = (ctxs demo_io)[?a := registered READ (new_slot 0 (1, EXEC) (Some ''cb'')) (ctxs demo_io ! ?a)]"
    using addEvent_locked_result [OF demo_io_inv demo_at(1), of READ 0 "(1, EXEC)" "Some ''cb''"] demo_io(3) demo_at(2) by auto
  have "?a < length (ctxs demo_io)" using io_inv_ctx(3) [OF demo_io_inv, of 7] demo_io(7) by simp
  then have "fc_events (ctxs m1 ! ?a) = READ" using demo_at(2) by (simp add: m1(4) registered_def)
  then have "events_at m1 7 \<noteq> 0" using m1(3) demo_io(7) by (simp add: events_at_def table_frame_def READ_def)
  moreover have "fd_at m1 7 ?a" using demo_at(1) m1(3) by (simp add: fd_at_def table_frame_def)
  ultimately have "IOManager_idle 1 [] m1 = Inr (False, m1)" using idle_waits_for_events [OF m1(2)] by blast
  with m1(1) f show ?thesis by (simp add: addEvent_def)
qed

section \<open>Two threads that both find the table too short\<close>

text \<open>
  The table can shrink. \<^verbatim>\<open>addEvent\<close> lets go of the read lock before it takes the write
  lock, and resizes to the size its own descriptor asks for. If two threads find the table too
  short, the one with the larger descriptor grows it and registers its event, and the other then
  cuts it back: the event stays registered in the kernel and pending, but neither
  \<^verbatim>\<open>delEvent\<close> nor \<^verbatim>\<open>cancelEvent\<close> finds it any more, whatever the kernel answers.
\<close>
theorem resize_race_strands_event:
  assumes "io_inv m" and "user_fd m fa" and "user_fd m fb" and "int (length (m_fdContexts m)) \<le> fa"
    and "fa * 3 div 2 \<le> fb" and "io_event ev" and "scheds m s \<noteq> None" and "snd this = EXEC"
  shows "find_context fa m = Inr None \<and> find_context fb m = Inr None \<and>
    (\<exists>a m1 m2 a' m3. addEvent_grow fb m = Inr (a, m1) \<and>
      addEvent_locked 0 (Some s) this fb ev cb a m1 = Inr (0, m2) \<and> addEvent_grow fa m2 = Inr (a', m3) \<and>
      interest m3 fb \<noteq> None \<and> 0 < m_pendingEventCount m3 \<and>
      (\<forall>rt. delEvent rt fb ev m3 = Inr (False, m3) \<and> cancelEvent 1 rt fb ev m3 = Inr (False, m3)))"
proof -
  have ev: "ev = READ \<or> ev = WRITE" using assms(6) by (simp add: io_event_def)
  have len: "32 \<le> length (m_fdContexts m)" using assms(1) by (simp add: io_inv_def table_ok_def)
  have lb: "\<not> fb < int (length (m_fdContexts m))" and la: "\<not> fa < int (length (m_fdContexts m))" and fa: "32 \<le> fa"
    using assms(4,5) len by linarith+
  obtain a m1 where m1: "addEvent_grow fb m = Inr (a, m1)" "io_inv m1" "fd_at m1 fb a" "fc_events (ctxs m1 ! a) = 0" "scheds m1 = scheds m"
    using addEvent_grow_result [OF assms(1,3) lb] by blast
  obtain m2 where m2: "addEvent_locked 0 (Some s) this fb ev cb a m1 = Inr (0, m2)" "io_inv m2" "table_frame m1 m2"
    "ctxs m2 = (ctxs m1)[a := registered ev (new_slot s this cb) (ctxs m1 ! a)]"
    using addEvent_locked_result [OF m1(2,3) ev _ assms(8), of s cb] m1(4,5) assms(7) by auto
  have at2: "fd_at m2 fb a" using m1(3) m2(3) by (simp add: fd_at_def table_frame_def)
  then have i: "nat fb < length (m_fdContexts m2)" "m_fdContexts m2 ! nat fb = a" "int (nat fb) = fb" "int (nat fb) \<noteq> fst (m_tickleFds m2)"
    by (auto simp: fd_at_def)
  note ctx = io_inv_ctx [OF m2(2) i(1), unfolded i(2,3)]
  have "a < length (ctxs m1)" using ctx(3) m2(4) by simp
  then have evs: "fc_events (ctxs m2 ! a) = ev" using m1(4) by (simp add: m2(4) registered_def)
  with ev have nz: "fc_events (ctxs m2 ! a) \<noteq> 0" by (auto simp: event_defs)
  from m2(2) i have "mirrored a (ctxs m2 ! a) (interest m2)" unfolding io_inv_def kernel_ok_def by blast
  with nz ctx(2) have ker: "interest m2 fb \<noteq> None" by (simp add: mirrored_def)
  have nn: "0 \<le> live_count c" for c :: "'a fd_context" by (simp add: live_count_def)
  have "live_count (ctxs m2 ! a) \<le> sum_list (map live_count (ctxs m2))"
    by (rule member_le_sum_list) (use ctx(3) nn in auto)
  moreover have "0 < live_count (ctxs m2 ! a)" using evs ev by (auto simp: live_count_def event_defs)
  ultimately have pend: "0 < m_pendingEventCount m2" using m2(2) by (simp add: io_inv_def)
  let ?n = "nat (fa * 3 div 2)" let ?m3 = "contextResize ?n m2"
  have n3: "length (m_fdContexts ?m3) = ?n" by (simp add: contextResize_def Let_def)
  have g: "addEvent_grow fa m2 = Inr (m_fdContexts ?m3 ! nat fa, ?m3)"
  proof -
    have "nat fa < ?n" using fa by linarith
    with n3 show ?thesis by (simp add: addEvent_grow_def Let_def)
  qed
  have nf: "find_context fb ?m3 = Inr None" using n3 assms(5) fa by (simp add: find_context_def)
  have rest: "interest ?m3 = interest m2" "m_pendingEventCount ?m3 = m_pendingEventCount m2"
    by (simp_all add: contextResize_def Let_def)
  have "delEvent rt fb ev ?m3 = Inr (False, ?m3) \<and> cancelEvent 1 rt fb ev ?m3 = Inr (False, ?m3)" for rt
    using nf by (simp add: delEvent_def cancelEvent_def)
  then show ?thesis using not_found [OF la] not_found [OF lb] m1(1) m2(1) g ker pend rest by metis
qed

theorem resize_race_strands_event_witness:
  "\<exists>a m1 m2 a' m3. addEvent_grow 100 demo_io = Inr (a, m1) \<and>
      addEvent_locked 0 (Some 0) (1, EXEC) 100 READ (Some ''cb'') a m1 = Inr (0, m2) \<and> addEvent_grow 40 m2 = Inr (a', m3) \<and>
      interest m3 100 \<noteq> None \<and> cancelEvent 1 0 100 READ m3 = Inr (False, m3)"
proof -
  have u: "user_fd demo_io 100" "fst (m_tickleFds demo_io) = 4"
    by (simp_all add: user_fd_def demo_io_def demo_new_def IOManager_new_def Scheduler_new_def Scheduler_start_def
        contextResize_def epoll_ctl_def Let_def)
  have "int (length (m_fdContexts demo_io)) \<le> 40" "(40 :: int) * 3 div 2 \<le> 100" "io_event READ" "snd (1 :: nat, EXEC) = EXEC"
    using demo_io(7) by (simp_all add: io_event_def)
  from resize_race_strands_event [OF demo_io_inv demo_io(2) u(1) this(1,2,3) demo_io(3) this(4), of "Some ''cb''"]
  show ?thesis by blast
qed

end
