(* ===== verification/IO_Spec.thy ===== *)
theory IO_Spec
  imports IOManagers
begin

unbundle bit_operations_syntax

text \<open>
  What an \<^verbatim>\<open>IOManager\<close> promises, without tables, bit sets and kernel lists: for every
  descriptor and event at most one subscription, a scheduler with the task it will get, and the
  queues of the schedulers. The operations of \<open>IOManagers\<close> are shown to implement the operations
  on subscriptions, result by result, through an abstraction function.
\<close>

section \<open>Subscriptions\<close>

record 'cb io_spec =
  subs :: "int \<Rightarrow> event \<Rightarrow> (nat \<times> 'cb task) option"
  ready_tasks :: "nat \<Rightarrow> 'cb task list"

definition spec_fire :: "int \<Rightarrow> event \<Rightarrow> 'cb io_spec \<Rightarrow> 'cb io_spec" where
  "spec_fire fd ev \<sigma> =
    (case subs \<sigma> fd ev of
       None \<Rightarrow> \<sigma>
     | Some (s, t) \<Rightarrow> \<lparr>subs = (subs \<sigma>)(fd := (subs \<sigma> fd)(ev := None)),
                       ready_tasks = (ready_tasks \<sigma>)(s := ready_tasks \<sigma> s @ [t])\<rparr>)"

definition wait_task :: "nat \<times> State \<Rightarrow> 'cb option \<Rightarrow> 'cb task" where
  "wait_task this cb = \<lparr>ft_fiber = (if cb = None then Some (fst this) else None), ft_cb = cb, ft_thread = -1\<rparr>"

fun spec_do :: "'cb io_op \<Rightarrow> 'cb io_spec \<Rightarrow> int \<times> 'cb io_spec" where
  "spec_do (IO_Add rt cur this fd ev cb) \<sigma> =
     (if rt \<noteq> 0 then (-1, \<sigma>)
      else (0, \<sigma>\<lparr>subs := (subs \<sigma>)(fd := (subs \<sigma> fd)(ev \<mapsto> (the cur, wait_task this cb)))\<rparr>))"
| "spec_do (IO_Del rt fd ev) \<sigma> =
     (if rt \<noteq> 0 \<or> subs \<sigma> fd ev = None then (0, \<sigma>)
      else (1, \<sigma>\<lparr>subs := (subs \<sigma>)(fd := (subs \<sigma> fd)(ev := None))\<rparr>))"
| "spec_do (IO_Cancel rt fd ev) \<sigma> =
     (if rt \<noteq> 0 \<or> subs \<sigma> fd ev = None then (0, \<sigma>) else (1, spec_fire fd ev \<sigma>))"
| "spec_do (IO_CancelAll rt fd) \<sigma> =
     (if rt \<noteq> 0 \<or> subs \<sigma> fd READ = None \<and> subs \<sigma> fd WRITE = None then (0, \<sigma>)
      else (1, spec_fire fd WRITE (spec_fire fd READ \<sigma>)))"
| "spec_do (IO_Event rt evs fd) \<sigma> =
     (0, if rt \<noteq> 0 then \<sigma>
         else (let \<sigma>1 = (if real_events evs AND READ \<noteq> 0 then spec_fire fd READ \<sigma> else \<sigma>)
               in if real_events evs AND WRITE \<noteq> 0 then spec_fire fd WRITE \<sigma>1 else \<sigma>1))"
| "spec_do IO_Tickled \<sigma> = (0, \<sigma>)"

section \<open>The operations with their results\<close>

fun io_call :: "'cb io_op \<Rightarrow> 'cb iomanager \<Rightarrow> (int \<times> 'cb iomanager) res" where
  "io_call (IO_Add rt cur this fd ev cb) m = addEvent rt cur this fd ev cb m"
| "io_call (IO_Del rt fd ev) m = bindR (delEvent rt fd ev m) (\<lambda>(b, m'). Inr (of_bool b, m'))"
| "io_call (IO_Cancel rt fd ev) m = bindR (cancelEvent 1 rt fd ev m) (\<lambda>(b, m'). Inr (of_bool b, m'))"
| "io_call (IO_CancelAll rt fd) m = bindR (cancelAll 1 rt fd m) (\<lambda>(b, m'). Inr (of_bool b, m'))"
| "io_call (IO_Event rt evs fd) m = bindR (io_do (IO_Event rt evs fd) m) (\<lambda>m'. Inr (0, m'))"
| "io_call IO_Tickled m = bindR (io_do IO_Tickled m) (\<lambda>m'. Inr (0, m'))"

lemma io_call_do: "forget (io_call op m) = io_do op m"
  by (cases op) (auto simp: forget_def bindR_def split: sum.splits)

section \<open>The abstraction\<close>

definition sub_of :: "'cb fd_context \<Rightarrow> event \<Rightarrow> (nat \<times> 'cb task) option" where
  "sub_of c ev =
    (if io_event ev \<and> fc_events c AND ev \<noteq> 0
     then map_option (\<lambda>s. (s, slot_task (slot ev c))) (ec_scheduler (slot ev c)) else None)"

definition io_abs :: "'cb iomanager \<Rightarrow> 'cb io_spec" where
  "io_abs m =
    \<lparr>subs = (\<lambda>fd. if user_fd m fd \<and> fd < int (length (m_fdContexts m))
                  then sub_of (ctxs m ! (m_fdContexts m ! nat fd)) else (\<lambda>_. None)),
     ready_tasks = queue_at m\<rparr>"

lemma ctx_events: "ctx_ok S c \<Longrightarrow> fc_events c = 0 \<or> fc_events c = 1 \<or> fc_events c = 4 \<or> fc_events c = 5"
  by (auto simp: ctx_ok_def)

lemma sub_of_registered:
  assumes "ctx_ok S c" "io_event ev"
  shows "sub_of (registered ev (new_slot s this cb) c) = (sub_of c)(ev \<mapsto> (s, wait_task this cb))"
proof
  fix e
  from ctx_events [OF assms(1)] assms(2)
  have bits: "(fc_events c OR ev) AND ev \<noteq> 0" "io_event e \<Longrightarrow> e \<noteq> ev \<Longrightarrow> (fc_events c OR ev) AND e = fc_events c AND e"
    unfolding io_event_def by (elim disjE; simp add: event_defs; fail)+
  have slots: "slot ev (registered ev x c) = x" "io_event e \<Longrightarrow> e \<noteq> ev \<Longrightarrow> slot e (registered ev x c) = slot e c" for x
    using assms(2) by (auto simp: registered_def slot_def putContext_def io_event_def)
  have evs: "fc_events (registered ev x c) = fc_events c OR ev" for x by (simp add: registered_def)
  show "sub_of (registered ev (new_slot s this cb) c) e = ((sub_of c)(ev \<mapsto> (s, wait_task this cb))) e"
  proof (cases "e = ev")
    case True
    then show ?thesis using bits(1) slots(1) assms(2) by (simp add: sub_of_def evs new_slot_def slot_task_def wait_task_def)
  next
    case False
    then show ?thesis using bits(2) slots(2) by (cases "io_event e") (simp_all add: sub_of_def evs)
  qed
qed

lemma sub_of_cleared:
  assumes "ctx_ok S c" "io_event ev"
  shows "sub_of (cleared ev c) = (sub_of c)(ev := None)"
proof
  fix e
  from ctx_events [OF assms(1)] assms(2)
  have bits: "fc_events c AND NOT ev AND ev = 0" "io_event e \<Longrightarrow> e \<noteq> ev \<Longrightarrow> fc_events c AND NOT ev AND e = fc_events c AND e"
    unfolding io_event_def by (elim disjE; simp add: event_defs; fail)+
  have slots: "io_event e \<Longrightarrow> e \<noteq> ev \<Longrightarrow> slot e (cleared ev c) = slot e c"
    using assms(2) by (auto simp: cleared_def slot_def putContext_def io_event_def)
  show "sub_of (cleared ev c) e = ((sub_of c)(ev := None)) e"
    using bits slots by (auto simp: sub_of_def cleared_def [of ev c] and.assoc)
qed

lemma sub_of_clear_both:
  assumes "ctx_ok S c"
  shows "sub_of (clear_both r w c) = (sub_of c)(READ := if r then None else sub_of c READ, WRITE := if w then None else sub_of c WRITE)"
proof -
  have "ctx_ok S (cleared READ c)" using ctx_ok_cleared(1) [OF assms] by simp
  then show ?thesis using sub_of_cleared [OF assms] sub_of_cleared [of S "cleared READ c" WRITE]
    by (auto simp: clear_both_def io_event_def Let_def fun_upd_idem)
qed

lemma sub_of_new [simp]: "sub_of (FdContext_new i) ev = None"
  by (simp add: sub_of_def FdContext_new_def NONE_def)

lemma sub_of_live:
  assumes "ctx_ok S c" "io_event ev"
  shows "sub_of c ev = None \<longleftrightarrow> fc_events c AND ev = 0"
proof -
  have "slot_ok S (fc_events c AND ev \<noteq> 0) (slot ev c)"
    using assms by (auto simp: ctx_ok_def io_event_def slot_def)
  then show ?thesis using assms(2) by (auto simp: sub_of_def slot_ok_def)
qed

lemma fire_sub: "io_event ev \<Longrightarrow> fire ev c q = (case sub_of c ev of None \<Rightarrow> q | Some (s, t) \<Rightarrow> q(s := q s @ [t]))"
  by (simp add: fire_def sub_of_def split: option.split)

lemma io_abs_update:
  assumes inv: "io_inv m" and at: "fd_at m fd a" and frame: "table_frame m m'" and new: "ctxs m' = (ctxs m)[a := c]"
  shows "subs (io_abs m') = (subs (io_abs m))(fd := sub_of c)"
proof
  fix g
  have fr: "m_fdContexts m' = m_fdContexts m" "user_fd m' g = user_fd m g"
    using frame by (simp_all add: table_frame_def user_fd_def)
  have i: "nat fd < length (m_fdContexts m)" "m_fdContexts m ! nat fd = a" "int (nat fd) = fd"
    using at by (auto simp: fd_at_def)
  note ctx = io_inv_ctx [OF inv i(1), unfolded i(2,3)]
  show "subs (io_abs m') g = ((subs (io_abs m))(fd := sub_of c)) g"
  proof (cases "user_fd m g \<and> g < int (length (m_fdContexts m))")
    case True
    then have g: "nat g < length (m_fdContexts m)" "int (nat g) = g" by (auto simp: user_fd_def)
    have "m_fdContexts m ! nat g \<noteq> a" if "g \<noteq> fd"
      using io_inv_ctx(2) [OF inv g(1)] ctx(2) g(2) that by auto
    with True i ctx(3) show ?thesis by (auto simp: io_abs_def fr new)
  next
    case False
    with at have "g \<noteq> fd" by (auto simp: fd_at_def user_fd_def)
    with False show ?thesis by (auto simp: io_abs_def fr)
  qed
qed

lemma io_abs_at: "user_fd m fd \<Longrightarrow> fd < int (length (m_fdContexts m)) \<Longrightarrow> subs (io_abs m) fd = sub_of (ctxs m ! (m_fdContexts m ! nat fd))"
  by (simp add: io_abs_def)

lemma io_abs_outside: "\<not> fd < int (length (m_fdContexts m)) \<Longrightarrow> subs (io_abs m) fd = (\<lambda>_. None)"
  by (simp add: io_abs_def)

lemma ready_abs [simp]: "ready_tasks (io_abs m) = queue_at m"
  by (simp add: io_abs_def)

lemma io_spec_eqI: "subs a = subs b \<Longrightarrow> ready_tasks a = ready_tasks b \<Longrightarrow> a = (b :: 'cb io_spec)"
  by (cases a; cases b) simp

lemma io_abs_resize:
  assumes inv: "io_inv m" and n: "length (m_fdContexts m) \<le> n"
  shows "io_abs (contextResize n m) = io_abs m"
proof -
  note grow = contextResize_grow [OF assms]
  have rest: "m_tickleFds (contextResize n m) = m_tickleFds m" "queue_at (contextResize n m) = queue_at m"
    by (simp_all add: contextResize_def Let_def queue_at_def fun_eq_iff)
  have old: "ctxs (contextResize n m) ! a = ctxs m ! a" if "a < length (ctxs m)" for a
    using that by (simp add: contextResize_def Let_def nth_append)
  have "subs (io_abs (contextResize n m)) fd = subs (io_abs m) fd" for fd
  proof (cases "0 \<le> fd \<and> fd < int n")
    case bounds: True
    then have fd: "nat fd < n" "int (nat fd) = fd" by auto
    show ?thesis
    proof (cases "fd < int (length (m_fdContexts m))")
      case True
      with fd(2) have "nat fd < length (m_fdContexts m)" by linarith
      with True bounds grow(2,3) io_inv_ctx(3) [OF inv this] old rest(1) show ?thesis by (simp add: io_abs_def user_fd_def)
    next
      case False
      then have "length (m_fdContexts m) \<le> nat fd" by linarith
      then have "ctxs (contextResize n m) ! (m_fdContexts (contextResize n m) ! nat fd) = FdContext_new (int (nat fd))"
        using fd(1) by (rule grow(4))
      then show ?thesis using False by (simp add: io_abs_def fun_eq_iff)
    qed
  qed (use n grow(2) in \<open>auto simp: io_abs_def user_fd_def\<close>)
  then show ?thesis by (intro io_spec_eqI) (simp_all add: rest fun_eq_iff)
qed


section \<open>Every operation implements its abstract counterpart\<close>

definition implements :: "'cb io_op \<Rightarrow> 'cb iomanager \<Rightarrow> bool" where
  "implements op m \<longleftrightarrow>
    (\<exists>r m'. io_call op m = Inr (r, m') \<and> (r, io_abs m') = spec_do op (io_abs m))"

lemma addEvent_locked_implements:
  assumes inv: "io_inv m" and at: "fd_at m fd a" and ev: "io_event ev" and s: "s \<in> dom (scheds m)"
    and exec: "snd this = EXEC" and free: "fc_events (ctxs m ! a) AND ev = 0"
  shows "\<exists>r m'. addEvent_locked rt (Some s) this fd ev cb a m = Inr (r, m') \<and>
    (r, io_abs m') = spec_do (IO_Add rt (Some s) this fd ev cb) (io_abs m)"
proof (cases "rt = 0")
  case True
  obtain m' where m': "addEvent_locked 0 (Some s) this fd ev cb a m = Inr (0, m')" "table_frame m m'"
    "ctxs m' = (ctxs m)[a := registered ev (new_slot s this cb) (ctxs m ! a)]" "queue_at m' = queue_at m"
    using addEvent_locked_result [OF inv at _ s exec free, of cb] ev by (auto simp: io_event_def)
  have i: "nat fd < length (m_fdContexts m)" "m_fdContexts m ! nat fd = a" "user_fd m fd" "fd < int (length (m_fdContexts m))"
    using at by (auto simp: fd_at_def user_fd_def)
  note ctx = io_inv_ctx [OF inv i(1), unfolded i(2)]
  have "io_abs m' = (io_abs m)\<lparr>subs := (subs (io_abs m))(fd := (subs (io_abs m) fd)(ev \<mapsto> (s, wait_task this cb)))\<rparr>"
    using io_abs_update [OF inv at m'(2,3)] sub_of_registered [OF ctx(1) ev] io_abs_at [OF i(3,4)] i(2) m'(4)
    by (intro io_spec_eqI) simp_all
  with m'(1) True show ?thesis by simp
next
  case False
  with free show ?thesis by (simp add: addEvent_locked_other(2))
qed

lemma implements_Add:
  assumes inv: "io_inv m" and ok: "io_allowed (IO_Add rt cur this fd ev cb) m"
  shows "implements (IO_Add rt cur this fd ev cb) m"
proof -
  from ok obtain s where s: "user_fd m fd" "io_event ev" "snd this = EXEC" "events_at m fd AND ev = 0"
    "cur = Some s" "s \<in> dom (scheds m)" by (auto split: option.splits)
  show ?thesis
  proof (cases "fd < int (length (m_fdContexts m))")
    case True
    note f = found [OF s(1) True]
    from addEvent_locked_implements [OF inv f(2) s(2,6,3), of rt cb] s f show ?thesis
      by (simp add: implements_def addEvent_def)
  next
    case False
    obtain a m1 where g: "addEvent_grow fd m = Inr (a, m1)" "io_inv m1" "fd_at m1 fd a" "fc_events (ctxs m1 ! a) = 0"
      "scheds m1 = scheds m" using addEvent_grow_result [OF inv s(1) False] by blast
    have n: "length (m_fdContexts m) \<le> nat (fd * 3 div 2)"
      using False inv by (simp add: io_inv_def table_ok_def)
    have "io_abs m1 = io_abs m"
      using g(1) io_abs_resize [OF inv n] by (auto simp: addEvent_grow_def Let_def split: if_splits)
    with addEvent_locked_implements [OF g(2,3) s(2) _ s(3), of s rt cb] s g not_found [OF False] show ?thesis
      by (simp add: implements_def addEvent_def)
  qed
qed

text \<open>What clearing and firing some events of one descriptor is, abstractly.\<close>

lemma spec_fire_abs:
  assumes inv: "io_inv m" and at: "fd_at m fd a" and frame: "table_frame m m'"
    and new: "ctxs m' = (ctxs m)[a := clear_both r w (ctxs m ! a)]"
    and queue: "queue_at m' = fire_both r w (ctxs m ! a) (queue_at m)"
  shows "io_abs m' = (let \<sigma> = (if r then spec_fire fd READ (io_abs m) else io_abs m) in if w then spec_fire fd WRITE \<sigma> else \<sigma>)"
proof -
  let ?c = "ctxs m ! a"
  have i: "nat fd < length (m_fdContexts m)" "m_fdContexts m ! nat fd = a" "user_fd m fd" "fd < int (length (m_fdContexts m))"
    using at by (auto simp: fd_at_def user_fd_def)
  note ctx = io_inv_ctx [OF inv i(1), unfolded i(2)]
  have sub: "subs (io_abs m) fd = sub_of ?c" using io_abs_at [OF i(3,4)] i(2) by simp
  have ev: "io_event READ" "io_event WRITE" by (simp_all add: io_event_def)
  show ?thesis
    using io_abs_update [OF inv at frame new] queue
    by (intro io_spec_eqI)
      (auto simp: sub_of_clear_both [OF ctx(1)] fire_both_def fire_sub [OF ev(1)] fire_sub [OF ev(2)] spec_fire_def sub Let_def
        fun_upd_idem split: option.split)
qed


lemma implements_Del:
  assumes inv: "io_inv m" and ok: "io_allowed (IO_Del rt fd ev) m"
  shows "implements (IO_Del rt fd ev) m"
proof -
  from ok have fd: "user_fd m fd" and ev: "io_event ev" by auto
  show ?thesis
  proof (cases "fd < int (length (m_fdContexts m))")
    case True
    note f = found [OF fd True]
    have i: "nat fd < length (m_fdContexts m)" using f(2) by (auto simp: fd_at_def)
    note ctx = io_inv_ctx [OF inv i]
    note sub = io_abs_at [OF fd True]
    show ?thesis
    proof (cases "rt = 0 \<and> events_at m fd AND ev \<noteq> 0")
      case True
      obtain m' where m': "delEvent_locked 0 fd ev (m_fdContexts m ! nat fd) m = Inr (True, m')" "table_frame m m'"
        "ctxs m' = (ctxs m)[m_fdContexts m ! nat fd := cleared ev (ctxs m ! (m_fdContexts m ! nat fd))]" "queue_at m' = queue_at m"
        using delEvent_locked_result [OF inv f(2)] True f(3) ev by (auto simp: io_event_def)
      have "io_abs m' = (io_abs m)\<lparr>subs := (subs (io_abs m))(fd := (subs (io_abs m) fd)(ev := None))\<rparr>"
        using io_abs_update [OF inv f(2) m'(2,3)] sub_of_cleared [OF ctx(1) ev] sub m'(4) by (intro io_spec_eqI) simp_all
      with m'(1) True f sub sub_of_live [OF ctx(1) ev] show ?thesis by (simp add: implements_def delEvent_def)
    next
      case False
      with f sub sub_of_live [OF ctx(1) ev] show ?thesis
        by (auto simp: implements_def delEvent_def delEvent_locked_def epoll_ctl_def Let_def)
    qed
  next
    case False
    with io_abs_outside [OF False] not_found [OF False] show ?thesis by (simp add: implements_def delEvent_def)
  qed
qed

lemma implements_Cancel:
  assumes inv: "io_inv m" and ok: "io_allowed (IO_Cancel rt fd ev) m"
  shows "implements (IO_Cancel rt fd ev) m"
proof -
  from ok have fd: "user_fd m fd" and ev: "io_event ev" by auto
  show ?thesis
  proof (cases "fd < int (length (m_fdContexts m))")
    case True
    note f = found [OF fd True]
    have i: "nat fd < length (m_fdContexts m)" using f(2) by (auto simp: fd_at_def)
    note ctx = io_inv_ctx [OF inv i]
    note sub = io_abs_at [OF fd True]
    show ?thesis
    proof (cases "rt = 0 \<and> events_at m fd AND ev \<noteq> 0")
      case True
      let ?c = "ctxs m ! (m_fdContexts m ! nat fd)"
      obtain m' where m': "cancelEvent_locked 1 0 fd ev (m_fdContexts m ! nat fd) m = Inr (True, m')" "table_frame m m'"
        "ctxs m' = (ctxs m)[m_fdContexts m ! nat fd := cleared ev ?c]" "queue_at m' = fire ev ?c (queue_at m)"
        using cancelEvent_locked_result [OF inv f(2)] True f(3) ev by (auto simp: io_event_def)
      have "clear_both (ev = READ) (ev = WRITE) ?c = cleared ev ?c" "fire_both (ev = READ) (ev = WRITE) ?c = fire ev ?c"
        using ev by (auto simp: io_event_def clear_both_def fire_both_def fun_eq_iff)
      then have "io_abs m' = spec_fire fd ev (io_abs m)"
        using spec_fire_abs [OF inv f(2) m'(2), of "ev = READ" "ev = WRITE"] m'(3,4) ev by (auto simp: io_event_def)
      with m'(1) True f sub sub_of_live [OF ctx(1) ev] show ?thesis by (simp add: implements_def cancelEvent_def)
    next
      case False
      with f sub sub_of_live [OF ctx(1) ev] show ?thesis
        by (auto simp: implements_def cancelEvent_def cancelEvent_locked_def epoll_ctl_def Let_def)
    qed
  next
    case False
    with io_abs_outside [OF False] not_found [OF False] show ?thesis by (simp add: implements_def cancelEvent_def)
  qed
qed

lemma implements_CancelAll:
  assumes inv: "io_inv m" and ok: "io_allowed (IO_CancelAll rt fd) m"
  shows "implements (IO_CancelAll rt fd) m"
proof -
  from ok have fd: "user_fd m fd" by simp
  show ?thesis
  proof (cases "fd < int (length (m_fdContexts m))")
    case True
    note f = found [OF fd True]
    let ?c = "ctxs m ! (m_fdContexts m ! nat fd)"
    have i: "nat fd < length (m_fdContexts m)" using f(2) by (auto simp: fd_at_def)
    note ctx = io_inv_ctx [OF inv i]
    have live: "sub_of ?c READ = None \<longleftrightarrow> fc_events ?c AND READ = 0" "sub_of ?c WRITE = None \<longleftrightarrow> fc_events ?c AND WRITE = 0"
      by (simp_all add: sub_of_live [OF ctx(1)] io_event_def)
    have none: "fc_events ?c = 0 \<longleftrightarrow> sub_of ?c READ = None \<and> sub_of ?c WRITE = None"
      unfolding live using ctx_events [OF ctx(1)] by (elim disjE) (simp_all add: event_defs)
    note sub = io_abs_at [OF fd True]
    show ?thesis
    proof (cases "rt = 0 \<and> events_at m fd \<noteq> 0")
      case True
      let ?r = "fc_events ?c AND READ \<noteq> 0" let ?w = "fc_events ?c AND WRITE \<noteq> 0"
      obtain m' where m': "cancelAll_locked 1 0 fd (m_fdContexts m ! nat fd) m = Inr (True, m')" "table_frame m m'"
        "ctxs m' = (ctxs m)[m_fdContexts m ! nat fd := clear_both ?r ?w ?c]" "queue_at m' = fire_both ?r ?w ?c (queue_at m)"
        using cancelAll_locked_result [OF inv f(2) _ refl refl] True f(3) by auto
      have skip: "\<not> ?r \<Longrightarrow> spec_fire fd READ (io_abs m) = io_abs m" "\<not> ?w \<Longrightarrow> spec_fire fd WRITE \<sigma> = \<sigma>"
        if "subs \<sigma> fd WRITE = sub_of ?c WRITE" for \<sigma>
        using live sub that by (simp_all add: spec_fire_def)
      have "subs (spec_fire fd READ (io_abs m)) fd WRITE = sub_of ?c WRITE"
        using sub by (simp add: spec_fire_def split: option.split)
      then have "io_abs m' = spec_fire fd WRITE (spec_fire fd READ (io_abs m))"
        using spec_fire_abs [OF inv f(2) m'(2-4)] skip by (auto simp: Let_def)
      with m'(1) True f sub none show ?thesis by (simp add: implements_def cancelAll_def)
    next
      case False
      with f sub none show ?thesis
        by (auto simp: implements_def cancelAll_def cancelAll_locked_def epoll_ctl_def Let_def)
    qed
  next
    case False
    with io_abs_outside [OF False] not_found [OF False] show ?thesis by (simp add: implements_def cancelAll_def)
  qed
qed

lemma implements_Event:
  assumes inv: "io_inv m" and ok: "io_allowed (IO_Event rt evs fd) m"
  shows "implements (IO_Event rt evs fd) m"
proof -
  from ok have fd: "user_fd m fd" by simp
  show ?thesis
  proof (cases "fd < int (length (m_fdContexts m))")
    case True
    note f = found [OF fd True]
    let ?c = "ctxs m ! (m_fdContexts m ! nat fd)"
    have i: "nat fd < length (m_fdContexts m)" using f(2) by (auto simp: fd_at_def)
    note ctx = io_inv_ctx [OF inv i]
    note sub = io_abs_at [OF fd True]
    let ?r = "real_events evs AND READ \<noteq> 0" let ?w = "real_events evs AND WRITE \<noteq> 0"
    show ?thesis
    proof (cases "rt = 0 \<and> events_at m fd AND real_events evs \<noteq> 0")
      case True
      then obtain m' where m': "idle_event 1 0 evs (m_fdContexts m ! nat fd) m = Inr m'" "table_frame m m'"
        "ctxs m' = (ctxs m)[m_fdContexts m ! nat fd := clear_both ?r ?w ?c]" "queue_at m' = fire_both ?r ?w ?c (queue_at m)"
        using idle_event_fires [OF inv f(2) _ _ refl refl, of evs] f(3) ok by auto
      with True f spec_fire_abs [OF inv f(2) m'(2-4)] show ?thesis by (simp add: implements_def Let_def)
    next
      case False
      have dead: "?r \<Longrightarrow> rt = 0 \<Longrightarrow> fc_events ?c AND READ = 0" "?w \<Longrightarrow> rt = 0 \<Longrightarrow> fc_events ?c AND WRITE = 0"
        using False f(3) ctx_events [OF ctx(1)] real_events_bits(2) [of evs] by (elim disjE; simp add: event_defs)+
      have "sub_of ?c READ = None \<longleftrightarrow> fc_events ?c AND READ = 0" "sub_of ?c WRITE = None \<longleftrightarrow> fc_events ?c AND WRITE = 0"
        by (simp_all add: sub_of_live [OF ctx(1)] io_event_def)
      with dead sub have "spec_do (IO_Event rt evs fd) (io_abs m) = (0, io_abs m)"
        by (auto simp: spec_fire_def Let_def)
      with False f show ?thesis by (auto simp: implements_def idle_event_def epoll_ctl_def NONE_def Let_def)
    qed
  next
    case False
    with io_abs_outside [OF False] not_found [OF False] show ?thesis
      by (simp add: implements_def spec_fire_def Let_def)
  qed
qed

lemma implements_Tickled:
  assumes inv: "io_inv m" and ok: "io_allowed (IO_Tickled) m"
  shows "implements (IO_Tickled) m"
proof -
  have "io_abs (m\<lparr>pipes := p\<rparr>) = io_abs m" for p by (simp add: io_abs_def user_fd_def queue_at_def fun_eq_iff)
  then show ?thesis by (simp add: implements_def)
qed

lemma io_implements: "io_inv m \<Longrightarrow> io_allowed op m \<Longrightarrow> implements op m"
  by (cases op) (simp_all only: simp_thms implements_Add implements_Del implements_Cancel implements_CancelAll implements_Event implements_Tickled)

lemma call_abort:
  assumes "io_inv m" "io_called op m" "io_aborts op m"
  shows "\<exists>e. io_call op m = Inl (Assertion e)"
proof -
  have "forget r = Inl e \<longleftrightarrow> r = Inl e" for r :: "(int \<times> 'a iomanager) res" and e
    by (cases r) (auto simp: forget_def)
  with io_abort [OF assms] show ?thesis by (simp only: io_call_do [of op m, symmetric])
qed

text \<open>
  C4. The manager refines the subscriptions. From construction on, in every sequence of calls by
  threads of a scheduler and of reports of the kernel, each operation returns what the operation on
  subscriptions returns and leaves a table that stands for the subscriptions it leaves: adding makes
  one subscription (or none, and -1, if the kernel refuses), deleting removes it, cancelling moves its
  task to the end of its scheduler's queue, \<^verbatim>\<open>cancelAll\<close> and the kernel do so for reading
  first and then for writing; growing the table, the wake-up pipe and the order of registrations
  are invisible. In the two cases of \<open>io_aborts\<close>, a second subscription to the same event and a
  report of an event that is subscribed to together with one that is not, an assertion fails
  instead. At the start there is no subscription.
\<close>
theorem io_refines_subscriptions:
  assumes "IOManager_new addr others other_pipes epfd fds pipe_rt fcntl_rt ctl_rt threads use_caller name cur root tid tids = Inr m0"
    and "io_run m0 m" and "io_called op m"
  shows "(if io_aborts op m then \<exists>e. io_call op m = Inl (Assertion e)
      else \<exists>m'. io_call op m = Inr (fst (spec_do op (io_abs m)), m') \<and> io_abs m' = snd (spec_do op (io_abs m))) \<and>
    (\<forall>fd ev. subs (io_abs m0) fd ev = None)"
proof -
  have inv: "io_inv m" using assms(2) IOManager_new_inv [OF assms(1)] by (rule io_run_inv)
  have "\<exists>m'. io_call op m = Inr (fst (spec_do op (io_abs m)), m') \<and> io_abs m' = snd (spec_do op (io_abs m))"
    if fine: "\<not> io_aborts op m"
  proof -
    obtain r m' where "io_call op m = Inr (r, m')" "(r, io_abs m') = spec_do op (io_abs m)"
      using io_implements [OF inv, of op] assms(3) fine by (auto simp: implements_def)
    then show ?thesis by (metis fst_conv snd_conv)
  qed
  moreover have "subs (io_abs m0) fd ev = None" for fd ev
    using IOManager_new_table(1,2) [OF assms(1)] by (simp add: io_abs_def user_fd_def nat_less_iff)
  ultimately show ?thesis using call_abort [OF inv assms(3)] by presburger
qed

theorem io_refines_subscriptions_witness:
  "\<exists>m. io_call (IO_Add 0 (Some 0) (1, EXEC) 40 READ (Some ''cb'')) demo_io = Inr (0, m) \<and>
    subs (io_abs m) 40 READ = Some (0, \<lparr>ft_fiber = None, ft_cb = Some ''cb'', ft_thread = -1\<rparr>)"
proof -
  have "io_called (IO_Add 0 (Some 0) (1, EXEC) 40 READ (Some ''cb'')) demo_io"
    "\<not> io_aborts (IO_Add 0 (Some 0) (1, EXEC) 40 READ (Some ''cb'')) demo_io"
    using demo_io(2,3,4) by (auto simp: io_event_def)
  with io_refines_subscriptions [OF demo_io(1) [unfolded demo_new_def] io_start this(1)] show ?thesis
    by (auto simp: wait_task_def)
qed

end
