(* ===== verification/Scheduler_Progress.thy ===== *)
theory Scheduler_Progress
  imports Schedulers
begin

text \<open>
  Progress of the pool of \<open>Schedulers\<close>: from any state a disciplined run reaches, one worker by
  itself empties the queue. It takes the tasks in their order, five steps each (take, dispatch,
  the end of the fiber, the switch back, the look at its state), whatever the other workers are doing or not doing.
\<close>

section \<open>One task\<close>

definition round_ops :: "int \<Rightarrow> 'cb pool_op list" where
  "round_ops w = [P_Take w, P_Dispatch w, P_Leave w TERM', P_Return w, P_Settle w]"

definition drain_ops :: "int \<Rightarrow> nat \<Rightarrow> 'cb pool_op list" where
  "drain_ops w n = concat (replicate n (round_ops w))"

text \<open>A task that is run when it is dispatched: a callback, or a fiber that has not ended.\<close>

definition alive :: "(nat \<Rightarrow> State) \<Rightarrow> 'cb task \<Rightarrow> bool" where
  "alive st t \<longleftrightarrow> ft_cb t \<noteq> None \<or> (\<exists>f. ft_fiber t = Some f \<and> st f \<notin> {TERM', EXCEPT})"

text \<open>The tasks whose dispatch put worker \<open>w\<close> on a fiber's stack, in the order of the run.\<close>

fun served :: "int \<Rightarrow> 'cb pool_op list \<Rightarrow> 'cb pool \<Rightarrow> 'cb task list" where
  "served w [] p = []"
| "served w (op # ops) p =
     (case pool_do op p of
        Inl e \<Rightarrow> []
      | Inr p' \<Rightarrow>
          (case wk p w of
             W_Took t \<Rightarrow> (case wk p' w of W_Run f b \<Rightarrow> [t] | _ \<Rightarrow> [])
           | _ \<Rightarrow> []) @ served w ops p')"

lemma pool_exec_append: "pool_exec (as @ bs) p = bindR (pool_exec as p) (pool_exec bs)"
  by (induction as arbitrary: p) (auto simp: bindR_def split: sum.splits)

lemma served_append:
  "pool_exec as p = Inr p' \<Longrightarrow> served w (as @ bs) p = served w as p @ served w bs p'"
  by (induction as arbitrary: p) auto

lemma pool_exec_ok:
  "\<forall>op \<in> set ops. \<forall>p. disciplined op p \<Longrightarrow> pool_ok p \<Longrightarrow> \<exists>p'. pool_exec ops p = Inr p' \<and> pool_ok p'"
proof (induction ops arbitrary: p)
  case (Cons op ops)
  then obtain p1 where "pool_do op p = Inr p1" "pool_ok p1" using pool_ok_step [of p op] by auto
  with Cons show ?case by auto
qed simp

lemma round_disciplined: "\<forall>op \<in> set (round_ops w). \<forall>p. disciplined op p"
  by (auto simp: round_ops_def)

text \<open>What a round may change of the fibers: the task's, the worker's own, a new one.\<close>

definition fibers_kept :: "int \<Rightarrow> nat option \<Rightarrow> 'cb pool \<Rightarrow> 'cb pool \<Rightarrow> bool" where
  "fibers_kept w fo p p' \<longleftrightarrow> nxt p \<le> nxt p' \<and> (cbf p' w = cbf p w \<or> cbf p' w = Some (nxt p)) \<and>
     (\<forall>g < nxt p. fo \<noteq> Some g \<longrightarrow> cbf p w \<noteq> Some g \<longrightarrow> fstate p' g = fstate p g)"

lemma queued_not_exec:
  assumes ok: "pool_ok p" and f: "f \<in> set (queued (m_fibers (sch p)))"
  shows "fstate p f \<noteq> EXEC"
proof
  assume "fstate p f = EXEC"
  then obtain v b where "wk p v = W_Run f b" using ok by (auto simp: pool_ok_def exec_inv_def)
  then have "has_fiber (wk p) (cbf p) v f" by (simp add: has_fiber_def)
  with pool_okD(2) [OF ok this] f show False by simp
qed

lemma pick_head:
  assumes ok: "pool_ok p" and q: "m_fibers (sch p) = t # q" and t: "for_thread w t"
  shows "pick w (fstate p) (m_fibers (sch p)) = Inr (Some t, q, False)"
proof -
  have "nonempty_task t" using ok q by (simp add: pool_ok_def)
  moreover have "fstate p f \<noteq> EXEC" if "ft_fiber t = Some f" for f
    using queued_not_exec [OF ok] q that by simp
  ultimately show ?thesis using t by (auto simp: q for_thread_def nonempty_task_def split: option.split)
qed

lemma round_result:
  assumes ok: "pool_ok p" and w: "wk p w = W_Loop" and q: "m_fibers (sch p) = t # q" and t: "for_thread w t"
  shows "\<exists>p'. pool_exec (round_ops w) p = Inr p' \<and> pool_ok p' \<and> wk p' w = W_Loop \<and> m_fibers (sch p') = q \<and>
    (\<forall>v. v \<noteq> w \<longrightarrow> wk p' v = wk p v) \<and> fibers_kept w (ft_fiber t) p p' \<and>
    served w (round_ops w) p = (if alive (fstate p) t then [t] else []) \<and>
    (\<forall>f. ft_fiber t = Some f \<and> ft_cb t = None \<longrightarrow> fstate p' f \<in> {TERM', EXCEPT})"
proof -
  obtain p' where p': "pool_exec (round_ops w) p = Inr p'" "pool_ok p'"
    using pool_exec_ok [OF round_disciplined ok] by blast
  note pick = pick_head [OF ok q t]
  have take: "run_take w p = Inr (set_wk w (W_Took t) (add_active 1 (p\<lparr>sch := (sch p)\<lparr>m_fibers := q\<rparr>\<rparr>)))"
    by (simp add: run_take_def pick Let_def)
  note steps = round_ops_def take run_dispatch_def run_cb_def run_return_def set_wk_def set_fstate_def add_active_def
    fibers_kept_def alive_def
  show ?thesis
  proof (cases "\<exists>f. ft_fiber t = Some f \<and> fstate p f \<notin> {TERM', EXCEPT}")
    case True
    then obtain f where f: "ft_fiber t = Some f" "fstate p f \<noteq> TERM'" "fstate p f \<noteq> EXCEPT" by auto
    have "fstate p f \<noteq> EXEC" using queued_not_exec [OF ok] q f(1) by simp
    with f p' w show ?thesis by (auto simp: steps Let_def)
  next
    case False
    then have disp: "run_dispatch w t r = run_cb w t r" if "fstate r = fstate p" for r
      using that by (auto simp: run_dispatch_def split: option.split)
    show ?thesis
    proof (cases "ft_cb t = None")
      case True
      with False p' w disp show ?thesis by (auto simp: steps)
    next
      case cb: False
      show ?thesis
      proof (cases "cbf p w")
        case None
        with cb False p' w disp show ?thesis by (auto simp: steps Let_def)
      next
        case (Some f)
        have "fstate p f \<in> {INIT, TERM', EXCEPT}" using pool_ok_wk [OF ok w] Some by simp
        with Some cb False p' w disp show ?thesis by (auto simp: steps Let_def)
      qed
    qed
  qed
qed


section \<open>The whole queue\<close>

lemma drain_ops_Suc: "drain_ops w (Suc n) = round_ops w @ drain_ops w n"
  by (simp add: drain_ops_def)

lemma drain_result:
  assumes "pool_ok p" "wk p w = W_Loop" "m_fibers (sch p) = q" "\<forall>t \<in> set q. for_thread w t"
  shows "\<exists>p'. pool_exec (drain_ops w (length q)) p = Inr p' \<and> pool_ok p' \<and> wk p' w = W_Loop \<and> m_fibers (sch p') = [] \<and>
    (\<forall>v. v \<noteq> w \<longrightarrow> wk p' v = wk p v) \<and> served w (drain_ops w (length q)) p = filter (alive (fstate p)) q \<and>
    (\<forall>g < nxt p. g \<notin> set (queued q) \<longrightarrow> cbf p w \<noteq> Some g \<longrightarrow> fstate p' g = fstate p g) \<and>
    (\<forall>t \<in> set q. \<forall>f. ft_fiber t = Some f \<and> ft_cb t = None \<longrightarrow> fstate p' f \<in> {TERM', EXCEPT})"
  using assms
proof (induction q arbitrary: p)
  case Nil
  then show ?case by (simp add: drain_ops_def)
next
  case (Cons t q)
  obtain p1 where p1: "pool_exec (round_ops w) p = Inr p1" "pool_ok p1" "wk p1 w = W_Loop" "m_fibers (sch p1) = q"
    "\<forall>v. v \<noteq> w \<longrightarrow> wk p1 v = wk p v" "fibers_kept w (ft_fiber t) p p1"
    "served w (round_ops w) p = (if alive (fstate p) t then [t] else [])"
    "\<forall>f. ft_fiber t = Some f \<and> ft_cb t = None \<longrightarrow> fstate p1 f \<in> {TERM', EXCEPT}"
    using round_result [OF Cons.prems(1,2,3)] Cons.prems(4) by auto
  obtain p' where p': "pool_exec (drain_ops w (length q)) p1 = Inr p'" "pool_ok p'" "wk p' w = W_Loop" "m_fibers (sch p') = []"
    "\<forall>v. v \<noteq> w \<longrightarrow> wk p' v = wk p1 v" "served w (drain_ops w (length q)) p1 = filter (alive (fstate p1)) q"
    "\<forall>g < nxt p1. g \<notin> set (queued q) \<longrightarrow> cbf p1 w \<noteq> Some g \<longrightarrow> fstate p' g = fstate p1 g"
    "\<forall>t \<in> set q. \<forall>f. ft_fiber t = Some f \<and> ft_cb t = None \<longrightarrow> fstate p' f \<in> {TERM', EXCEPT}"
    using Cons.IH [OF p1(2-4)] Cons.prems(4) by auto
  have occ: "distinct (queued (t # q))" "\<forall>f \<in> set (queued (t # q)). f < nxt p \<and> cbf p w \<noteq> Some f"
    using Cons.prems(1,3) by (auto simp: pool_ok_def occ_inv_def has_fiber_def simp del: queued_simps)
  have cbf1: "cbf p1 w \<noteq> Some g" if "g < nxt p" "cbf p w \<noteq> Some g" for g
    using p1(6) that by (auto simp: fibers_kept_def)
  have same: "fstate p' g = fstate p1 g" if "g < nxt p" "cbf p w \<noteq> Some g" "g \<notin> set (queued q)" for g
    using p'(7) p1(6) that cbf1 by (simp add: fibers_kept_def)
  have "alive (fstate p1) u = alive (fstate p) u" if u: "u \<in> set q" for u
  proof -
    have "fstate p1 f = fstate p f" if f: "ft_fiber u = Some f" for f
    proof -
      have "f \<in> set (queued q)" using u f by (force simp: queued_def map_filter_def)
      with occ have "f < nxt p" "cbf p w \<noteq> Some f" "ft_fiber t \<noteq> Some f" by (auto split: option.splits)
      with p1(6) show ?thesis by (simp add: fibers_kept_def)
    qed
    then show ?thesis by (auto simp: alive_def)
  qed
  then have "filter (alive (fstate p1)) q = filter (alive (fstate p)) q" by (rule filter_cong [OF refl])
  then have "served w (drain_ops w (length (t # q))) p = filter (alive (fstate p)) (t # q)"
    using p1(1,7) p'(6) by (simp add: drain_ops_Suc served_append)
  moreover have "pool_exec (drain_ops w (length (t # q))) p = Inr p'"
    using p1(1) p'(1) by (simp add: drain_ops_Suc pool_exec_append)
  moreover have "fstate p' f \<in> {TERM', EXCEPT}" if "ft_fiber t = Some f" "ft_cb t = None" for f
    using same [of f] p1(8) that occ by simp
  moreover have "fstate p' g = fstate p g" if "g < nxt p" "g \<notin> set (queued (t # q))" "cbf p w \<noteq> Some g" for g
    using same [of g] that p1(6) by (auto simp: fibers_kept_def split: option.splits)
  ultimately show ?case using p'(2-5,8) p1(5) by auto
qed



end
