(* ===== verification/Event_Delivery.thy ===== *)
theory Event_Delivery
  imports IO_Spec Scheduler_Progress
begin

unbundle bit_operations_syntax

text \<open>
  From the kernel to the running task: the manager of \<open>IOManagers\<close> and the pool of \<open>Schedulers\<close>
  that works for it, as one machine. The scheduler of the manager and that of the pool are one object: what
  the event operations put into its queue the workers find, and what the workers change the manager sees.
\<close>

text \<open>What \<^verbatim>\<open>triggerEvent\<close> hands to \<^verbatim>\<open>schedule\<close> for a task that waits.\<close>

definition offered :: "'cb task \<Rightarrow> 'cb fiber_or_cb" where
  "offered t = (case ft_cb t of Some c \<Rightarrow> CallbackRef (Some c) | None \<Rightarrow> FiberPtrRef (ft_fiber t))"

definition waiting_task :: "'cb task \<Rightarrow> bool" where
  "waiting_task t \<longleftrightarrow> ft_thread t = -1 \<and> nonempty_task t \<and> (ft_cb t = None \<or> ft_fiber t = None)"

lemma offered_task: "waiting_task t \<Longrightarrow> FiberAndThread_new (offered t) (-1) = t"
  by (cases t) (auto simp: waiting_task_def offered_def nonempty_task_def split: option.split)

lemma offered_fiber: "waiting_task t \<Longrightarrow> scheduled_fiber (offered t) = ft_fiber t"
  by (auto simp: waiting_task_def offered_def nonempty_task_def split: option.split)

lemma offered_queue:
  assumes "waiting_task t"
  shows "m_fibers (schedule tickle (offered t) (-1) s) = m_fibers s @ [t]"
  using assms offered_task [OF assms]
  by (auto simp: schedule_def scheduleNoLock_def tickle_def waiting_task_def nonempty_task_def Let_def)

text \<open>A subscription is for one of the two events, which is registered, and its task can wait.\<close>

lemma sub_waits:
  assumes inv: "io_inv m" and sub: "subs (io_abs m) fd ev = Some (a, t)"
  shows "waiting_task t \<and> io_event ev \<and> user_fd m fd \<and> events_at m fd AND ev \<noteq> 0"
proof -
  have fd: "user_fd m fd" "fd < int (length (m_fdContexts m))" using sub by (auto simp: io_abs_def split: if_splits)
  let ?c = "ctxs m ! (m_fdContexts m ! nat fd)"
  have c: "sub_of ?c ev = Some (a, t)" using sub io_abs_at [OF fd] by simp
  then have ev: "io_event ev" "fc_events ?c AND ev \<noteq> 0" and t: "t = slot_task (slot ev ?c)"
    by (auto simp: sub_of_def split: if_splits)
  have "nat fd < length (m_fdContexts m)" using fd by (auto simp: user_fd_def)
  from io_inv_ctx(1) [OF inv this] ev have "slot_ok (dom (scheds m)) True (slot ev ?c)"
    by (auto simp: ctx_ok_def io_event_def slot_def)
  then have "waiting_task t" by (auto simp: t slot_ok_def slot_task_def waiting_task_def nonempty_task_def)
  with ev fd found(3) [OF fd] show ?thesis by simp
qed

lemma event_fires:
  assumes inv: "io_inv m" and sub: "subs (io_abs m) fd ev = Some (a, t)" and evs: "real_events evs = ev"
  shows "\<exists>m'. io_call (IO_Event 0 evs fd) m = Inr (0, m') \<and> subs (io_abs m') fd ev = None \<and>
    queue_at m' a = queue_at m a @ [t]"
proof -
  note w = sub_waits [OF inv sub]
  have "ev AND NOT (events_at m fd) = 0"
  proof (cases "fd < int (length (m_fdContexts m))")
    case True
    have "nat fd < length (m_fdContexts m)" using True w by (auto simp: user_fd_def)
    from ctx_events [OF io_inv_ctx(1) [OF inv this]] w found(3) [OF _ True]
    show ?thesis unfolding io_event_def by (elim conjE disjE; simp add: event_defs)
  qed (use sub in \<open>simp add: io_abs_outside\<close>)
  with w evs have "io_allowed (IO_Event 0 evs fd) m" by simp
  then obtain r m' where m': "io_call (IO_Event 0 evs fd) m = Inr (r, m')"
    "(r, io_abs m') = spec_do (IO_Event 0 evs fd) (io_abs m)"
    using io_implements [OF inv, of "IO_Event 0 evs fd"] unfolding implements_def by blast
  have "spec_do (IO_Event 0 evs fd) (io_abs m) = (0, spec_fire fd ev (io_abs m))"
    using w evs by (auto simp: io_event_def event_defs)
  with m' have "r = 0" "io_abs m' = spec_fire fd ev (io_abs m)" by simp_all
  moreover have "queue_at m' a = ready_tasks (spec_fire fd ev (io_abs m)) a" using calculation(2) by (metis ready_abs)
  then have "queue_at m' a = queue_at m a @ [t]" using sub by (simp add: spec_fire_def)
  moreover have "subs (io_abs m') fd ev = None" using calculation(2) sub by (simp add: spec_fire_def)
  ultimately show ?thesis using m'(1) by (intro exI [of _ m']) (simp del: io_call.simps)
qed

section \<open>Manager and pool as one machine\<close>

record 'cb joint =
  jm :: "'cb iomanager"
  jp :: "'cb pool"

datatype 'cb joint_op = J_IO "'cb io_op" | J_Pool "'cb pool_op"

text \<open>
  A step of the pool. Its \<^verbatim>\<open>tickle\<close> is that of the manager, a byte for the pipe if no thread is
  idle, and so is the \<^verbatim>\<open>stopping\<close> its idle fibers look at.
\<close>

definition pool_seen :: "'cb pool \<Rightarrow> 'cb pool \<Rightarrow> 'cb iomanager \<Rightarrow> 'cb iomanager" where
  "pool_seen p p' m =
    (let n = (if hasIdleThreads (sch p) then 0 else tickles (sch p') - tickles (sch p)) in
     m\<lparr>scheds := (scheds m)(self m \<mapsto> sch p'), pipes := (pipes m)(self m := map_option (\<lambda>k. k + n) (pipes m (self m)))\<rparr>)"

definition idle_looks :: "'cb pool_op \<Rightarrow> 'cb iomanager \<Rightarrow> 'cb pool \<Rightarrow> 'cb pool \<Rightarrow> 'cb pool" where
  "idle_looks op m p p' =
    (case op of
       P_IdleBack w \<Rightarrow>
         if wk p w = W_Idle then p'\<lparr>idle_term := (idle_term p)(w := IOManager_stopping m m)\<rparr> else p'
     | _ \<Rightarrow> p')"

fun joint_do :: "'cb joint_op \<Rightarrow> 'cb joint \<Rightarrow> 'cb joint res" where
  "joint_do (J_IO op) j = bindR (io_do op (jm j)) (\<lambda>m. Inr \<lparr>jm = m, jp = (jp j)\<lparr>sch := the (scheds m (self m))\<rparr>\<rparr>)"
| "joint_do (J_Pool op) j = bindR (pool_do op (jp j)) (\<lambda>p.
     Inr \<lparr>jm = pool_seen (jp j) p (jm j), jp = idle_looks op (jm j) (jp j) p\<rparr>)"

fun joint_exec :: "'cb joint_op list \<Rightarrow> 'cb joint \<Rightarrow> 'cb joint res" where
  "joint_exec [] j = Inr j"
| "joint_exec (op # ops) j = bindR (joint_do op j) (joint_exec ops)"

text \<open>
  The discipline is that of the pool, for the event operations too: a fiber they hand over is with
  nobody else (not with the worker that is still leaving it, and not in the queue).
\<close>

definition handed_over :: "'cb joint \<Rightarrow> 'cb iomanager \<Rightarrow> nat list" where
  "handed_over j m = queued (drop (length (m_fibers (sch (jp j)))) (queue_at m (self m)))"

fun joint_allowed :: "'cb joint_op \<Rightarrow> 'cb joint \<Rightarrow> bool" where
  "joint_allowed (J_IO op) j =
    (io_called op (jm j) \<and>
     (case io_do op (jm j) of
        Inl e \<Rightarrow> True
      | Inr m \<Rightarrow> distinct (handed_over j m) \<and> (\<forall>f \<in> set (handed_over j m). f < nxt (jp j) \<and> \<not> owned (jp j) f)))"
| "joint_allowed (J_Pool op) j = disciplined op (jp j)"

definition joint_start :: "'cb iomanager \<Rightarrow> int set \<Rightarrow> nat \<Rightarrow> 'cb joint" where
  "joint_start m W n = \<lparr>jm = m, jp = pool_init (the (scheds m (self m))) W n\<rparr>"

inductive joint_run :: "'cb joint \<Rightarrow> 'cb joint \<Rightarrow> bool" for j0 where
  joint_begin: "joint_run j0 j0"
| joint_step: "joint_run j0 j \<Longrightarrow> joint_allowed op j \<Longrightarrow> joint_do op j = Inr j' \<Longrightarrow> joint_run j0 j'"

definition joint_ok :: "'cb joint \<Rightarrow> bool" where
  "joint_ok j \<longleftrightarrow> io_inv (jm j) \<and> pool_ok (jp j) \<and> scheds (jm j) (self (jm j)) = Some (sch (jp j))"

section \<open>What the event operations do to the queue\<close>

text \<open>The schedulers stay where they are.\<close>

definition same_home :: "'cb iomanager \<Rightarrow> 'cb iomanager \<Rightarrow> bool" where
  "same_home m m' \<longleftrightarrow> self m' = self m \<and> dom (scheds m') = dom (scheds m)"

lemma frame_home: "table_frame m m' \<Longrightarrow> same_home m m'"
  by (simp add: table_frame_def same_home_def)

lemma schedule_frame: "schedule_at wr p fc m = Inr m' \<Longrightarrow> table_frame m m'"
  using schedule_at_frame by blast

lemma trigger_frame: "triggerEvent wr ev a m = Inr m' \<Longrightarrow> table_frame m m'"
  by (auto simp: triggerEvent_def Let_def dest!: schedule_frame split: if_splits option.splits)

lemma frame_ctl_left [simp]:
  "table_frame (epoll_ctl rt op fd evs data m) m1 = table_frame m m1" "table_frame (add_pending d m) m1 = table_frame m m1"
  "table_frame (put_ctx a c m) m1 = table_frame m m1"
  by (simp_all add: table_frame_def epoll_ctl_def add_pending_def put_ctx_def)

lemma trigger_if_frame: "trigger_if wr b ev a m = Inr m' \<Longrightarrow> table_frame m m'"
  by (auto simp: trigger_if_def dest!: trigger_frame split: if_splits)

lemma trigger_pair_frame: "table_frame m m1 \<Longrightarrow> trigger_if wr b ev a m1 = Inr m2 \<Longrightarrow> table_frame m m2"
  using trigger_if_frame table_frame_trans by blast

lemma locked_frame:
  "addEvent_locked rt cur this fd ev cb a m = Inr (r, m') \<Longrightarrow> table_frame m m'"
  "delEvent_locked rt fd ev a m = Inr (b, m') \<Longrightarrow> table_frame m m'"
  "cancelEvent_locked wr rt fd ev a m = Inr (b, m') \<Longrightarrow> table_frame m m'"
  "cancelAll_locked wr rt fd a m = Inr (b, m') \<Longrightarrow> table_frame m m'"
  "idle_event wr rt evs a m = Inr m' \<Longrightarrow> table_frame m m'"
proof -
  show "addEvent_locked rt cur this fd ev cb a m = Inr (r, m') \<Longrightarrow> table_frame m m'"
    by (auto simp: addEvent_locked_def Let_def split: if_splits option.splits)
  show "delEvent_locked rt fd ev a m = Inr (b, m') \<Longrightarrow> table_frame m m'"
    by (auto simp: delEvent_locked_def Let_def split: if_splits)
  show "cancelEvent_locked wr rt fd ev a m = Inr (b, m') \<Longrightarrow> table_frame m m'"
    by (auto simp: cancelEvent_locked_def Let_def dest!: trigger_frame split: if_splits)
  show "cancelAll_locked wr rt fd a m = Inr (b, m') \<Longrightarrow> table_frame m m'"
    by (auto simp: cancelAll_locked_def Let_def dest!: trigger_if_frame elim: table_frame_trans split: if_splits)
  show "idle_event wr rt evs a m = Inr m' \<Longrightarrow> table_frame m m'"
    by (auto simp: idle_event_def Let_def dest!: trigger_if_frame elim: table_frame_trans split: if_splits)
qed

lemma grow_home: "table_frame (contextResize n m) m' \<Longrightarrow> same_home m m'"
  by (simp add: same_home_def table_frame_def contextResize_def Let_def)

lemma io_do_home: "io_do op m = Inr m' \<Longrightarrow> same_home m m'"
proof (cases op)
  case (IO_Add rt cur this fd ev cb)
  assume "io_do op m = Inr m'"
  with IO_Add show ?thesis
    by (auto simp: forget_def addEvent_def addEvent_grow_def Let_def dest!: locked_frame(1) intro: frame_home grow_home
        split: option.splits if_splits)
next
  case IO_Tickled
  assume "io_do op m = Inr m'"
  with IO_Tickled show ?thesis by (auto simp: same_home_def)
qed (auto simp: forget_def delEvent_def cancelEvent_def cancelAll_def same_home_def [of m m] intro: frame_home
      dest: locked_frame(2-5) split: option.splits)

text \<open>An operation only appends to a queue, and only tasks that waited.\<close>

definition waited :: "'cb io_spec \<Rightarrow> nat \<Rightarrow> 'cb task set" where
  "waited \<sigma> a = {t. \<exists>fd ev. subs \<sigma> fd ev = Some (a, t)}"

lemma spec_fire_appends:
  "\<exists>ts. ready_tasks (spec_fire fd ev \<sigma>) a = ready_tasks \<sigma> a @ ts \<and> set ts \<subseteq> waited \<sigma> a"
  "waited (spec_fire fd ev \<sigma>) a \<subseteq> waited \<sigma> a"
  by (auto simp: spec_fire_def waited_def split: option.splits if_splits)

definition appends :: "nat \<Rightarrow> 'cb io_spec \<Rightarrow> 'cb io_spec \<Rightarrow> bool" where
  "appends a \<sigma> \<sigma>' \<longleftrightarrow> (\<exists>ts. ready_tasks \<sigma>' a = ready_tasks \<sigma> a @ ts \<and> set ts \<subseteq> waited \<sigma> a)"

lemma appends_same: "ready_tasks \<sigma>' = ready_tasks \<sigma> \<Longrightarrow> appends a \<sigma> \<sigma>'"
  by (simp add: appends_def)

lemma appends_fire: "appends a \<sigma> (spec_fire fd ev \<sigma>)" "appends a \<sigma> (spec_fire fd ev' (spec_fire fd ev \<sigma>))"
proof -
  show one: "appends a \<sigma> (spec_fire fd ev \<sigma>)" for fd ev and \<sigma> :: "'b io_spec"
    using spec_fire_appends(1) by (simp add: appends_def)
  obtain ts us where "ready_tasks (spec_fire fd ev \<sigma>) a = ready_tasks \<sigma> a @ ts" "set ts \<subseteq> waited \<sigma> a"
    "ready_tasks (spec_fire fd ev' (spec_fire fd ev \<sigma>)) a = ready_tasks (spec_fire fd ev \<sigma>) a @ us"
    "set us \<subseteq> waited (spec_fire fd ev \<sigma>) a"
    using spec_fire_appends(1) by metis
  with spec_fire_appends(2) [of fd ev \<sigma> a] show "appends a \<sigma> (spec_fire fd ev' (spec_fire fd ev \<sigma>))"
    unfolding appends_def by (intro exI [of _ "ts @ us"]) auto
qed

lemma spec_appends: "appends a \<sigma> (snd (spec_do op \<sigma>))"
  by (cases op) (auto simp: Let_def intro: appends_same appends_fire)

lemma io_do_queue:
  assumes inv: "io_inv m" and called: "io_called op m" and step: "io_do op m = Inr m'"
  shows "io_inv m' \<and> (\<exists>ts. queue_at m' a = queue_at m a @ ts \<and> (\<forall>t \<in> set ts. waiting_task t))"
proof -
  have fine: "\<not> io_aborts op m" using io_abort [OF inv called] step by auto
  then have inv': "io_inv m'" using io_inv_do [OF inv] called step by fastforce
  obtain r m1 where "io_call op m = Inr (r, m1)" and abs: "(r, io_abs m1) = spec_do op (io_abs m)"
    using io_implements [OF inv, of op] called fine by (auto simp: implements_def)
  moreover have "m1 = m'" using io_call_do [of op m] step calculation(1) by (simp add: forget_def)
  moreover have "appends a (io_abs m) (io_abs m1)" using spec_appends [of a "io_abs m" op] by (simp add: abs [symmetric])
  ultimately obtain ts where "queue_at m' a = queue_at m a @ ts" "set ts \<subseteq> waited (io_abs m) a" by (auto simp: appends_def)
  moreover have "waiting_task t" if "t \<in> waited (io_abs m) a" for t
    using that sub_waits [OF inv] by (auto simp: waited_def)
  ultimately show ?thesis using inv' by blast
qed

lemma pool_ok_append:
  assumes "pool_ok p" "m_fibers s = m_fibers (sch p) @ ts" "\<forall>t \<in> set ts. nonempty_task t" "distinct (queued ts)"
    "\<forall>f \<in> set (queued ts). f < nxt p \<and> \<not> owned p f"
  shows "pool_ok (p\<lparr>sch := s\<rparr>)"
  using assms by (auto simp: pool_ok_def occ_inv_def owned_def list_all_iff)

section \<open>Every step of the machine\<close>

lemma pool_seen_simps [simp]:
  "self (pool_seen p p' m) = self m" "scheds (pool_seen p p' m) = (scheds m)(self m \<mapsto> sch p')"
  "ctxs (pool_seen p p' m) = ctxs m" "m_fdContexts (pool_seen p p' m) = m_fdContexts m" "interest (pool_seen p p' m) = interest m"
  "m_pendingEventCount (pool_seen p p' m) = m_pendingEventCount m" "m_tickleFds (pool_seen p p' m) = m_tickleFds m"
  by (simp_all add: pool_seen_def Let_def)

lemma idle_looks_simps [simp]:
  "sch (idle_looks op m p p') = sch p'" "wk (idle_looks op m p p') = wk p'" "fstate (idle_looks op m p p') = fstate p'"
  "nxt (idle_looks op m p p') = nxt p'" "cbf (idle_looks op m p p') = cbf p'" "pool_ok (idle_looks op m p p') = pool_ok p'"
  by (simp_all add: idle_looks_def pool_ok_def split: pool_op.split)

lemma joint_ok_step:
  assumes ok: "joint_ok j" and allowed: "joint_allowed op j" and step: "joint_do op j = Inr j'"
  shows "joint_ok j'"
proof (cases op)
  case (J_IO iop)
  obtain m' where m': "io_do iop (jm j) = Inr m'" "j' = \<lparr>jm = m', jp = (jp j)\<lparr>sch := the (scheds m' (self m'))\<rparr>\<rparr>"
    using step J_IO by auto
  have inv: "io_inv (jm j)" "pool_ok (jp j)" "scheds (jm j) (self (jm j)) = Some (sch (jp j))" using ok by (simp_all add: joint_ok_def)
  have called: "io_called iop (jm j)" using allowed J_IO by simp
  have home: "self m' = self (jm j)" "dom (scheds m') = dom (scheds (jm j))" using io_do_home [OF m'(1)] by (simp_all add: same_home_def)
  then obtain s where s: "scheds m' (self m') = Some s" using inv(3) by (metis domD domI)
  have q: "queue_at (jm j) (self (jm j)) = m_fibers (sch (jp j))" "queue_at m' (self m') = m_fibers s"
    using inv(3) s by (simp_all add: queue_at_def)
  obtain ts where ts: "io_inv m'" "queue_at m' (self m') = queue_at (jm j) (self m') @ ts" "\<forall>t \<in> set ts. waiting_task t"
    using io_do_queue [OF inv(1) called m'(1), of "self m'"] by blast
  then have new: "m_fibers s = m_fibers (sch (jp j)) @ ts" using q home(1) by simp
  then have "handed_over j m' = queued ts" using q by (simp add: handed_over_def)
  then have "distinct (queued ts)" "\<forall>f \<in> set (queued ts). f < nxt (jp j) \<and> \<not> owned (jp j) f"
    using allowed J_IO m'(1) by simp_all
  with pool_ok_append [OF inv(2) new] ts(3) have "pool_ok ((jp j)\<lparr>sch := s\<rparr>)" by (auto simp: waiting_task_def)
  with ts(1) s show ?thesis by (simp add: joint_ok_def m'(2))
next
  case (J_Pool pop)
  obtain p' where p': "pool_do pop (jp j) = Inr p'" "j' = \<lparr>jm = pool_seen (jp j) p' (jm j), jp = idle_looks pop (jm j) (jp j) p'\<rparr>"
    using step J_Pool by auto
  have "pool_ok p'" using pool_ok_step [of "jp j" pop] ok allowed J_Pool p'(1) by (auto simp: joint_ok_def)
  moreover have "self (jm j) \<in> dom (scheds (jm j))" using ok by (auto simp: joint_ok_def)
  then have "dom ((scheds (jm j))(self (jm j) \<mapsto> sch p')) = dom (scheds (jm j))" by auto
  then have "io_inv (pool_seen (jp j) p' (jm j))"
    using ok by (simp add: joint_ok_def io_inv_def table_ok_def kernel_ok_def)
  ultimately show ?thesis by (simp add: joint_ok_def p'(2))
qed

lemma joint_run_ok: "joint_run j0 j \<Longrightarrow> joint_ok j0 \<Longrightarrow> joint_ok j"
  by (induction rule: joint_run.induct) (auto intro: joint_ok_step)

lemma joint_start_ok:
  assumes "IOManager_new addr others other_pipes epfd fds pipe_rt fcntl_rt ctl_rt threads use_caller name cur root tid tids = Inr m0"
  shows "joint_ok (joint_start m0 W n)"
proof -
  from assms obtain s s' where s: "Scheduler_new threads use_caller name cur root tid = Inr s" "Scheduler_start tids s = Inr s'"
    "scheds m0 (self m0) = Some s'"
    by (auto simp: IOManager_new_def contextResize_def epoll_ctl_def Let_def split: if_splits)
  then have "m_fibers s' = []" by (auto simp: Scheduler_new_def Scheduler_start_def Let_def split: if_splits)
  with s(3) IOManager_new_inv [OF assms] show ?thesis by (simp add: joint_ok_def joint_start_def pool_ok_init) (simp add: pool_init_def)
qed

text \<open>Apart from the look of an idle fiber, the pool does what it does alone.\<close>

lemma joint_pool_exec:
  assumes "pool_exec ops (jp j) = Inr p'" "\<forall>w. P_IdleBack w \<notin> set ops"
  shows "\<exists>j'. joint_exec (map J_Pool ops) j = Inr j' \<and> jp j' = p'"
  using assms
proof (induction ops arbitrary: j)
  case (Cons op ops)
  then obtain p1 where p1: "pool_do op (jp j) = Inr p1" "pool_exec ops p1 = Inr p'" by auto
  let ?j1 = "\<lparr>jm = pool_seen (jp j) p1 (jm j), jp = p1\<rparr>"
  have "idle_looks op (jm j) (jp j) p1 = p1" using Cons.prems(2) by (auto simp: idle_looks_def split: pool_op.split)
  then have "joint_do (J_Pool op) j = Inr ?j1" using p1(1) by simp
  with Cons.IH [of ?j1] p1(2) Cons.prems(2) show ?case by auto
qed simp

section \<open>A worker runs what waits\<close>

text \<open>A worker on its idle fiber comes back first.\<close>

definition wake_ops :: "int \<Rightarrow> 'cb pool \<Rightarrow> 'cb pool_op list" where
  "wake_ops w p = (if wk p w = W_Idle then [P_IdleBack w] else [])"

lemma wake_result:
  assumes ok: "pool_ok (jp j)" and w: "wk (jp j) w \<in> {W_Loop, W_Idle}"
  shows "\<exists>j'. joint_exec (map J_Pool (wake_ops w (jp j))) j = Inr j' \<and> pool_ok (jp j') \<and> wk (jp j') w = W_Loop \<and>
    m_fibers (sch (jp j')) = m_fibers (sch (jp j)) \<and> fstate (jp j') = fstate (jp j)"
proof (cases "wk (jp j) w = W_Idle")
  case True
  obtain p' where p': "pool_do (P_IdleBack w) (jp j) = Inr p'" "pool_ok p'" using pool_ok_step [OF ok, of "P_IdleBack w"] by auto
  with True have "wk p' w = W_Loop" "m_fibers (sch p') = m_fibers (sch (jp j))" "fstate p' = fstate (jp j)"
    by (auto simp: set_wk_def add_idle_def)
  with True p' show ?thesis by (simp add: wake_ops_def del: pool_do.simps)
qed (use ok w in \<open>simp add: wake_ops_def\<close>)

lemma drain_no_idle: "P_IdleBack v \<notin> set (drain_ops w n)"
  by (auto simp: drain_ops_def round_ops_def)

text \<open>
  C3. From the kernel to the running task. In every state the manager and the workers of its pool
  reach together, by any steps in which fibers are scheduled only when nobody has them: if a task waits for
  an event of a descriptor and the kernel reports just that event, the idle loop's treatment of it
  succeeds, takes the subscription away and puts the task at the end of the queue. If no task there
  is pinned to another thread, and the fiber that waits, if it is one, is with nobody else and has
  not ended, then a worker at the top of its loop or on its idle fiber runs everything in the queue, in order, and this task
  last, with five steps of its own for each task, after coming back from the idle fiber if it was
  there; the queue is empty then.
\<close>
theorem event_runs_task:
  assumes "IOManager_new addr others other_pipes epfd fds pipe_rt fcntl_rt ctl_rt threads use_caller name cur root tid tids = Inr m0"
    and "joint_run (joint_start m0 W n) j"
    and "subs (io_abs (jm j)) fd ev = Some (self (jm j), t)" and "real_events evs = ev"
    and "wk (jp j) w \<in> {W_Loop, W_Idle}" and "\<forall>u \<in> set (m_fibers (sch (jp j))). for_thread w u"
    and "\<forall>f. ft_fiber t = Some f \<longrightarrow> f < nxt (jp j) \<and> \<not> owned (jp j) f \<and> fstate (jp j) f \<notin> {TERM', EXCEPT}"
  shows "\<exists>j1 j2 j'. joint_do (J_IO (IO_Event 0 evs fd)) j = Inr j1 \<and> subs (io_abs (jm j1)) fd ev = None \<and>
    m_fibers (sch (jp j1)) = m_fibers (sch (jp j)) @ [t] \<and>
    joint_exec (map J_Pool (wake_ops w (jp j1))) j1 = Inr j2 \<and>
    joint_exec (map J_Pool (drain_ops w (Suc (length (m_fibers (sch (jp j))))))) j2 = Inr j' \<and>
    m_fibers (sch (jp j')) = [] \<and> wk (jp j') w = W_Loop \<and>
    served w (drain_ops w (Suc (length (m_fibers (sch (jp j)))))) (jp j2) =
      filter (alive (fstate (jp j))) (m_fibers (sch (jp j))) @ [t]"
proof -
  have ok: "joint_ok j" using joint_run_ok [OF assms(2) joint_start_ok [OF assms(1)]] .
  then have inv: "io_inv (jm j)" "scheds (jm j) (self (jm j)) = Some (sch (jp j))" by (simp_all add: joint_ok_def)
  note waits = sub_waits [OF inv(1) assms(3)]
  obtain m' where m': "io_call (IO_Event 0 evs fd) (jm j) = Inr (0, m')" "subs (io_abs m') fd ev = None"
    "queue_at m' (self (jm j)) = queue_at (jm j) (self (jm j)) @ [t]" using event_fires [OF inv(1) assms(3,4)] by blast
  have do: "io_do (IO_Event 0 evs fd) (jm j) = Inr m'"
    using io_call_do [of "IO_Event 0 evs fd" "jm j"] m'(1) by (simp add: forget_def del: io_call.simps io_do.simps)
  define j1 where "j1 = \<lparr>jm = m', jp = (jp j)\<lparr>sch := the (scheds m' (self m'))\<rparr>\<rparr>"
  have step: "joint_do (J_IO (IO_Event 0 evs fd)) j = Inr j1" using do by (simp add: j1_def del: io_do.simps)
  have home: "self m' = self (jm j)" "dom (scheds m') = dom (scheds (jm j))" using io_do_home [OF do] by (simp_all add: same_home_def)
  then obtain s where s: "scheds m' (self m') = Some s" using inv(2) by (metis domD domI)
  then have q1: "m_fibers (sch (jp j1)) = m_fibers (sch (jp j)) @ [t]"
    using m'(3) inv(2) home(1) by (simp add: j1_def queue_at_def)
  have "handed_over j m' = queued [t]" using m'(3) inv(2) home(1) by (simp add: handed_over_def queue_at_def)
  then have "joint_allowed (J_IO (IO_Event 0 evs fd)) j"
    using do waits assms(7) by (auto simp del: io_do.simps split: option.splits)
  then have ok1: "pool_ok (jp j1)" using joint_ok_step [OF ok _ step] by (simp add: joint_ok_def)
  have keep: "wk (jp j1) = wk (jp j)" "fstate (jp j1) = fstate (jp j)" by (simp_all add: j1_def)
  obtain j2 where j2: "joint_exec (map J_Pool (wake_ops w (jp j1))) j1 = Inr j2" "pool_ok (jp j2)" "wk (jp j2) w = W_Loop"
    "m_fibers (sch (jp j2)) = m_fibers (sch (jp j)) @ [t]" "fstate (jp j2) = fstate (jp j)"
    using wake_result [OF ok1, of w] assms(5) q1 keep by auto
  have "\<forall>u \<in> set (m_fibers (sch (jp j)) @ [t]). for_thread w u"
    using assms(6) waits by (auto simp: waiting_task_def for_thread_def)
  from drain_result [OF j2(2,3,4) this] obtain p' where
    p': "pool_exec (drain_ops w (Suc (length (m_fibers (sch (jp j)))))) (jp j2) = Inr p'" "wk p' w = W_Loop" "m_fibers (sch p') = []"
    "served w (drain_ops w (Suc (length (m_fibers (sch (jp j)))))) (jp j2) = filter (alive (fstate (jp j))) (m_fibers (sch (jp j)) @ [t])"
    by (auto simp: j2(5))
  obtain j' where j': "joint_exec (map J_Pool (drain_ops w (Suc (length (m_fibers (sch (jp j))))))) j2 = Inr j'" "jp j' = p'"
    using joint_pool_exec [OF p'(1)] drain_no_idle by blast
  have "alive (fstate (jp j)) t" using waits assms(7) by (auto simp: alive_def waiting_task_def nonempty_task_def)
  with step m'(2) q1 j2(1) j' p' show ?thesis by (auto simp: j1_def simp del: joint_do.simps)
qed

text \<open>A worker that found nothing waits on its idle fiber while an event is subscribed to.\<close>

definition demo_joint_ops :: "string joint_op list" where
  "demo_joint_ops = [J_IO (IO_Add 0 (Some 0) (1, EXEC) 7 READ (Some ''a'')), J_Pool (P_Take 1), J_Pool (P_Idle 1)]"

lemma demo_joint_state:
  "case joint_do (J_IO (IO_Add 0 (Some 0) (1, EXEC) 7 READ (Some ''a''))) (joint_start demo_io {1, 2} 0) of
     Inl e \<Rightarrow> False
   | Inr j1 \<Rightarrow> queue_at (jm j1) (self (jm j1)) = [] \<and>
       (case joint_exec [J_Pool (P_Take 1), J_Pool (P_Idle 1)] j1 of
          Inl e \<Rightarrow> False
        | Inr j \<Rightarrow> self (jm j) = 0 \<and> wk (jp j) 1 = W_Idle \<and> m_fibers (sch (jp j)) = [] \<and>
            subs (io_abs (jm j)) 7 READ = Some (0, \<lparr>ft_fiber = None, ft_cb = Some ''a'', ft_thread = -1\<rparr>))"
  by code_simp

theorem event_runs_task_witness:
  "\<exists>j j1 j2 j'. joint_exec demo_joint_ops (joint_start demo_io {1, 2} 0) = Inr j \<and> wk (jp j) 1 = W_Idle \<and>
    joint_do (J_IO (IO_Event 0 EPOLLIN 7)) j = Inr j1 \<and> joint_exec (map J_Pool (wake_ops 1 (jp j1))) j1 = Inr j2 \<and>
    joint_exec (map J_Pool (drain_ops 1 1)) j2 = Inr j' \<and>
    served 1 (drain_ops 1 1) (jp j2) = [\<lparr>ft_fiber = None, ft_cb = Some ''a'', ft_thread = -1\<rparr>]"
proof -
  let ?add = "IO_Add 0 (Some 0) (1, EXEC) 7 READ (Some ''a'')" and ?t = "\<lparr>ft_fiber = None, ft_cb = Some ''a'', ft_thread = -1\<rparr>"
  let ?j0 = "joint_start demo_io {1, 2} 0"
  obtain j1 where j1: "joint_do (J_IO ?add) ?j0 = Inr j1"
    using demo_joint_state by (cases "joint_do (J_IO ?add) ?j0") simp_all
  note state1 = demo_joint_state [unfolded j1 sum.case]
  obtain j where j: "joint_exec [J_Pool (P_Take 1), J_Pool (P_Idle 1)] j1 = Inr j"
    using state1 by (cases "joint_exec [J_Pool (P_Take 1), J_Pool (P_Idle 1)] j1") simp_all
  note state = state1 [unfolded j sum.case]
  have called: "io_called ?add (jm ?j0)" using demo_io(3,6) by (auto simp: joint_start_def io_event_def)
  obtain m1 where m1: "io_do ?add (jm ?j0) = Inr m1" "jm j1 = m1"
    using j1 by (cases "io_do ?add (jm ?j0)") (auto simp del: io_do.simps)
  then have "handed_over ?j0 m1 = []" using state by (simp add: handed_over_def)
  then have "joint_allowed (J_IO ?add) ?j0" using called m1(1) by (simp del: io_do.simps io_called.simps)
  from joint_step [OF joint_begin this j1] have run1: "joint_run ?j0 j1" .
  obtain k where k: "joint_do (J_Pool (P_Take 1)) j1 = Inr k" "joint_do (J_Pool (P_Idle 1)) k = Inr j"
    using j by (cases "joint_do (J_Pool (P_Take 1)) j1") (auto simp del: joint_do.simps)
  have "joint_run ?j0 k" using joint_step [OF run1 _ k(1)] by simp
  from joint_step [OF this _ k(2)] have run: "joint_run ?j0 j" by simp
  have exec: "joint_exec demo_joint_ops ?j0 = Inr j"
    using j j1 by (simp add: demo_joint_ops_def del: joint_do.simps)
  have evs: "real_events EPOLLIN = READ" by (simp add: real_events_def event_defs)
  have sub: "subs (io_abs (jm j)) 7 READ = Some (self (jm j), ?t)" using state by simp
  have rest: "wk (jp j) 1 \<in> {W_Loop, W_Idle}" "\<forall>u \<in> set (m_fibers (sch (jp j))). for_thread 1 u"
    "\<forall>f. ft_fiber ?t = Some f \<longrightarrow> f < nxt (jp j) \<and> \<not> owned (jp j) f \<and> fstate (jp j) f \<notin> {TERM', EXCEPT}"
    using state by simp_all
  have one: "Suc (length (m_fibers (sch (jp j)))) = 1" "m_fibers (sch (jp j)) = []" "wk (jp j) 1 = W_Idle" using state by simp_all
  from event_runs_task [OF demo_io(1) [unfolded demo_new_def] run sub evs rest, unfolded one(1,2)] exec one(3)
  show ?thesis by (simp del: joint_do.simps) blast
qed

end
