(* ===== verification/IO_Threads.thy ===== *)
theory IO_Threads
  imports IOManagers
begin

text \<open>
  The event operations of \<^verbatim>\<open>IOManager\<close> called by several threads at once. \<open>IOManagers\<close> lets
  every operation happen at one go; here each is cut wherever another thread can act: after the context
  was found (\<^verbatim>\<open>m_mutex\<close> is released), after the growth of the table, and inside the
  context's own mutex between the call into the kernel, the atomic counter, the change of the context
  and the call of a scheduler. Shown: at all times the table with the pending rest of every thread
  added is what the whole operations would have made, one after the other, in the order in which the
  threads got their mutexes, and each thread hands over the tasks its operation would; an assertion
  fails only where it fails in the whole operation; and the count of pending
  events, which the idle loop reads without a lock, never misses an event that is registered.
  A run is followed until an assertion fails or the table is cut by a growth that comes too late.
\<close>

section \<open>The pieces of a call\<close>

text \<open>
  The calls, and the report of an event by the kernel as the idle loop handles it. The loop has the
  context from the kernel, which is the one in the table at the descriptor (\<open>kernel_ok\<close>).
\<close>

datatype 'cb ev_call =
    C_Add int "nat option" "nat \<times> State" event "'cb option"
  | C_Del int event
  | C_Cancel int event
  | C_CancelAll int
  | C_Event int "32 word"

fun call_fd :: "'cb ev_call \<Rightarrow> int" where
  "call_fd (C_Add fd cur this ev cb) = fd"
| "call_fd (C_Del fd ev) = fd"
| "call_fd (C_Cancel fd ev) = fd"
| "call_fd (C_CancelAll fd) = fd"
| "call_fd (C_Event fd evs) = fd"

fun is_add :: "'cb ev_call \<Rightarrow> bool" where
  "is_add (C_Add fd cur this ev cb) = True"
| "is_add _ = False"

text \<open>The whole operation, in the model of \<open>IOManagers\<close>.\<close>

fun whole :: "'cb ev_call \<Rightarrow> int \<Rightarrow> 'cb io_op" where
  "whole (C_Add fd cur this ev cb) rt = IO_Add rt cur this fd ev cb"
| "whole (C_Del fd ev) rt = IO_Del rt fd ev"
| "whole (C_Cancel fd ev) rt = IO_Cancel rt fd ev"
| "whole (C_CancelAll fd) rt = IO_CancelAll rt fd"
| "whole (C_Event fd evs) rt = IO_Event rt evs fd"

text \<open>What remains to be done under the mutex of a context after the call into the kernel.\<close>

datatype 'cb act =
    A_Count int
  | A_Register event "nat option" "nat \<times> State" "'cb option"
  | A_Unregister event
  | A_Trigger event
  | A_Empty

text \<open>One of the two blocks of \<^verbatim>\<open>cancelAll\<close> and of the idle loop.\<close>

definition trigger_acts :: "bool \<Rightarrow> event \<Rightarrow> 'cb act list" where
  "trigger_acts b ev = (if b then [A_Trigger ev, A_Count (-1)] else [])"

text \<open>
  The check at the top, under the mutex: \<open>None\<close> if there is nothing to do, else what the kernel is told and
  what follows if it agrees.
\<close>

fun plan :: "'cb ev_call \<Rightarrow> 'cb fd_context \<Rightarrow> (int \<times> ctl_op \<times> 32 word \<times> 'cb act list) option res" where
  "plan (C_Add fd cur this ev cb) c =
    (if fc_events c AND ev \<noteq> 0 then Inl (Assertion ''!(fd_ctx->events & event)'')
     else Inr (Some (fd, if fc_events c \<noteq> 0 then CTL_MOD else CTL_ADD, EPOLLET OR fc_events c OR ev,
       [A_Count 1, A_Register ev cur this cb])))"
| "plan (C_Del fd ev) c =
    (if fc_events c AND ev = 0 then Inr None
     else (let new_events = fc_events c AND NOT ev in
       Inr (Some (fd, if new_events \<noteq> 0 then CTL_MOD else CTL_DEL, EPOLLET OR new_events,
         [A_Count (-1), A_Unregister ev]))))"
| "plan (C_Cancel fd ev) c =
    (if fc_events c AND ev = 0 then Inr None
     else (let new_events = fc_events c AND NOT ev in
       Inr (Some (fd, if new_events \<noteq> 0 then CTL_MOD else CTL_DEL, EPOLLET OR new_events,
         [A_Trigger ev, A_Count (-1)]))))"
| "plan (C_CancelAll fd) c =
    (if fc_events c = 0 then Inr None
     else Inr (Some (fd, CTL_DEL, 0,
       trigger_acts (fc_events c AND READ \<noteq> 0) READ @ trigger_acts (fc_events c AND WRITE \<noteq> 0) WRITE @ [A_Empty])))"
| "plan (C_Event fd evs) c =
    (let re = real_events evs in
     if fc_events c AND re = NONE then Inr None
     else (let left_events = fc_events c AND NOT re in
       Inr (Some (fc_fd c, if left_events \<noteq> 0 then CTL_MOD else CTL_DEL, EPOLLET OR left_events,
         trigger_acts (re AND READ \<noteq> 0) READ @ trigger_acts (re AND WRITE \<noteq> 0) WRITE))))"

definition enter :: "'cb ev_call \<Rightarrow> int \<Rightarrow> nat \<Rightarrow> 'cb iomanager \<Rightarrow> ('cb act list \<times> 'cb iomanager) res" where
  "enter call rt a m = bindR (plan call (ctxs m ! a)) (\<lambda>p.
     case p of
       None \<Rightarrow> Inr ([], m)
     | Some (fd, op, evs, acts) \<Rightarrow> Inr (if rt \<noteq> 0 then [] else acts, epoll_ctl rt op fd evs (Data_ptr a) m))"

fun act_do :: "nat \<Rightarrow> 'cb act \<Rightarrow> 'cb iomanager \<Rightarrow> 'cb iomanager res" where
  "act_do a (A_Count d) m = Inr (add_pending d m)"
| "act_do a (A_Register ev cur this cb) m =
    (let c = (ctxs m ! a)\<lparr>fc_events := fc_events (ctxs m ! a) OR ev\<rparr> in
     bindR (getContext ev c) (\<lambda>ctx.
       if ec_scheduler ctx \<noteq> None \<or> ec_fiber ctx \<noteq> None \<or> ec_cb ctx \<noteq> None
       then Inl (Assertion ''!event_ctx.scheduler && !event_ctx.fiber && !event_ctx.cb'')
       else
         (case cb of
            Some f \<Rightarrow> Inr (put_ctx a (putContext ev (ctx\<lparr>ec_scheduler := cur, ec_cb := Some f\<rparr>) c) m)
          | None \<Rightarrow>
              if snd this \<noteq> EXEC then Inl (Assertion ''event_ctx.fiber->getState() == Fiber::EXEC'')
              else Inr (put_ctx a (putContext ev (ctx\<lparr>ec_scheduler := cur, ec_fiber := Some (fst this)\<rparr>) c) m))))"
| "act_do a (A_Unregister ev) m =
    (let c = (ctxs m ! a)\<lparr>fc_events := fc_events (ctxs m ! a) AND NOT ev\<rparr> in
     bindR (getContext ev c) (\<lambda>ctx. Inr (put_ctx a (putContext ev (resetContext ctx) c) m)))"
| "act_do a (A_Trigger ev) m = triggerEvent 1 ev a m"
| "act_do a A_Empty m =
    (if fc_events (ctxs m ! a) = 0 then Inr m else Inl (Assertion ''fd_ctx->events == 0''))"

text \<open>Put together again the pieces are the operation.\<close>

fun locked :: "'cb ev_call \<Rightarrow> int \<Rightarrow> nat \<Rightarrow> 'cb iomanager \<Rightarrow> 'cb iomanager res" where
  "locked (C_Add fd cur this ev cb) rt a m = forget (addEvent_locked rt cur this fd ev cb a m)"
| "locked (C_Del fd ev) rt a m = forget (delEvent_locked rt fd ev a m)"
| "locked (C_Cancel fd ev) rt a m = forget (cancelEvent_locked 1 rt fd ev a m)"
| "locked (C_CancelAll fd) rt a m = forget (cancelAll_locked 1 rt fd a m)"
| "locked (C_Event fd evs) rt a m = idle_event 1 rt evs a m"

lemma trigger_clears:
  assumes "triggerEvent wr ev a m = Inr m'" "a < length (ctxs m)"
  shows "fc_events (ctxs m' ! a) = fc_events (ctxs m ! a) AND NOT ev"
  using assms by (auto simp: triggerEvent_def Let_def split: if_splits option.splits dest!: schedule_at_frame)

lemma foldR_eta [simp]: "foldR f [] = Inr" "foldR f (x # xs) = (\<lambda>s. bindR (f x s) (foldR f xs))"
  by (simp_all add: fun_eq_iff)

lemma fold_trigger_acts:
  "foldR (act_do a) (trigger_acts b ev) = trigger_if 1 b ev a"
  "foldR (act_do a) (trigger_acts b ev @ xs) = (\<lambda>m. bindR (trigger_if 1 b ev a m) (foldR (act_do a) xs))"
  by (simp_all add: fun_eq_iff trigger_acts_def trigger_if_def bindR_assoc)

lemma write_after_read: "(x AND NOT READ) AND WRITE = x AND WRITE" for x :: "32 word"
  by (simp add: event_defs and.assoc)

lemma pieces_compose:
  assumes a: "a < length (ctxs m)"
  shows "bindR (enter call rt a m) (\<lambda>(acts, m1). foldR (act_do a) acts m1) = locked call rt a m"
proof (cases call)
  case (C_Add fd cur this ev cb)
  then show ?thesis
    by (auto simp: enter_def addEvent_locked_def forget_def bindR_assoc add_pending_def put_ctx_def
        epoll_ctl_def getContext_def Let_def split: option.split)
next
  case (C_Del fd ev)
  then show ?thesis
    by (auto simp: enter_def delEvent_locked_def forget_def bindR_assoc add_pending_def put_ctx_def
        epoll_ctl_def getContext_def Let_def split: option.split)
next
  case (C_Cancel fd ev)
  then show ?thesis
    by (auto simp: enter_def cancelEvent_locked_def forget_def bindR_assoc epoll_ctl_def Let_def)
next
  case (C_CancelAll fd)
  let ?m0 = "epoll_ctl rt CTL_DEL fd 0 (Data_ptr a) m" and ?c = "ctxs m ! a"
  let ?k = "\<lambda>m. if fc_events (ctxs m ! a) = 0 then Inr m else Inl (Assertion ''fd_ctx->events == 0'')"
  let ?r = "fc_events ?c AND READ \<noteq> 0" and ?w = "\<lambda>c. fc_events c AND WRITE \<noteq> 0"
  have "bindR (trigger_if 1 ?r READ a ?m0) (\<lambda>m2. bindR (trigger_if 1 (?w (ctxs m2 ! a)) WRITE a m2) ?k) =
      bindR (trigger_if 1 ?r READ a ?m0) (\<lambda>m2. bindR (trigger_if 1 (?w ?c) WRITE a m2) ?k)"
    using a trigger_clears [of 1 READ a ?m0]
    by (intro bindR_cong refl) (auto simp: trigger_if_def write_after_read split: if_splits)
  moreover have "locked call rt a m = (if fc_events ?c = 0 then Inr m else if rt \<noteq> 0 then Inr ?m0 else
      bindR (trigger_if 1 ?r READ a ?m0) (\<lambda>m2. bindR (trigger_if 1 (?w (ctxs m2 ! a)) WRITE a m2) ?k))"
    by (simp add: C_CancelAll cancelAll_locked_def forget_def Let_def bindR_assoc bindR_if cong: if_cong)
  moreover have "bindR (enter call rt a m) (\<lambda>(acts, m1). foldR (act_do a) acts m1) =
      (if fc_events ?c = 0 then Inr m else if rt \<noteq> 0 then Inr ?m0 else
      bindR (trigger_if 1 ?r READ a ?m0) (\<lambda>m2. bindR (trigger_if 1 (?w ?c) WRITE a m2) ?k))"
    by (simp add: C_CancelAll enter_def fold_trigger_acts bindR_Inr)
  ultimately show ?thesis by (simp only:)
next
  case (C_Event fd evs)
  then show ?thesis
    by (simp add: enter_def idle_event_def Let_def fold_trigger_acts epoll_ctl_def)
qed

section \<open>Threads\<close>

text \<open>
  Where a thread stands: outside; in front of the write lock of the table, which its descriptor is
  beyond; with a context found and no lock; inside the mutex of the context at an address, with the rest
  of its operation.
\<close>

datatype 'cb ev_pc =
    E_Out
  | E_Grow "'cb ev_call"
  | E_Found "'cb ev_call" nat
  | E_Inside nat "'cb act list"

text \<open>\<open>it_lock\<close> is the holder of the mutex of the context at an address.\<close>

record 'cb io_threads =
  it_mgr :: "'cb iomanager"
  it_lock :: "nat \<Rightarrow> nat option"
  it_pc :: "nat \<Rightarrow> 'cb ev_pc"

text \<open>The steps; \<open>S_Pool\<close> is anything the workers or \<^verbatim>\<open>stop\<close> do to a scheduler and its pipe meanwhile.\<close>

datatype 'cb th_op =
    S_Call nat "'cb ev_call"
  | S_Grow nat
  | S_Enter nat int
  | S_Act nat
  | S_Pool nat "'cb scheduler" nat

definition it_at :: "nat \<Rightarrow> 'cb ev_pc \<Rightarrow> 'cb io_threads \<Rightarrow> 'cb io_threads" where
  "it_at t pc s = s\<lparr>it_pc := (it_pc s)(t := pc)\<rparr>"

text \<open>A thread that finds the mutex held waits: its step changes nothing.\<close>

fun th_do :: "'cb th_op \<Rightarrow> 'cb io_threads \<Rightarrow> 'cb io_threads res" where
  "th_do (S_Call t call) s =
    (case it_pc s t of
       E_Out \<Rightarrow> bindR (find_context (call_fd call) (it_mgr s)) (\<lambda>found. Inr (case found of
           Some a \<Rightarrow> it_at t (E_Found call a) s
         | None \<Rightarrow> if is_add call then it_at t (E_Grow call) s else s))
     | _ \<Rightarrow> Inr s)"
| "th_do (S_Grow t) s =
    (case it_pc s t of
       E_Grow call \<Rightarrow> bindR (addEvent_grow (call_fd call) (it_mgr s)) (\<lambda>(a, m).
         Inr (it_at t (E_Found call a) (s\<lparr>it_mgr := m\<rparr>)))
     | _ \<Rightarrow> Inr s)"
| "th_do (S_Enter t rt) s =
    (case it_pc s t of
       E_Found call a \<Rightarrow>
         if it_lock s a \<noteq> None then Inr s
         else bindR (enter call rt a (it_mgr s)) (\<lambda>(acts, m).
           Inr (it_at t (E_Inside a acts) (s\<lparr>it_mgr := m, it_lock := (it_lock s)(a \<mapsto> t)\<rparr>)))
     | _ \<Rightarrow> Inr s)"
| "th_do (S_Act t) s =
    (case it_pc s t of
       E_Inside a (x # xs) \<Rightarrow> bindR (act_do a x (it_mgr s)) (\<lambda>m. Inr (it_at t (E_Inside a xs) (s\<lparr>it_mgr := m\<rparr>)))
     | E_Inside a [] \<Rightarrow> Inr (it_at t E_Out (s\<lparr>it_lock := (it_lock s)(a := None)\<rparr>))
     | _ \<Rightarrow> Inr s)"
| "th_do (S_Pool i x n) s =
    (let m = it_mgr s in Inr (s\<lparr>it_mgr := m\<lparr>scheds := (scheds m)(i \<mapsto> x), pipes := (pipes m)(i \<mapsto> n)\<rparr>\<rparr>))"

text \<open>
  What callers keep to, as in \<open>io_called\<close>. A run is followed until a thread gets the mutex for an
  operation in which an assertion fails, or grows the table to less than what another thread has
  grown it to meanwhile (the code does not look again, see \<open>resize_race_strands_event\<close>).
\<close>

fun th_called :: "'cb th_op \<Rightarrow> 'cb io_threads \<Rightarrow> bool" where
  "th_called (S_Call t call) s \<longleftrightarrow> user_fd (it_mgr s) (call_fd call)"
| "th_called (S_Enter t rt) s \<longleftrightarrow>
    (case it_pc s t of E_Found call a \<Rightarrow> it_lock s a \<noteq> None \<or> io_called (whole call rt) (it_mgr s) | _ \<Rightarrow> True)"
| "th_called (S_Pool i x n) s \<longleftrightarrow> scheds (it_mgr s) i \<noteq> None"
| "th_called op s \<longleftrightarrow> True"

fun th_aborts :: "'cb th_op \<Rightarrow> 'cb io_threads \<Rightarrow> bool" where
  "th_aborts (S_Enter t rt) s \<longleftrightarrow>
    (case it_pc s t of E_Found call a \<Rightarrow> it_lock s a = None \<and> io_aborts (whole call rt) (it_mgr s) | _ \<Rightarrow> False)"
| "th_aborts op s \<longleftrightarrow> False"

fun late_growth :: "'cb th_op \<Rightarrow> 'cb io_threads \<Rightarrow> bool" where
  "late_growth (S_Grow t) s \<longleftrightarrow>
    (case it_pc s t of E_Grow call \<Rightarrow> nat (call_fd call * 3 div 2) < length (m_fdContexts (it_mgr s)) | _ \<Rightarrow> False)"
| "late_growth op s \<longleftrightarrow> False"

definition th_allowed :: "'cb th_op \<Rightarrow> 'cb io_threads \<Rightarrow> bool" where
  "th_allowed op s \<longleftrightarrow> th_called op s \<and> \<not> th_aborts op s \<and> \<not> late_growth op s"

definition it_start :: "'cb iomanager \<Rightarrow> 'cb io_threads" where
  "it_start m = \<lparr>it_mgr = m, it_lock = (\<lambda>_. None), it_pc = (\<lambda>_. E_Out)\<rparr>"

inductive th_run :: "'cb io_threads \<Rightarrow> 'cb io_threads \<Rightarrow> bool" for s0 where
  th_start: "th_run s0 s0"
| th_step: "th_run s0 s \<Longrightarrow> th_allowed op s \<Longrightarrow> th_do op s = Inr s' \<Longrightarrow> th_run s0 s'"

section \<open>What the pieces do to the table\<close>

definition reg_slot :: "nat option \<Rightarrow> nat \<times> State \<Rightarrow> 'cb option \<Rightarrow> 'cb event_context" where
  "reg_slot cur this cb = \<lparr>ec_scheduler = cur, ec_fiber = (if cb = None then Some (fst this) else None), ec_cb = cb\<rparr>"

fun act_ctx :: "'cb act \<Rightarrow> 'cb fd_context \<Rightarrow> 'cb fd_context" where
  "act_ctx (A_Register ev cur this cb) c = registered ev (reg_slot cur this cb) c"
| "act_ctx (A_Unregister ev) c = cleared ev c"
| "act_ctx (A_Trigger ev) c = cleared ev c"
| "act_ctx _ c = c"

text \<open>The tasks an action hands to a scheduler, and those the rest of an operation still owes it.\<close>

fun given :: "'cb act \<Rightarrow> 'cb fd_context \<Rightarrow> nat \<Rightarrow> 'cb task list" where
  "given (A_Trigger ev) c i = (if ec_scheduler (slot ev c) = Some i then [slot_task (slot ev c)] else [])"
| "given _ c i = []"

fun owed :: "'cb act list \<Rightarrow> 'cb fd_context \<Rightarrow> nat \<Rightarrow> 'cb task list" where
  "owed [] c i = []"
| "owed (x # xs) c i = given x c i @ owed xs (act_ctx x c) i"

fun act_count :: "'cb act \<Rightarrow> int" where
  "act_count (A_Count d) = d"
| "act_count _ = 0"

text \<open>A context after the rest of an operation, and what that rest adds to the count.\<close>

definition rest_ctx :: "'cb act list \<Rightarrow> 'cb fd_context \<Rightarrow> 'cb fd_context" where
  "rest_ctx acts c = fold act_ctx acts c"

definition due :: "'cb act list \<Rightarrow> int" where
  "due acts = sum_list (map act_count acts)"

lemma rest_simps [simp]: "rest_ctx [] c = c" "rest_ctx (x # xs) c = rest_ctx xs (act_ctx x c)"
  "due [] = 0" "due (x # xs) = act_count x + due xs"
  by (simp_all add: rest_ctx_def due_def)

fun act_ok :: "nat set \<Rightarrow> 'cb act \<Rightarrow> 'cb fd_context \<Rightarrow> bool" where
  "act_ok S (A_Count d) c = True"
| "act_ok S (A_Register ev cur this cb) c =
    (io_event ev \<and> fc_events c AND ev = 0 \<and> snd this = EXEC \<and> cur \<in> Some ` S)"
| "act_ok S (A_Unregister ev) c = (io_event ev \<and> fc_events c AND ev \<noteq> 0)"
| "act_ok S (A_Trigger ev) c = (io_event ev \<and> fc_events c AND ev \<noteq> 0)"
| "act_ok S A_Empty c = (fc_events c = 0)"

text \<open>No assertion lies ahead, and the count is never behind the events that stay registered.\<close>

fun acts_ok :: "nat set \<Rightarrow> 'cb act list \<Rightarrow> 'cb fd_context \<Rightarrow> bool" where
  "acts_ok S [] c = True"
| "acts_ok S (x # xs) c =
    (act_ok S x c \<and> due (x # xs) \<le> live_count (rest_ctx (x # xs) c) \<and> acts_ok S xs (act_ctx x c))"

lemma reg_slot_ok: "cur \<in> Some ` S \<Longrightarrow> slot_ok S True (reg_slot cur this cb)"
  by (auto simp: slot_ok_def reg_slot_def)

lemma act_ctx_ok:
  assumes "ctx_ok S c" "act_ok S x c"
  shows "ctx_ok S (act_ctx x c)" "fc_fd (act_ctx x c) = fc_fd c"
proof -
  show "ctx_ok S (act_ctx x c)"
    using assms ctx_ok_cleared(1) ctx_ok_set(1) [OF assms(1) _ reg_slot_ok, folded registered_def]
    by (cases x) (auto simp: io_event_def)
  show "fc_fd (act_ctx x c) = fc_fd c"
    by (cases x) (simp_all add: registered_def cleared_def)
qed

lemma rest_ctx_ok:
  "acts_ok S acts c \<Longrightarrow> ctx_ok S c \<Longrightarrow> ctx_ok S (rest_ctx acts c) \<and> fc_fd (rest_ctx acts c) = fc_fd c"
  by (induction acts arbitrary: c) (auto simp: act_ctx_ok)

lemma empty_slot:
  assumes "ctx_ok S c" "io_event ev" "fc_events c AND ev = 0"
  shows "slot ev c = EventContext_new"
  using assms by (auto simp: ctx_ok_def slot_ok_def slot_def io_event_def split: if_splits)

lemma act_step:
  assumes ok: "ctx_ok (dom (scheds m)) (ctxs m ! a)" and a: "a < length (ctxs m)"
    and x: "act_ok (dom (scheds m)) x (ctxs m ! a)"
  shows "\<exists>m'. act_do a x m = Inr m' \<and> table_frame m m' \<and> interest m' = interest m \<and>
    ctxs m' = (ctxs m)[a := act_ctx x (ctxs m ! a)] \<and> m_pendingEventCount m' = m_pendingEventCount m + act_count x \<and>
    (\<forall>i. queue_at m' i = queue_at m i @ given x (ctxs m ! a) i)"
proof (cases x)
  case (A_Register ev cur this cb)
  let ?c = "(ctxs m ! a)\<lparr>fc_events := fc_events (ctxs m ! a) OR ev\<rparr>"
  have ev: "ev = READ \<or> ev = WRITE" using x A_Register by (simp add: io_event_def)
  have "slot ev ?c = slot ev (ctxs m ! a)" by (simp add: slot_def)
  also have "\<dots> = EventContext_new" using empty_slot [OF ok, of ev] x A_Register by simp
  finally have "getContext ev ?c = Inr EventContext_new" using ev by (simp add: getContext_slot)
  with x A_Register show ?thesis
    by (cases cb) (auto simp: Let_def registered_def reg_slot_def EventContext_new_def)
next
  case (A_Unregister ev)
  have "resetContext y = EventContext_new" for y :: "'a event_context"
    by (simp add: resetContext_def EventContext_new_def)
  with x A_Unregister show ?thesis by (auto simp: Let_def getContext_slot io_event_def cleared_def)
next
  case (A_Trigger ev)
  with x have ev: "ev = READ \<or> ev = WRITE" "fc_events (ctxs m ! a) AND ev \<noteq> 0" by (auto simp: io_event_def)
  obtain m' where t: "triggerEvent 1 ev a m = Inr m'" using triggerEvent_total [OF ev(1) ok ev(2)] by blast
  from triggerEvent_result [OF ev(1) ok ev(2) t] obtain s where "ec_scheduler (slot ev (ctxs m ! a)) = Some s"
    "queue_at m' = (queue_at m)(s := queue_at m s @ [slot_task (slot ev (ctxs m ! a))])" by blast
  with t triggerEvent_result [OF ev(1) ok ev(2) t] A_Trigger show ?thesis by auto
qed (use x in auto)

lemma acts_run:
  assumes "ctx_ok (dom (scheds m)) (ctxs m ! a)" "a < length (ctxs m)" "acts_ok (dom (scheds m)) acts (ctxs m ! a)"
  shows "\<exists>m'. foldR (act_do a) acts m = Inr m' \<and> table_frame m m' \<and> interest m' = interest m \<and>
    ctxs m' = (ctxs m)[a := rest_ctx acts (ctxs m ! a)] \<and> m_pendingEventCount m' = m_pendingEventCount m + due acts \<and>
    (\<forall>i. queue_at m' i = queue_at m i @ owed acts (ctxs m ! a) i)"
  using assms
proof (induction acts arbitrary: m)
  case (Cons x xs)
  let ?c = "ctxs m ! a"
  obtain m1 where m1: "act_do a x m = Inr m1" "table_frame m m1" "interest m1 = interest m"
    "ctxs m1 = (ctxs m)[a := act_ctx x ?c]" "m_pendingEventCount m1 = m_pendingEventCount m + act_count x"
    "\<forall>i. queue_at m1 i = queue_at m i @ given x ?c i"
    using act_step [of m a x] Cons.prems by auto
  have c1: "ctxs m1 ! a = act_ctx x ?c" "dom (scheds m1) = dom (scheds m)" using m1(2,4) Cons.prems(2) by (simp_all add: table_frame_def)
  obtain m' where "foldR (act_do a) xs m1 = Inr m'" "table_frame m1 m'" "interest m' = interest m1"
    "ctxs m' = (ctxs m1)[a := rest_ctx xs (ctxs m1 ! a)]" "m_pendingEventCount m' = m_pendingEventCount m1 + due xs"
    "\<forall>i. queue_at m' i = queue_at m1 i @ owed xs (ctxs m1 ! a) i"
    using Cons.IH [of m1] Cons.prems m1(4) act_ctx_ok(1) [of "dom (scheds m)" ?c x] by (auto simp: c1)
  with m1 c1(1) table_frame_trans [OF m1(2)] show ?case by simp
qed simp

text \<open>What the check at the top of an operation leaves to do is in order.\<close>

lemma live_count_nonneg: "0 \<le> live_count c"
  by (simp add: live_count_def)

lemma live_count_registered:
  "ctx_ok S c \<Longrightarrow> io_event ev \<Longrightarrow> fc_events c AND ev = 0 \<Longrightarrow> cur \<in> Some ` S \<Longrightarrow>
    live_count (registered ev (reg_slot cur this cb) c) = live_count c + 1"
  using ctx_ok_set(2) [OF _ _ reg_slot_ok, folded registered_def, of S c ev cur this cb] by (simp add: io_event_def)

lemma due_trigger [simp]: "due (trigger_acts b ev) = (if b then - 1 else 0)"
  by (simp add: trigger_acts_def)

lemma due_append [simp]: "due (xs @ ys) = due xs + due ys"
  by (simp add: due_def)

lemma acts_ok_trigger:
  assumes "b \<Longrightarrow> act_ok S (A_Trigger ev) c" "due xs \<le> 0" "acts_ok S xs (if b then cleared ev c else c)"
  shows "acts_ok S (trigger_acts b ev @ xs) c"
  using assms live_count_nonneg [of "rest_ctx xs (cleared ev c)"] by (auto simp: trigger_acts_def)

lemma plan_ok:
  assumes ok: "ctx_ok S c" and S: "S = dom (scheds m)" and allowed: "io_allowed (whole call rt) m"
    and at: "events_at m (call_fd call) = fc_events c" and fd: "fc_fd c = call_fd call"
  shows "plan call c = Inr None \<or> (\<exists>op evs acts. plan call c = Inr (Some (call_fd call, op, evs, acts)) \<and> (rt = 0 \<longrightarrow> acts_ok S acts c))"
proof (cases call)
  case (C_Add f cur this ev cb)
  then have "io_event ev" "fc_events c AND ev = 0" "snd this = EXEC" "cur \<in> Some ` S"
    using allowed at S by (auto split: option.splits)
  with C_Add live_count_registered [OF ok, of ev cur this cb] live_count_nonneg [of c] show ?thesis by simp
next
  case (C_Del f ev)
  with allowed live_count_nonneg [of "cleared ev c"] show ?thesis by (auto simp: Let_def)
next
  case (C_Cancel f ev)
  with allowed live_count_nonneg [of "cleared ev c"] show ?thesis by (auto simp: Let_def)
next
  case (C_CancelAll f)
  let ?r = "fc_events c AND READ \<noteq> 0" and ?w = "fc_events c AND WRITE \<noteq> 0"
  let ?c1 = "if ?r then cleared READ c else c"
  have "(fc_events ?c1 AND WRITE = 0) = (\<not> ?w)" using cleared_other(1) [OF ok] by simp
  moreover have "fc_events (clear_both ?r ?w c) = 0" by (rule both_bits [OF ok refl refl])
  ultimately have "acts_ok S (trigger_acts ?r READ @ trigger_acts ?w WRITE @ [A_Empty]) c"
    using live_count_nonneg
    by (intro acts_ok_trigger) (auto simp: io_event_def clear_both_def Let_def split: if_splits)
  with C_CancelAll show ?thesis by simp
next
  case (C_Event f evs)
  let ?re = "real_events evs"
  let ?acts = "trigger_acts (?re AND READ \<noteq> 0) READ @ trigger_acts (?re AND WRITE \<noteq> 0) WRITE"
  show ?thesis
  proof (cases "fc_events c AND ?re = 0")
    case False
    have "acts_ok S ?acts c" if "rt = 0"
    proof -
      have "?re AND NOT (fc_events c) = 0" using allowed at C_Event False that by auto
      note live = real_events_live [OF ok this]
      have "fc_events (if ?re AND READ \<noteq> 0 then cleared READ c else c) AND WRITE \<noteq> 0" if "?re AND WRITE \<noteq> 0"
        using cleared_other(1) [OF ok] live(2) [OF that] by simp
      then have "acts_ok S (trigger_acts (?re AND READ \<noteq> 0) READ @ trigger_acts (?re AND WRITE \<noteq> 0) WRITE @ []) c"
        using live by (intro acts_ok_trigger) (auto simp: io_event_def)
      then show ?thesis by simp
    qed
    with False C_Event fd show ?thesis by (simp add: NONE_def Let_def)
  qed (use C_Event in \<open>simp add: NONE_def Let_def\<close>)
qed

lemma enter_ok:
  assumes "ctx_ok (dom (scheds m)) (ctxs m ! a)" "io_allowed (whole call rt) m"
    "events_at m (call_fd call) = fc_events (ctxs m ! a)" "fc_fd (ctxs m ! a) = call_fd call"
  shows "\<exists>acts i. enter call rt a m = Inr (acts, m\<lparr>interest := i\<rparr>) \<and> acts_ok (dom (scheds m)) acts (ctxs m ! a) \<and>
    (\<forall>M. ctxs M ! a = ctxs m ! a \<longrightarrow> interest M = interest m \<longrightarrow> enter call rt a M = Inr (acts, M\<lparr>interest := i\<rparr>))"
  using plan_ok [OF assms(1) refl assms(2-4)]
proof (elim disjE exE conjE)
  assume "plan call (ctxs m ! a) = Inr None"
  then show ?thesis
    by (intro exI [of _ "[]"] exI [of _ "interest m"]) (auto simp: enter_def)
next
  fix op evs acts
  assume p: "plan call (ctxs m ! a) = Inr (Some (call_fd call, op, evs, acts))" "rt = 0 \<longrightarrow> acts_ok (dom (scheds m)) acts (ctxs m ! a)"
  then show ?thesis
    by (intro exI [of _ "if rt \<noteq> 0 then [] else acts"]
        exI [of _ "interest (epoll_ctl rt op (call_fd call) evs (Data_ptr a) m)"]) (auto simp: enter_def epoll_ctl_def)
qed

section \<open>The table with what is under way\<close>

definition acts_at :: "'cb io_threads \<Rightarrow> nat \<Rightarrow> 'cb act list" where
  "acts_at s a =
    (case it_lock s a of
       Some t \<Rightarrow> (case it_pc s t of E_Inside b xs \<Rightarrow> xs | _ \<Rightarrow> [])
     | None \<Rightarrow> [])"

text \<open>The manager as if every thread inside had finished.\<close>

definition view :: "'cb io_threads \<Rightarrow> 'cb iomanager" where
  "view s = (let m = it_mgr s; n = length (ctxs m) in
    m\<lparr>ctxs := map (\<lambda>a. rest_ctx (acts_at s a) (ctxs m ! a)) [0..<n],
      m_pendingEventCount := m_pendingEventCount m + (\<Sum>a < n. due (acts_at s a))\<rparr>)"

lemma view_sel [simp]:
  "m_fdContexts (view s) = m_fdContexts (it_mgr s)" "m_tickleFds (view s) = m_tickleFds (it_mgr s)"
  "interest (view s) = interest (it_mgr s)" "scheds (view s) = scheds (it_mgr s)"
  "length (ctxs (view s)) = length (ctxs (it_mgr s))"
  "a < length (ctxs (it_mgr s)) \<Longrightarrow> ctxs (view s) ! a = rest_ctx (acts_at s a) (ctxs (it_mgr s) ! a)"
  by (simp_all add: view_def Let_def)

lemma view_pending:
  "m_pendingEventCount (view s) = m_pendingEventCount (it_mgr s) + (\<Sum>a < length (ctxs (it_mgr s)). due (acts_at s a))"
  by (simp add: view_def Let_def)

text \<open>What the table is apart from the queues and the pipes of the schedulers.\<close>

definition same_table :: "'cb iomanager \<Rightarrow> 'cb iomanager \<Rightarrow> bool" where
  "same_table m m' \<longleftrightarrow> m_fdContexts m' = m_fdContexts m \<and> m_tickleFds m' = m_tickleFds m \<and> ctxs m' = ctxs m \<and>
     m_pendingEventCount m' = m_pendingEventCount m \<and> interest m' = interest m \<and> dom (scheds m') = dom (scheds m)"

lemma same_table_inv: "same_table m m' \<Longrightarrow> io_inv m' = io_inv m"
  by (simp add: same_table_def io_inv_def table_ok_def kernel_ok_def)

text \<open>One thread changes the context whose mutex it holds.\<close>

lemma view_upd:
  assumes a: "a < length (ctxs (it_mgr s))" and new: "ctxs (it_mgr s') = (ctxs (it_mgr s))[a := c]"
    and other: "\<forall>b. b \<noteq> a \<longrightarrow> acts_at s' b = acts_at s b"
  shows "ctxs (view s') = (ctxs (view s))[a := rest_ctx (acts_at s' a) c]"
    "m_pendingEventCount (view s') = m_pendingEventCount (view s) + m_pendingEventCount (it_mgr s') -
       m_pendingEventCount (it_mgr s) + due (acts_at s' a) - due (acts_at s a)"
proof -
  have len: "length (ctxs (it_mgr s')) = length (ctxs (it_mgr s))" by (simp add: new)
  show "ctxs (view s') = (ctxs (view s))[a := rest_ctx (acts_at s' a) c]"
    by (rule nth_equalityI) (auto simp: a len new nth_list_update other)
  let ?n = "length (ctxs (it_mgr s))"
  have "(\<Sum>b < ?n. due (acts_at s' b)) = due (acts_at s' a) + (\<Sum>b \<in> {..<?n} - {a}. due (acts_at s b))"
    using a other by (simp add: sum.remove [of _ a])
  moreover have "(\<Sum>b < ?n. due (acts_at s b)) = due (acts_at s a) + (\<Sum>b \<in> {..<?n} - {a}. due (acts_at s b))"
    using a by (simp add: sum.remove [of _ a])
  ultimately show "m_pendingEventCount (view s') = m_pendingEventCount (view s) + m_pendingEventCount (it_mgr s') -
       m_pendingEventCount (it_mgr s) + due (acts_at s' a) - due (acts_at s a)" by (simp add: len view_pending)
qed

text \<open>
  The invariant: contexts and the rests of operations on them are in order, the threads inside are
  the holders of the mutexes, a context found belongs to the descriptor, and the table with everything
  under way is sound.
\<close>

definition th_inv :: "'cb io_threads \<Rightarrow> bool" where
  "th_inv s \<longleftrightarrow>
    (\<forall>a < length (ctxs (it_mgr s)). ctx_ok (dom (scheds (it_mgr s))) (ctxs (it_mgr s) ! a) \<and>
       acts_ok (dom (scheds (it_mgr s))) (acts_at s a) (ctxs (it_mgr s) ! a)) \<and>
    (\<forall>a t. it_lock s a = Some t \<longleftrightarrow> (\<exists>xs. it_pc s t = E_Inside a xs)) \<and>
    (\<forall>a t. it_lock s a = Some t \<longrightarrow> a < length (ctxs (it_mgr s))) \<and>
    (\<forall>t call a. it_pc s t = E_Found call a \<longrightarrow> fd_at (it_mgr s) (call_fd call) a) \<and>
    (\<forall>t call. it_pc s t = E_Grow call \<longrightarrow> user_fd (it_mgr s) (call_fd call) \<and> 32 \<le> call_fd call) \<and>
    io_inv (view s)"

lemma th_invD:
  assumes "th_inv s"
  shows "\<And>a. a < length (ctxs (it_mgr s)) \<Longrightarrow> ctx_ok (dom (scheds (it_mgr s))) (ctxs (it_mgr s) ! a)"
    "\<And>a. a < length (ctxs (it_mgr s)) \<Longrightarrow> acts_ok (dom (scheds (it_mgr s))) (acts_at s a) (ctxs (it_mgr s) ! a)"
    "\<And>a t. it_lock s a = Some t \<longleftrightarrow> (\<exists>xs. it_pc s t = E_Inside a xs)"
    "\<And>a t. it_lock s a = Some t \<Longrightarrow> a < length (ctxs (it_mgr s))"
    "\<And>t call a. it_pc s t = E_Found call a \<Longrightarrow> fd_at (it_mgr s) (call_fd call) a"
    "\<And>t call. it_pc s t = E_Grow call \<Longrightarrow> user_fd (it_mgr s) (call_fd call) \<and> 32 \<le> call_fd call"
    "io_inv (view s)"
  using assms unfolding th_inv_def by blast+

lemma acts_at_inside:
  assumes "th_inv s" "it_pc s t = E_Inside a xs"
  shows "acts_at s a = xs" "it_lock s a = Some t" "a < length (ctxs (it_mgr s))"
proof -
  show l: "it_lock s a = Some t" using th_invD(3) [OF assms(1)] assms(2) by blast
  then show "acts_at s a = xs" "a < length (ctxs (it_mgr s))"
    using assms th_invD(4) [OF assms(1) l] by (simp_all add: acts_at_def)
qed

lemma fd_at_user: "fd_at m fd a \<Longrightarrow> user_fd m fd \<and> fd < int (length (m_fdContexts m)) \<and> a = m_fdContexts m ! nat fd"
  by (auto simp: fd_at_def user_fd_def)

text \<open>An operation on a context nobody is inside, on the whole table and in the view.\<close>

lemma whole_locked:
  assumes "fd_at m (call_fd call) a"
  shows "io_do (whole call rt) m = locked call rt a m"
proof -
  have "find_context (call_fd call) m = Inr (Some a)"
    using found(1) fd_at_user [OF assms] by blast
  then show ?thesis
    by (cases call) (simp_all add: addEvent_def delEvent_def cancelEvent_def cancelAll_def)
qed

lemma allowed_view:
  assumes "fd_at (it_mgr s) (call_fd call) a" "acts_at s a = []" "a < length (ctxs (it_mgr s))"
  shows "events_at (view s) (call_fd call) = fc_events (ctxs (it_mgr s) ! a)"
    "events_at (it_mgr s) (call_fd call) = fc_events (ctxs (it_mgr s) ! a)"
    "io_allowed (whole call rt) (view s) = io_allowed (whole call rt) (it_mgr s)"
proof -
  show ev: "events_at (view s) (call_fd call) = fc_events (ctxs (it_mgr s) ! a)"
    "events_at (it_mgr s) (call_fd call) = fc_events (ctxs (it_mgr s) ! a)"
    using fd_at_user [OF assms(1)] assms(2,3) by (simp_all add: events_at_def)
  show "io_allowed (whole call rt) (view s) = io_allowed (whole call rt) (it_mgr s)"
    using ev by (cases call) (simp_all add: user_fd_def split: option.split)
qed

section \<open>Every step\<close>

text \<open>A thread gets a mutex, or acts or leaves while it has it.\<close>

definition takes_or_has :: "nat \<Rightarrow> nat \<Rightarrow> 'cb io_threads \<Rightarrow> bool" where
  "takes_or_has t a s \<longleftrightarrow> it_lock s a = None \<and> (\<forall>b xs. it_pc s t \<noteq> E_Inside b xs) \<or> (\<exists>xs. it_pc s t = E_Inside a xs)"

definition stays_or_leaves :: "nat \<Rightarrow> nat \<Rightarrow> 'cb ev_pc \<Rightarrow> nat option \<Rightarrow> bool" where
  "stays_or_leaves t a pc l \<longleftrightarrow> l = Some t \<and> (\<exists>xs. pc = E_Inside a xs) \<or> l = None \<and> pc = E_Out"

lemma others_acts:
  assumes inv: "th_inv s" and was: "takes_or_has t a s" and "b \<noteq> a"
    and pc: "it_pc s' = (it_pc s)(t := pc)" and lock: "it_lock s' = (it_lock s)(a := l)"
  shows "acts_at s' b = acts_at s b"
proof (cases "it_lock s b")
  case (Some u)
  then have "\<exists>xs. it_pc s u = E_Inside b xs" using th_invD(3) [OF inv] by blast
  then have "u \<noteq> t" using was \<open>b \<noteq> a\<close> Some by (auto simp: takes_or_has_def)
  with Some \<open>b \<noteq> a\<close> show ?thesis by (simp add: acts_at_def pc lock)
qed (use \<open>b \<noteq> a\<close> in \<open>simp add: acts_at_def lock\<close>)

lemma locks_match:
  assumes inv: "th_inv s" and was: "takes_or_has t a s" and own: "stays_or_leaves t a pc l"
    and pc: "it_pc s' = (it_pc s)(t := pc)" and lock: "it_lock s' = (it_lock s)(a := l)"
  shows "it_lock s' b = Some u \<longleftrightarrow> (\<exists>xs. it_pc s' u = E_Inside b xs)"
proof -
  note L = th_invD(3) [OF inv]
  have "it_lock s a = Some u \<Longrightarrow> u = t" for u
    using was L [of a u] L [of a t] by (auto simp: takes_or_has_def)
  moreover have "it_lock s b = Some t \<Longrightarrow> b = a" for b
    using was L [of b t] by (auto simp: takes_or_has_def)
  ultimately show ?thesis
    using own L [of b u] by (auto simp: pc lock stays_or_leaves_def)
qed

lemma th_inv_step:
  assumes inv: "th_inv s" and was: "takes_or_has t a s" and own: "stays_or_leaves t a pc l"
    and pc: "it_pc s' = (it_pc s)(t := pc)" and lock: "it_lock s' = (it_lock s)(a := l)"
    and a: "a < length (ctxs (it_mgr s))" and frame: "table_frame (it_mgr s) (it_mgr s')"
    and new: "ctxs (it_mgr s') = (ctxs (it_mgr s))[a := c]"
    and c: "ctx_ok (dom (scheds (it_mgr s))) c" "acts_ok (dom (scheds (it_mgr s))) (acts_at s' a) c"
    and view: "io_inv (view s')"
  shows "th_inv s'"
proof -
  note I = th_invD [OF inv]
  have fr: "dom (scheds (it_mgr s')) = dom (scheds (it_mgr s))" "fd_at (it_mgr s') = fd_at (it_mgr s)"
    "user_fd (it_mgr s') = user_fd (it_mgr s)"
    using frame by (simp_all add: table_frame_def fd_at_def user_fd_def fun_eq_iff)
  have "ctx_ok (dom (scheds (it_mgr s'))) (ctxs (it_mgr s') ! b) \<and>
      acts_ok (dom (scheds (it_mgr s'))) (acts_at s' b) (ctxs (it_mgr s') ! b)"
    if "b < length (ctxs (it_mgr s'))" for b
    using that I(1,2) [of b] c a others_acts [OF inv was _ pc lock, of b]
    by (cases "b = a") (simp_all add: new fr)
  moreover have "it_lock s' b = Some u \<longleftrightarrow> (\<exists>xs. it_pc s' u = E_Inside b xs)" for b u
    by (rule locks_match [OF inv was own pc lock])
  moreover have "b < length (ctxs (it_mgr s'))" if "it_lock s' b = Some u" for b u
    using that I(4) [of b] a by (auto simp: new lock split: if_splits)
  moreover have "fd_at (it_mgr s') (call_fd call) b" if "it_pc s' u = E_Found call b" for u call b
    using that I(5) own by (auto simp: fr pc stays_or_leaves_def split: if_splits)
  moreover have "user_fd (it_mgr s') (call_fd call) \<and> 32 \<le> call_fd call" if "it_pc s' u = E_Grow call" for u call
    using that I(6) own by (auto simp: fr pc stays_or_leaves_def split: if_splits)
  ultimately show ?thesis using view unfolding th_inv_def by blast
qed

text \<open>Inside, a thread only works off what the view already holds.\<close>

lemma act_simulated:
  assumes inv: "th_inv s" and pc: "it_pc s t = E_Inside a (x # xs)"
  shows "\<exists>s'. th_do (S_Act t) s = Inr s' \<and> th_inv s' \<and> same_table (view s) (view s') \<and>
    (\<forall>i. queue_at (it_mgr s') i @ owed xs (ctxs (it_mgr s') ! a) i = queue_at (it_mgr s) i @ owed (x # xs) (ctxs (it_mgr s) ! a) i)"
proof -
  note I = th_invD [OF inv] and at = acts_at_inside [OF inv pc]
  let ?m = "it_mgr s"
  note ok = I(1,2) [OF at(3), unfolded at(1)]
  obtain m' where m': "act_do a x ?m = Inr m'" "table_frame ?m m'" "interest m' = interest ?m"
    "ctxs m' = (ctxs ?m)[a := act_ctx x (ctxs ?m ! a)]" "m_pendingEventCount m' = m_pendingEventCount ?m + act_count x"
    "\<forall>i. queue_at m' i = queue_at ?m i @ given x (ctxs ?m ! a) i"
    using act_step [OF ok(1) at(3), of x] ok(2) by auto
  define s' where "s' = it_at t (E_Inside a xs) (s\<lparr>it_mgr := m'\<rparr>)"
  have s': "it_mgr s' = m'" "it_pc s' = (it_pc s)(t := E_Inside a xs)" "it_lock s' = (it_lock s)(a := Some t)"
    using at(2) by (auto simp: s'_def it_at_def)
  have was: "takes_or_has t a s" using pc by (auto simp: takes_or_has_def)
  have acts: "acts_at s' a = xs" by (simp add: acts_at_def s')
  have other: "\<forall>b. b \<noteq> a \<longrightarrow> acts_at s' b = acts_at s b" using others_acts [OF inv was _ s'(2,3)] by blast
  note v = view_upd [OF at(3) m'(4) [folded s'(1)] other]
  have "ctxs (view s') = ctxs (view s)"
    using at(1,3) v(1) by (simp add: acts list_update_same_conv)
  moreover have "m_pendingEventCount (view s') = m_pendingEventCount (view s)"
    unfolding v(2) by (simp add: s'(1) m'(5) acts at(1))
  ultimately have same: "same_table (view s) (view s')"
    using m'(2,3) by (simp add: same_table_def s'(1) table_frame_def)
  have "th_inv s'"
    by (rule th_inv_step [OF inv was _ s'(2,3) at(3) _ m'(4) [folded s'(1)]])
      (use ok m'(2) acts same_table_inv [OF same] I(7) act_ctx_ok(1) [OF ok(1)] in \<open>auto simp: stays_or_leaves_def s'(1)\<close>)
  moreover have "th_do (S_Act t) s = Inr s'" using m'(1) by (simp add: pc s'_def)
  moreover have "queue_at (it_mgr s') i @ owed xs (ctxs (it_mgr s') ! a) i = queue_at ?m i @ owed (x # xs) (ctxs ?m ! a) i" for i
    using m'(4,6) at(3) by (simp add: s'(1))
  ultimately show ?thesis using same by blast
qed

lemma leave_simulated:
  assumes inv: "th_inv s" and pc: "it_pc s t = E_Inside a []"
  shows "\<exists>s'. th_do (S_Act t) s = Inr s' \<and> th_inv s' \<and> same_table (view s) (view s') \<and>
    queue_at (it_mgr s') = queue_at (it_mgr s)"
proof -
  note I = th_invD [OF inv] and at = acts_at_inside [OF inv pc]
  define s' where "s' = it_at t E_Out (s\<lparr>it_lock := (it_lock s)(a := None)\<rparr>)"
  have s': "it_mgr s' = it_mgr s" "it_pc s' = (it_pc s)(t := E_Out)" "it_lock s' = (it_lock s)(a := None)"
    by (simp_all add: s'_def it_at_def)
  have was: "takes_or_has t a s" using pc by (auto simp: takes_or_has_def)
  have "acts_at s' b = acts_at s b" for b
    using others_acts [OF inv was _ s'(2,3), of b] at(1) by (cases "b = a") (simp_all add: acts_at_def s'(3))
  then have acts: "acts_at s' = acts_at s" by (rule ext)
  then have view: "view s' = view s" by (simp add: view_def s'(1))
  have "th_inv s'"
    by (rule th_inv_step [OF inv was _ s'(2,3) at(3), where c = "ctxs (it_mgr s) ! a"])
      (use I(1,2) [OF at(3)] I(7) in \<open>simp_all add: stays_or_leaves_def s'(1) acts view\<close>)
  moreover have "th_do (S_Act t) s = Inr s'" by (simp add: pc s'_def)
  moreover have "same_table (view s) (view s')" by (simp add: view same_table_def)
  ultimately show ?thesis using s'(1) by (intro exI [of _ s']) simp
qed

text \<open>Getting the mutex, a thread does its whole operation in the view.\<close>

lemma enter_simulated:
  assumes inv: "th_inv s" and pc: "it_pc s t = E_Found call a" and free: "it_lock s a = None"
    and allowed: "io_allowed (whole call rt) (it_mgr s)"
  shows "\<exists>s' m'. th_do (S_Enter t rt) s = Inr s' \<and> th_inv s' \<and>
    io_do (whole call rt) (view s) = Inr m' \<and> same_table m' (view s') \<and>
    (\<forall>i. queue_at m' i = queue_at (view s) i @ owed (acts_at s' a) (ctxs (it_mgr s) ! a) i) \<and>
    queue_at (it_mgr s') = queue_at (it_mgr s)"
proof -
  note I = th_invD [OF inv]
  let ?m = "it_mgr s" and ?S = "dom (scheds (it_mgr s))"
  note found = I(5) [OF pc]
  have acts0: "acts_at s a = []" using free by (simp add: acts_at_def)
  have i: "nat (call_fd call) < length (m_fdContexts (view s))" "m_fdContexts (view s) ! nat (call_fd call) = a"
    "int (nat (call_fd call)) = call_fd call" using found by (auto simp: fd_at_def)
  note ctx = io_inv_ctx [OF I(7) i(1), unfolded i(2,3)]
  have a: "a < length (ctxs ?m)" using ctx(3) by simp
  have ca: "ctxs (view s) ! a = ctxs ?m ! a" using a acts0 by simp
  note view = allowed_view [OF found acts0 a]
  obtain acts i where e: "enter call rt a ?m = Inr (acts, ?m\<lparr>interest := i\<rparr>)" "acts_ok ?S acts (ctxs ?m ! a)"
    "\<And>M. ctxs M ! a = ctxs ?m ! a \<Longrightarrow> interest M = interest ?m \<Longrightarrow> enter call rt a M = Inr (acts, M\<lparr>interest := i\<rparr>)"
    using enter_ok [OF I(1) [OF a] allowed view(2)] ctx(2) ca by auto
  let ?M = "(view s)\<lparr>interest := i\<rparr>"
  obtain m' where m': "foldR (act_do a) acts ?M = Inr m'" "table_frame ?M m'" "interest m' = i"
    "ctxs m' = (ctxs (view s))[a := rest_ctx acts (ctxs ?m ! a)]" "m_pendingEventCount m' = m_pendingEventCount (view s) + due acts"
    "\<forall>i. queue_at m' i = queue_at ?M i @ owed acts (ctxs ?m ! a) i"
    using acts_run [of ?M a acts] ctx(1) e(2) a ca by auto
  have "fd_at (view s) (call_fd call) a" using found by (simp add: fd_at_def)
  then have run: "io_do (whole call rt) (view s) = Inr m'"
    using pieces_compose [of a "view s" call rt] a e(3) [of "view s"] ca m'(1) by (simp add: whole_locked)
  have inv': "io_inv m'" using io_inv_do [OF I(7), of "whole call rt"] view(3) allowed run by auto
  define s' where "s' = it_at t (E_Inside a acts) (s\<lparr>it_mgr := ?m\<lparr>interest := i\<rparr>, it_lock := (it_lock s)(a \<mapsto> t)\<rparr>)"
  have s': "it_mgr s' = ?m\<lparr>interest := i\<rparr>" "it_pc s' = (it_pc s)(t := E_Inside a acts)" "it_lock s' = (it_lock s)(a := Some t)"
    by (simp_all add: s'_def it_at_def)
  have was: "takes_or_has t a s" using pc free by (auto simp: takes_or_has_def)
  have acts: "acts_at s' a = acts" by (simp add: acts_at_def s')
  have new: "ctxs (it_mgr s') = (ctxs ?m)[a := ctxs ?m ! a]" by (simp add: s'(1))
  have other: "\<forall>b. b \<noteq> a \<longrightarrow> acts_at s' b = acts_at s b" using others_acts [OF inv was _ s'(2,3)] by blast
  note v = view_upd [OF a new other]
  have same: "same_table m' (view s')"
    unfolding same_table_def v using m' by (simp add: acts acts0 s'(1) table_frame_def)
  have "th_inv s'"
    by (rule th_inv_step [OF inv was _ s'(2,3) a _ new])
      (use I(1) [OF a] e(2) acts same_table_inv [OF same] inv' in \<open>simp_all add: stays_or_leaves_def s'(1) table_frame_def\<close>)
  moreover have "th_do (S_Enter t rt) s = Inr s'" using e(1) free by (simp add: pc s'_def)
  moreover have "queue_at ?M = queue_at (view s)" "queue_at (it_mgr s') = queue_at ?m"
    by (simp_all add: s'(1) queue_at_def fun_eq_iff)
  ultimately show ?thesis using run same m'(6) acts by (intro exI [of _ s'] exI [of _ m']) simp
qed

text \<open>Growing the table, under its write lock, adds empty contexts and disturbs nobody.\<close>

lemma FdContext_new_ok: "ctx_ok S (FdContext_new i)"
  by (simp add: ctx_ok_def slot_ok_def FdContext_new_def NONE_def)

lemma grown_sel:
  assumes "length (m_fdContexts m) \<le> n"
  shows "m_fdContexts (contextResize n m) = m_fdContexts m @
      map (\<lambda>i. length (ctxs m) + (i - length (m_fdContexts m))) [length (m_fdContexts m)..<n]"
    "ctxs (contextResize n m) = ctxs m @ map (\<lambda>i. FdContext_new (int i)) [length (m_fdContexts m)..<n]"
    "scheds (contextResize n m) = scheds m" "interest (contextResize n m) = interest m"
    "m_tickleFds (contextResize n m) = m_tickleFds m" "m_pendingEventCount (contextResize n m) = m_pendingEventCount m"
  using assms by (simp_all add: contextResize_def Let_def)

lemma grown_view:
  assumes inv: "th_inv s" and n: "length (m_fdContexts (it_mgr s)) \<le> n"
    and m: "it_mgr s' = contextResize n (it_mgr s)" and acts: "acts_at s' = acts_at s"
  shows "same_table (contextResize n (view s)) (view s')"
proof -
  let ?m = "it_mgr s" and ?k = "length (m_fdContexts (it_mgr s))"
  let ?l = "length (ctxs ?m)" and ?l' = "length (ctxs ?m) + (n - length (m_fdContexts (it_mgr s)))"
  have none: "acts_at s b = []" if "?l \<le> b" for b
    using th_invD(4) [OF inv, of b] that by (auto simp: acts_at_def split: option.split)
  have "ctxs (view s') = ctxs (contextResize n (view s))"
  proof (rule nth_equalityI)
    fix b assume "b < length (ctxs (view s'))"
    then have b: "b < ?l'" by (simp add: m grown_sel [OF n])
    show "ctxs (view s') ! b = ctxs (contextResize n (view s)) ! b"
      using b none [of b] n by (simp add: m grown_sel acts nth_append)
  qed (use n in \<open>simp add: m grown_sel\<close>)
  moreover have "(\<Sum>b < ?l'. due (acts_at s b)) = (\<Sum>b < ?l. due (acts_at s b))"
    using none by (intro sum.mono_neutral_right) auto
  then have "m_pendingEventCount (view s') = m_pendingEventCount (view s)"
    by (simp add: view_pending m grown_sel [OF n] acts)
  ultimately show ?thesis using n by (simp add: same_table_def m grown_sel)
qed

lemma grow_simulated:
  assumes inv: "th_inv s" and pc: "it_pc s t = E_Grow call"
    and n: "length (m_fdContexts (it_mgr s)) \<le> nat (call_fd call * 3 div 2)"
  shows "\<exists>s'. th_do (S_Grow t) s = Inr s' \<and> th_inv s' \<and>
    same_table (contextResize (nat (call_fd call * 3 div 2)) (view s)) (view s') \<and> queue_at (it_mgr s') = queue_at (it_mgr s)"
proof -
  let ?n = "nat (call_fd call * 3 div 2)" and ?m = "it_mgr s" and ?m1 = "contextResize (nat (call_fd call * 3 div 2)) (it_mgr s)"
  note I = th_invD [OF inv] and fd = th_invD(6) [OF inv pc]
  have "32 \<le> length (m_fdContexts ?m)" using I(7) by (simp add: io_inv_def table_ok_def)
  with n fd have k: "nat (call_fd call) < ?n" by (auto simp: user_fd_def)
  define a where "a = m_fdContexts ?m1 ! nat (call_fd call)"
  have len: "length (m_fdContexts ?m1) = ?n" using n by (simp add: grown_sel)
  have grow: "addEvent_grow (call_fd call) ?m = Inr (a, ?m1)" using k len by (simp add: addEvent_grow_def Let_def a_def)
  define s' where "s' = it_at t (E_Found call a) (s\<lparr>it_mgr := ?m1\<rparr>)"
  have s': "it_mgr s' = ?m1" "it_lock s' = it_lock s" "it_pc s' = (it_pc s)(t := E_Found call a)"
    by (simp_all add: s'_def it_at_def)
  have acts: "acts_at s' = acts_at s"
    by (rule ext) (use pc in \<open>auto simp: acts_at_def s' split: option.split\<close>)
  note same = grown_view [OF inv n s'(1) acts]
  have new: "ctx_ok (dom (scheds ?m1)) (ctxs ?m1 ! b) \<and> acts_ok (dom (scheds ?m1)) (acts_at s b) (ctxs ?m1 ! b)"
    if "b < length (ctxs ?m1)" for b
  proof (cases "b < length (ctxs ?m)")
    case True
    with I(1,2) [of b] n show ?thesis by (simp add: grown_sel nth_append)
  next
    case False
    then have "acts_at s b = []" using I(4) [of b] by (auto simp: acts_at_def split: option.split)
    with False that n show ?thesis by (simp add: grown_sel nth_append FdContext_new_ok)
  qed
  have keep: "fd_at ?m1 fd' b" if "fd_at ?m fd' b" for fd' b
    using that n unfolding fd_at_def by (auto simp: grown_sel nth_append)
  have own: "fd_at ?m1 (call_fd call) a"
    using fd k len by (auto simp: fd_at_def user_fd_def a_def grown_sel [OF n])
  have found: "fd_at ?m1 (call_fd c) b" if "it_pc s' u = E_Found c b" for u c b
    using that keep [OF I(5) [of u c b]] own by (cases "u = t") (simp_all add: s'(3))
  have locks: "it_lock s b = Some u \<longleftrightarrow> (\<exists>xs. it_pc s' u = E_Inside b xs)" for b u
    using I(3) pc by (simp add: s'(3))
  have inside: "b < length (ctxs ?m1)" if "it_lock s b = Some u" for b u
    using I(4) [OF that] n by (simp add: grown_sel)
  have growing: "user_fd ?m1 (call_fd c) \<and> 32 \<le> call_fd c" if "it_pc s' u = E_Grow c" for u c
    using that I(6) [of u c] n by (simp add: s'(3) user_fd_def grown_sel split: if_splits)
  have "io_inv (view s')" using contextResize_grow(1) [OF I(7), of ?n] n same_table_inv [OF same] by simp
  then have "th_inv s'"
    using new locks inside found growing unfolding th_inv_def s'(1,2) acts by blast
  moreover have "th_do (S_Grow t) s = Inr s'" using grow by (simp add: pc s'_def)
  moreover have "queue_at (it_mgr s') = queue_at ?m" using n by (simp add: s'(1) queue_at_def fun_eq_iff grown_sel)
  ultimately show ?thesis using same by blast
qed

lemma call_simulated:
  assumes inv: "th_inv s" and pc: "it_pc s t = E_Out" and fd: "user_fd (it_mgr s) (call_fd call)"
  shows "\<exists>s'. th_do (S_Call t call) s = Inr s' \<and> th_inv s' \<and> same_table (view s) (view s') \<and> it_mgr s' = it_mgr s"
proof -
  have len: "32 \<le> length (m_fdContexts (it_mgr s))" using th_invD(7) [OF inv] by (simp add: io_inv_def table_ok_def)
  have stay: "th_inv (it_at t pc' s) \<and> same_table (view s) (view (it_at t pc' s))"
    if "pc' = E_Found call a \<and> fd_at (it_mgr s) (call_fd call) a \<or> pc' = E_Grow call \<and> 32 \<le> call_fd call" for pc' a
  proof -
    have acts: "acts_at (it_at t pc' s) = acts_at s"
      by (rule ext) (use that pc in \<open>auto simp: acts_at_def it_at_def split: option.split\<close>)
    then have "view (it_at t pc' s) = view s" by (simp add: view_def it_at_def)
    then show ?thesis
      using inv that fd pc acts unfolding th_inv_def by (auto simp: it_at_def same_table_def)
  qed
  show ?thesis
  proof (cases "call_fd call < int (length (m_fdContexts (it_mgr s)))")
    case True
    with found(1,2) [OF fd True] pc stay show ?thesis by (simp add: it_at_def)
  next
    case False
    with len have "32 \<le> call_fd call" by linarith
    with False stay [of "E_Grow call"] pc inv show ?thesis by (simp add: not_found same_table_def it_at_def)
  qed
qed

text \<open>
  What a step amounts to. Getting the mutex, a thread does the whole operation it was called for on
  the view, and owes the schedulers the tasks that operation hands over; inside, it pays what it owes,
  each task to the scheduler it was registered with; growing the table it grows that of the view; and
  every other step leaves the view as it is. \<open>S_Pool\<close> is free to change the queues.
\<close>

fun atomic_step :: "'cb th_op \<Rightarrow> 'cb io_threads \<Rightarrow> 'cb io_threads \<Rightarrow> bool" where
  "atomic_step (S_Call t call) s s' \<longleftrightarrow>
    same_table (view s) (view s') \<and> queue_at (it_mgr s') = queue_at (it_mgr s)"
| "atomic_step (S_Grow t) s s' \<longleftrightarrow>
    (case it_pc s t of
       E_Grow call \<Rightarrow> same_table (contextResize (nat (call_fd call * 3 div 2)) (view s)) (view s')
     | _ \<Rightarrow> same_table (view s) (view s')) \<and> queue_at (it_mgr s') = queue_at (it_mgr s)"
| "atomic_step (S_Enter t rt) s s' \<longleftrightarrow>
    (if \<exists>call a. it_pc s t = E_Found call a \<and> it_lock s a = None
     then \<exists>call a m. it_pc s t = E_Found call a \<and> io_do (whole call rt) (view s) = Inr m \<and> same_table m (view s') \<and>
       (\<forall>i. queue_at m i = queue_at (view s) i @ owed (acts_at s' a) (ctxs (it_mgr s) ! a) i)
     else same_table (view s) (view s')) \<and> queue_at (it_mgr s') = queue_at (it_mgr s)"
| "atomic_step (S_Act t) s s' \<longleftrightarrow>
    same_table (view s) (view s') \<and>
    (case it_pc s t of
       E_Inside a (x # xs) \<Rightarrow>
         \<forall>i. queue_at (it_mgr s') i @ owed xs (ctxs (it_mgr s') ! a) i = queue_at (it_mgr s) i @ owed (x # xs) (ctxs (it_mgr s) ! a) i
     | _ \<Rightarrow> queue_at (it_mgr s') = queue_at (it_mgr s))"
| "atomic_step (S_Pool i x n) s s' \<longleftrightarrow> same_table (view s) (view s')"

definition simulated :: "'cb th_op \<Rightarrow> 'cb io_threads \<Rightarrow> bool" where
  "simulated op s \<longleftrightarrow> (\<exists>s'. th_do op s = Inr s' \<and> th_inv s' \<and> atomic_step op s s')"

lemma same_table_refl [simp]: "same_table m m"
  by (simp add: same_table_def)

lemma call_step:
  assumes inv: "th_inv s" and allowed: "th_allowed (S_Call t call) s"
  shows "simulated (S_Call t call) s"
proof (cases "it_pc s t = E_Out")
  case True
  from allowed have "user_fd (it_mgr s) (call_fd call)" by (simp add: th_allowed_def)
  from call_simulated [OF inv True this] show ?thesis by (auto simp: simulated_def simp del: th_do.simps)
qed (use inv in \<open>auto simp: simulated_def split: ev_pc.split\<close>)

lemma grow_step:
  assumes inv: "th_inv s" and allowed: "th_allowed (S_Grow t) s"
  shows "simulated (S_Grow t) s"
proof (cases "it_pc s t")
  case (E_Grow call)
  with allowed have n: "length (m_fdContexts (it_mgr s)) \<le> nat (call_fd call * 3 div 2)" by (simp add: th_allowed_def)
  from grow_simulated [OF inv E_Grow n] E_Grow show ?thesis by (auto simp: simulated_def simp del: th_do.simps)
qed (use inv in \<open>auto simp: simulated_def\<close>)

lemma enter_step:
  assumes inv: "th_inv s" and allowed: "th_allowed (S_Enter t rt) s"
  shows "simulated (S_Enter t rt) s"
proof (cases "\<exists>call a. it_pc s t = E_Found call a \<and> it_lock s a = None")
  case True
  then obtain call a where pc: "it_pc s t = E_Found call a" "it_lock s a = None" by blast
  with allowed have "io_allowed (whole call rt) (it_mgr s)" by (simp add: th_allowed_def)
  from enter_simulated [OF inv pc this] obtain s' m' where "th_do (S_Enter t rt) s = Inr s'" "th_inv s'"
    "io_do (whole call rt) (view s) = Inr m'" "same_table m' (view s')"
    "\<forall>i. queue_at m' i = queue_at (view s) i @ owed (acts_at s' a) (ctxs (it_mgr s) ! a) i"
    "queue_at (it_mgr s') = queue_at (it_mgr s)" by blast
  with pc True show ?thesis unfolding simulated_def atomic_step.simps
    by (intro exI [of _ s'] conjI) (simp_all only: if_True refl, blast)
next
  case False
  then have "th_do (S_Enter t rt) s = Inr s" by (auto split: ev_pc.split)
  with False inv show ?thesis unfolding simulated_def atomic_step.simps by auto
qed

lemma act_step_simulated:
  assumes inv: "th_inv s"
  shows "simulated (S_Act t) s"
proof (cases "it_pc s t")
  case (E_Inside a acts)
  show ?thesis
  proof (cases acts)
    case Nil
    with leave_simulated [OF inv] E_Inside show ?thesis by (auto simp: simulated_def simp del: th_do.simps)
  next
    case (Cons x xs)
    with act_simulated [OF inv] E_Inside show ?thesis by (auto simp: simulated_def simp del: th_do.simps owed.simps)
  qed
qed (use inv in \<open>auto simp: simulated_def\<close>)

lemma pool_step_simulated:
  assumes inv: "th_inv s" and allowed: "th_allowed (S_Pool i x n) s"
  shows "simulated (S_Pool i x n) s"
proof -
  obtain s' where s': "th_do (S_Pool i x n) s = Inr s'" by (simp add: Let_def)
  have d: "dom (scheds (it_mgr s')) = dom (scheds (it_mgr s))"
    using s' allowed by (auto simp: Let_def th_allowed_def split: if_splits)
  have m: "ctxs (it_mgr s') = ctxs (it_mgr s)" "m_fdContexts (it_mgr s') = m_fdContexts (it_mgr s)"
    "m_tickleFds (it_mgr s') = m_tickleFds (it_mgr s)" "it_pc s' = it_pc s" "it_lock s' = it_lock s"
    "interest (it_mgr s') = interest (it_mgr s)" "m_pendingEventCount (it_mgr s') = m_pendingEventCount (it_mgr s)"
    using s' by (auto simp: Let_def)
  have acts: "acts_at s' = acts_at s" by (rule ext) (unfold acts_at_def m, rule refl)
  have same: "same_table (view s) (view s')"
    using m d acts by (simp add: same_table_def view_pending) (simp add: view_def Let_def)
  have "fd_at (it_mgr s') = fd_at (it_mgr s)" "user_fd (it_mgr s') = user_fd (it_mgr s)"
    by (simp_all add: fun_eq_iff fd_at_def user_fd_def m)
  then have "th_inv s'"
    using inv same_table_inv [OF same] by (simp add: th_inv_def m d acts)
  with s' same show ?thesis unfolding simulated_def by auto
qed

lemma th_sim:
  assumes "th_inv s" "th_allowed op s"
  shows "simulated op s"
  using assms call_step grow_step enter_step act_step_simulated pool_step_simulated by (cases op) blast+

text \<open>What ends a run.\<close>

text \<open>The steps that an operation takes once its thread has the mutex.\<close>

fun own_steps :: "'cb th_op \<Rightarrow> 'cb io_threads \<Rightarrow> 'cb iomanager res" where
  "own_steps (S_Enter t rt) s =
    (case it_pc s t of
       E_Found call a \<Rightarrow> bindR (enter call rt a (it_mgr s)) (\<lambda>(acts, m). foldR (act_do a) acts m)
     | _ \<Rightarrow> Inr (it_mgr s))"
| "own_steps op s = Inr (it_mgr s)"

lemma enter_aborts:
  assumes inv: "th_inv s" and bad: "th_aborts (S_Enter t rt) s"
  shows "\<exists>e. own_steps (S_Enter t rt) s = Inl (Assertion e)"
proof -
  note I = th_invD [OF inv]
  from bad obtain call a where pc: "it_pc s t = E_Found call a" "it_lock s a = None"
    "io_aborts (whole call rt) (it_mgr s)" by (auto split: ev_pc.splits)
  let ?m = "it_mgr s"
  note found = I(5) [OF pc(1)]
  have acts0: "acts_at s a = []" using pc(2) by (simp add: acts_at_def)
  have i: "nat (call_fd call) < length (m_fdContexts (view s))" "m_fdContexts (view s) ! nat (call_fd call) = a"
    using found by (auto simp: fd_at_def)
  have a: "a < length (ctxs ?m)" using io_inv_ctx(3) [OF I(7) i(1)] i(2) by simp
  have ev: "events_at ?m (call_fd call) = fc_events (ctxs ?m ! a)" using allowed_view(2) [OF found acts0 a] .
  have "\<exists>e. locked call rt a ?m = Inl (Assertion e)"
  proof (cases call)
    case (C_Add fd cur this e cb)
    with pc(3) ev show ?thesis by (simp add: addEvent_locked_def forget_def)
  next
    case (C_Event fd evs)
    with pc(3) ev idle_event_aborts_at [OF I(1) [OF a] a, of evs] show ?thesis by simp
  qed (use pc(3) in simp_all)
  with pieces_compose [OF a, of call rt] pc(1) show ?thesis by simp
qed

lemma late_growth_cuts:
  assumes inv: "th_inv s" and late: "late_growth op s"
  shows "\<exists>s'. th_do op s = Inr s' \<and> length (m_fdContexts (it_mgr s')) < length (m_fdContexts (it_mgr s))"
proof -
  from late obtain t call where op: "op = S_Grow t" and pc: "it_pc s t = E_Grow call"
    and n: "nat (call_fd call * 3 div 2) < length (m_fdContexts (it_mgr s))"
    by (cases op) (auto split: ev_pc.splits)
  have "32 \<le> call_fd call" using th_invD(6) [OF inv pc] by simp
  then have "nat (call_fd call) < nat (call_fd call * 3 div 2)" by linarith
  with n pc op show ?thesis by (simp add: addEvent_grow_def contextResize_def Let_def it_at_def)
qed

lemma it_start_view: "view (it_start m) = m"
  by (rule iomanager.equality)
    (simp_all add: view_def Let_def it_start_def acts_at_def map_nth)

lemma it_start_inv: "io_inv m \<Longrightarrow> th_inv (it_start m)"
  unfolding th_inv_def it_start_view
  by (auto simp: it_start_def acts_at_def io_inv_def)

lemma th_run_inv: "th_run s0 s \<Longrightarrow> th_inv s0 \<Longrightarrow> th_inv s"
  by (induction rule: th_run.induct) (use th_sim in \<open>fastforce simp: simulated_def\<close>)+

lemma th_run_start:
  assumes "IOManager_new addr others other_pipes epfd fds pipe_rt fcntl_rt ctl_rt threads use_caller name cur root tid tids = Inr m0"
    and "th_run (it_start m0) s"
  shows "th_inv s"
  using th_run_inv [OF assms(2) it_start_inv [OF IOManager_new_inv [OF assms(1)]]] .

lemma nobody_inside:
  assumes "th_inv s" "\<And>t a xs. it_pc s t \<noteq> E_Inside a xs"
  shows "view s = it_mgr s"
proof -
  have "acts_at s = (\<lambda>_. [])"
    using assms(2) by (auto simp: acts_at_def fun_eq_iff split: option.split ev_pc.split)
  then show ?thesis
    by (intro iomanager.equality) (simp_all add: view_def Let_def map_nth)
qed

text \<open>The count is never behind.\<close>

lemma acts_ok_due: "acts_ok S acts c \<Longrightarrow> due acts \<le> live_count (rest_ctx acts c)"
  by (cases acts) (simp_all add: live_count_nonneg)

lemma pending_sum:
  assumes inv: "th_inv s"
  shows "m_pendingEventCount (it_mgr s) =
    (\<Sum>a < length (ctxs (it_mgr s)). live_count (rest_ctx (acts_at s a) (ctxs (it_mgr s) ! a)) - due (acts_at s a))"
proof -
  let ?n = "length (ctxs (it_mgr s))" and ?f = "\<lambda>a. live_count (rest_ctx (acts_at s a) (ctxs (it_mgr s) ! a))"
  have "m_pendingEventCount (view s) = sum_list (map live_count (ctxs (view s)))"
    using th_invD(7) [OF inv] by (simp add: io_inv_def)
  also have "map live_count (ctxs (view s)) = map ?f [0..<?n]"
    by (rule nth_equalityI) simp_all
  also have "sum_list (map ?f [0..<?n]) = sum ?f {..<?n}"
    by (simp add: interv_sum_list_conv_sum_set_nat atLeast0LessThan)
  finally show ?thesis by (simp add: view_pending sum_subtractf)
qed

lemma pending_covers:
  assumes inv: "th_inv s"
  shows "0 \<le> m_pendingEventCount (it_mgr s)"
    "m_pendingEventCount (it_mgr s) = 0 \<Longrightarrow> a < length (ctxs (it_mgr s)) \<Longrightarrow> it_lock s a = None \<Longrightarrow>
      fc_events (ctxs (it_mgr s) ! a) = 0"
proof -
  let ?d = "\<lambda>a. live_count (rest_ctx (acts_at s a) (ctxs (it_mgr s) ! a)) - due (acts_at s a)"
  have nn: "\<forall>b \<in> {..<length (ctxs (it_mgr s))}. 0 \<le> ?d b"
    using acts_ok_due [OF th_invD(2) [OF inv]] by simp
  then show "0 \<le> m_pendingEventCount (it_mgr s)"
    unfolding pending_sum [OF inv] by (intro sum_nonneg) simp
  assume z: "m_pendingEventCount (it_mgr s) = 0" and a: "a < length (ctxs (it_mgr s))" and free: "it_lock s a = None"
  then have "sum ?d {..<length (ctxs (it_mgr s))} = 0" using pending_sum [OF inv] by linarith
  then have "?d a = 0" using nn a by (subst (asm) sum_nonneg_eq_0_iff) simp_all
  then have "live_count (ctxs (it_mgr s) ! a) = 0" using free by (simp add: acts_at_def)
  then show "fc_events (ctxs (it_mgr s) ! a) = 0"
    using th_invD(1) [OF inv a] by (auto simp: ctx_ok_def live_count_def event_defs split: if_splits)
qed

text \<open>Runs with their side conditions checked, and one of three threads, two inside at the end.\<close>

fun th_exec :: "'cb th_op list \<Rightarrow> 'cb io_threads \<Rightarrow> 'cb io_threads option" where
  "th_exec [] s = Some s"
| "th_exec (op # ops) s =
    (if th_allowed op s then (case th_do op s of Inr s' \<Rightarrow> th_exec ops s' | Inl e \<Rightarrow> None) else None)"

lemma th_exec_run: "th_exec ops s = Some s' \<Longrightarrow> th_run s0 s \<Longrightarrow> th_run s0 s'"
  by (induction ops arbitrary: s) (auto intro: th_run.th_step split: if_splits sum.splits)

definition demo_ops :: "string th_op list" where
  "demo_ops = [S_Call 1 (C_Add 7 (Some 0) (1, EXEC) READ (Some ''a'')), S_Call 2 (C_Add 8 (Some 0) (2, EXEC) WRITE None),
     S_Call 3 (C_Add 40 (Some 0) (3, EXEC) READ None), S_Enter 1 0, S_Act 1, S_Enter 2 0, S_Grow 3, S_Act 2, S_Act 1, S_Act 1,
     S_Call 1 (C_CancelAll 7), S_Enter 1 0, S_Act 1, S_Call 4 (C_Add 9 (Some 0) (4, EXEC) READ (Some ''b'')), S_Enter 4 0]"

definition demo_threads :: "string io_threads" where
  "demo_threads = (case th_exec demo_ops (it_start demo_io) of Some s \<Rightarrow> s | None \<Rightarrow> undefined)"

lemma demo_threads_state:
  "case th_exec demo_ops (it_start demo_io) of
     None \<Rightarrow> False
   | Some s \<Rightarrow> it_pc s 2 = E_Inside 8 [A_Register WRITE (Some 0) (2, EXEC) None] \<and>
       it_pc s 1 = E_Inside 7 [A_Count (-1), A_Empty] \<and> m_pendingEventCount (it_mgr s) = 2 \<and>
       length (m_fdContexts (it_mgr s)) = 60"
  by code_simp

lemma demo_threads_run: "th_run (it_start demo_io) demo_threads"
  using demo_threads_state th_exec_run [OF _ th_start]
  by (auto simp: demo_threads_def split: option.splits)

section \<open>The theorem\<close>

text \<open>
  C5. Calls of \<^verbatim>\<open>addEvent\<close>, \<^verbatim>\<open>delEvent\<close>, \<^verbatim>\<open>cancelEvent\<close>, \<^verbatim>\<open>cancelAll\<close> and the handling
  of kernel events by any number of threads, cut wherever another thread can act, are atomic. In any
  interleaving, up to the first growth that comes too late or the first failed assertion, each step is
  what \<open>atomic_step\<close> says: the operation a thread was called for takes effect at once on the table with all that
  is under way, when it gets the mutex, and the thread then hands over the very tasks that operation hands over.
  Whenever no thread is inside a mutex of a context, that table is the real one, and the count is never
  negative. An assertion fails only in an operation that fails as a whole (\<open>io_aborts\<close>), and a late
  growth cuts the table.
\<close>
theorem event_calls_atomic:
  assumes "IOManager_new addr others other_pipes epfd fds pipe_rt fcntl_rt ctl_rt threads use_caller name cur root tid tids = Inr m0"
    and "th_run (it_start m0) s" and "th_called op s"
  shows "(if th_aborts op s then \<exists>e. own_steps op s = Inl (Assertion e)
      else if late_growth op s
      then \<exists>s'. th_do op s = Inr s' \<and> length (m_fdContexts (it_mgr s')) < length (m_fdContexts (it_mgr s))
      else \<exists>s'. th_do op s = Inr s' \<and> atomic_step op s s') \<and>
    ((\<exists>t a xs. it_pc s t = E_Inside a xs) \<or> view s = it_mgr s) \<and> 0 \<le> m_pendingEventCount (it_mgr s)"
proof -
  note inv = th_run_start [OF assms(1,2)]
  have "\<exists>e. own_steps op s = Inl (Assertion e)" if "th_aborts op s"
    using that enter_aborts [OF inv] by (cases op) auto
  moreover have "\<exists>s'. th_do op s = Inr s' \<and> atomic_step op s s'" if "\<not> th_aborts op s" "\<not> late_growth op s"
    using th_sim [OF inv, of op] assms(3) that unfolding th_allowed_def simulated_def by blast
  moreover note late_growth_cuts [OF inv, of op]
  ultimately have "if th_aborts op s then \<exists>e. own_steps op s = Inl (Assertion e)
      else if late_growth op s
      then \<exists>s'. th_do op s = Inr s' \<and> length (m_fdContexts (it_mgr s')) < length (m_fdContexts (it_mgr s))
      else \<exists>s'. th_do op s = Inr s' \<and> atomic_step op s s'"
    by (cases "th_aborts op s"; cases "late_growth op s"; simp)
  with nobody_inside [OF inv] pending_covers(1) [OF inv] show ?thesis by blast
qed

theorem event_calls_atomic_witness:
  "\<exists>s'. th_do (S_Act 1) demo_threads = Inr s' \<and> atomic_step (S_Act 1) demo_threads s'"
  using event_calls_atomic [OF demo_io(1) [unfolded demo_new_def] demo_threads_run, of "S_Act 1"] by simp

end
