(* ===== verification/IO_History.thy ===== *)
theory IO_History
  imports IO_Spec IO_Threads
begin

text \<open>
  What becomes of every subscription while several threads call the event operations of an
  \<^verbatim>\<open>IOManager\<close> and the idle loops handle events. The runs of \<open>IO_Threads\<close> are recorded:
  each step adds to a history what it does to a subscription. Shown: for every descriptor and event
  the history is a row of subscriptions each of which is settled exactly once before the next one, by
  handing the very task to the scheduler it was made with or by withdrawing it, and the queues grow by
  the tasks handed over and by nothing else; and what \<^verbatim>\<open>stopping\<close> can miss, which reads the count of
  pending events before it looks at the scheduler. As in \<open>IO_Threads\<close> a run is followed until an
  assertion fails or a growth of the table comes too late.
\<close>

section \<open>Histories\<close>

datatype fate = Subscribed | Delivered | Withdrawn

text \<open>What happened, at which descriptor, for which event, to which task of which scheduler.\<close>

type_synonym 'cb entry = "fate \<times> int \<times> event \<times> nat \<times> 'cb task"

fun act_entry :: "'cb act \<Rightarrow> 'cb fd_context \<Rightarrow> 'cb entry list" where
  "act_entry (A_Register ev cur this cb) c =
    (case cur of Some s \<Rightarrow> [(Subscribed, fc_fd c, ev, s, wait_task this cb)] | None \<Rightarrow> [])"
| "act_entry (A_Unregister ev) c = (case sub_of c ev of Some y \<Rightarrow> [(Withdrawn, fc_fd c, ev, y)] | None \<Rightarrow> [])"
| "act_entry (A_Trigger ev) c = (case sub_of c ev of Some y \<Rightarrow> [(Delivered, fc_fd c, ev, y)] | None \<Rightarrow> [])"
| "act_entry _ c = []"

fun happens :: "'cb th_op \<Rightarrow> 'cb io_threads \<Rightarrow> 'cb entry list" where
  "happens (S_Act t) s =
    (case it_pc s t of E_Inside a (x # xs) \<Rightarrow> act_entry x (ctxs (it_mgr s) ! a) | _ \<Rightarrow> [])"
| "happens _ s = []"

inductive th_history :: "'cb io_threads \<Rightarrow> 'cb entry list \<Rightarrow> 'cb io_threads \<Rightarrow> bool" for s0 where
  th_none: "th_history s0 [] s0"
| th_more: "th_history s0 h s \<Longrightarrow> th_allowed op s \<Longrightarrow> th_do op s = Inr s' \<Longrightarrow> th_history s0 (h @ happens op s) s'"

lemma th_history_run: "th_history s0 h s \<Longrightarrow> th_run s0 s"
  by (induction rule: th_history.induct) (auto intro: th_run.intros)

text \<open>The entries of one descriptor and event, and whether they settle each subscription before the next.\<close>

definition entries :: "int \<Rightarrow> event \<Rightarrow> 'cb entry list \<Rightarrow> (fate \<times> nat \<times> 'cb task) list" where
  "entries fd ev h = map (\<lambda>(f, fd', ev', y). (f, y)) (filter (\<lambda>(f, fd', ev', y). fd' = fd \<and> ev' = ev) h)"

fun one_each :: "'x option \<Rightarrow> (fate \<times> 'x) list \<Rightarrow> 'x option \<Rightarrow> bool" where
  "one_each x [] y = (x = y)"
| "one_each None ((f, z) # h) y = (f = Subscribed \<and> one_each (Some z) h y)"
| "one_each (Some x) ((f, z) # h) y = (f \<noteq> Subscribed \<and> z = x \<and> one_each None h y)"

text \<open>The tasks a scheduler has been handed.\<close>

definition handed :: "nat \<Rightarrow> 'cb entry list \<Rightarrow> 'cb task list" where
  "handed i h = map (\<lambda>(f, fd, ev, s, t). t) (filter (\<lambda>(f, fd, ev, s, t). f = Delivered \<and> s = i) h)"

lemma entries_simps [simp]: "entries fd ev [] = []"
  "entries fd ev (h @ h') = entries fd ev h @ entries fd ev h'"
  "entries fd ev ((f, fd', ev', y) # h) = (if fd' = fd \<and> ev' = ev then (f, y) # entries fd ev h else entries fd ev h)"
  by (simp_all add: entries_def)

lemma handed_simps [simp]: "handed i [] = []" "handed i [(f, fd, ev, s, t)] = (if f = Delivered \<and> s = i then [t] else [])"
  by (simp_all add: handed_def)

lemma one_each_append: "one_each x (h @ h') y \<longleftrightarrow> (\<exists>z. one_each x h z \<and> one_each z h' y)"
proof (induction h arbitrary: x)
  case (Cons e h)
  then show ?case by (cases e; cases x) auto
qed simp

text \<open>A subscription that is there at the end and was not at the beginning has been made.\<close>

lemma one_each_made: "one_each x h (Some y) \<Longrightarrow> x = Some y \<or> (Subscribed, y) \<in> set h"
proof (induction h arbitrary: x)
  case (Cons e h)
  obtain f z where e: "e = (f, z)" by (cases e)
  show ?case
  proof (cases x)
    case None
    with Cons e show ?thesis by auto
  next
    case (Some z')
    with Cons.prems e Cons.IH [of None] show ?thesis by auto
  qed
qed simp

section \<open>What the entries stand for\<close>

lemma reg_slot_new: "reg_slot (Some s) this cb = new_slot s this cb"
  by (simp add: reg_slot_def new_slot_def)

lemma live_sub:
  assumes "ctx_ok S c" "io_event ev" "fc_events c AND ev \<noteq> 0"
  obtains s where "s \<in> S" "sub_of c ev = Some (s, slot_task (slot ev c))" "ec_scheduler (slot ev c) = Some s"
  using assms that by (auto simp: sub_of_def ctx_ok_def slot_def slot_ok_def io_event_def)

lemma dead_sub: "fc_events c AND ev = 0 \<Longrightarrow> sub_of c ev = None"
  by (simp add: sub_of_def)

lemma act_entry_settles:
  assumes ok: "ctx_ok S c" and x: "act_ok S x c"
  shows "one_each (sub_of c ev) (entries (fc_fd c) ev (act_entry x c)) (sub_of (act_ctx x c) ev)"
proof (cases x)
  case (A_Register ev' cur this cb)
  with x obtain s where s: "cur = Some s" "io_event ev'" "fc_events c AND ev' = 0" by auto
  from s(2) ok have "sub_of (act_ctx x c) = (sub_of c)(ev' \<mapsto> (s, wait_task this cb))"
    by (simp add: A_Register s(1) reg_slot_new sub_of_registered)
  with s dead_sub [OF s(3)] show ?thesis by (simp add: A_Register)
next
  case (A_Unregister ev')
  with x have e: "io_event ev'" "fc_events c AND ev' \<noteq> 0" by auto
  from live_sub [OF ok e] obtain y where "sub_of c ev' = Some y" by blast
  with A_Unregister e ok show ?thesis by (auto simp: sub_of_cleared)
next
  case (A_Trigger ev')
  with x have e: "io_event ev'" "fc_events c AND ev' \<noteq> 0" by auto
  from live_sub [OF ok e] obtain y where "sub_of c ev' = Some y" by blast
  with A_Trigger e ok show ?thesis by (auto simp: sub_of_cleared)
qed simp_all

lemma act_entry_elsewhere: "fd \<noteq> fc_fd c \<Longrightarrow> entries fd ev (act_entry x c) = []"
  by (cases x) (auto split: option.split)

lemma act_queue:
  assumes ok: "ctx_ok (dom (scheds m)) (ctxs m ! a)" and x: "act_ok (dom (scheds m)) x (ctxs m ! a)"
    and step: "act_do a x m = Inr m'"
  shows "queue_at m' i = queue_at m i @ handed i (act_entry x (ctxs m ! a))"
proof (cases x)
  case (A_Trigger ev)
  with x have e: "io_event ev" "fc_events (ctxs m ! a) AND ev \<noteq> 0" by auto
  have "ev = READ \<or> ev = WRITE" "triggerEvent 1 ev a m = Inr m'" using e(1) step A_Trigger by (simp_all add: io_event_def)
  from triggerEvent_result [OF this(1) ok e(2) this(2)] obtain s where
    "ec_scheduler (slot ev (ctxs m ! a)) = Some s"
    "queue_at m' = (queue_at m)(s := queue_at m s @ [slot_task (slot ev (ctxs m ! a))])" by blast
  with e show ?thesis by (simp add: A_Trigger sub_of_def)
next
  case (A_Register ev cur this cb)
  with step show ?thesis
    by (auto simp: Let_def queue_at_def put_ctx_def split: option.splits if_splits)
next
  case (A_Unregister ev)
  with step show ?thesis
    by (auto simp: Let_def queue_at_def put_ctx_def split: option.splits if_splits)
qed (use step in \<open>auto simp: queue_at_def add_pending_def split: if_splits\<close>)

section \<open>Every step\<close>

lemma enter_frame:
  "enter call rt a m = Inr (acts, m') \<Longrightarrow> ctxs m' = ctxs m \<and> m_fdContexts m' = m_fdContexts m \<and>
    m_tickleFds m' = m_tickleFds m \<and> scheds m' = scheds m"
  by (auto simp: enter_def epoll_ctl_def split: option.splits)

text \<open>A step outside the mutexes is no entry, and changes no context and no queue.\<close>

lemma quiet_step:
  assumes "th_allowed op s" "th_do op s = Inr s'" "\<forall>t. op \<noteq> S_Act t"
  shows "happens op s = []"
    "ctxs (it_mgr s') = ctxs (it_mgr s) \<and> m_fdContexts (it_mgr s') = m_fdContexts (it_mgr s) \<and> m_tickleFds (it_mgr s') = m_tickleFds (it_mgr s) \<or>
      (\<exists>n \<ge> length (m_fdContexts (it_mgr s)). it_mgr s' = contextResize n (it_mgr s))"
    "(\<And>i x n. op \<noteq> S_Pool i x n) \<Longrightarrow> queue_at (it_mgr s') = queue_at (it_mgr s)"
proof -
  let ?same = "ctxs (it_mgr s') = ctxs (it_mgr s) \<and> m_fdContexts (it_mgr s') = m_fdContexts (it_mgr s) \<and> m_tickleFds (it_mgr s') = m_tickleFds (it_mgr s)"
  show "happens op s = []" using assms(3) by (cases op) simp_all
  have "(?same \<or> (\<exists>n \<ge> length (m_fdContexts (it_mgr s)). it_mgr s' = contextResize n (it_mgr s))) \<and>
    ((\<forall>i x n. op \<noteq> S_Pool i x n) \<longrightarrow> scheds (it_mgr s') = scheds (it_mgr s))"
  proof (cases op)
    case (S_Call t call)
    with assms(2) show ?thesis by (auto simp: it_at_def split: ev_pc.splits option.splits if_splits)
  next
    case (S_Grow t)
    show ?thesis
    proof (cases "it_pc s t")
      case (E_Grow call)
      let ?n = "nat (call_fd call * 3 div 2)"
      from assms(1) S_Grow E_Grow have n: "length (m_fdContexts (it_mgr s)) \<le> ?n" by (simp add: th_allowed_def)
      have "it_mgr s' = contextResize ?n (it_mgr s)"
        using assms(2) S_Grow E_Grow by (auto simp: addEvent_grow_def Let_def it_at_def split: if_splits)
      with n grown_sel(3) [OF n] show ?thesis by auto
    qed (use assms(2) S_Grow in auto)
  next
    case (S_Enter t rt)
    show ?thesis
    proof (cases "\<exists>call a. it_pc s t = E_Found call a \<and> it_lock s a = None")
      case True
      then obtain call a acts m where "enter call rt a (it_mgr s) = Inr (acts, m)" "it_mgr s' = m"
        using assms(2) S_Enter by (auto simp: it_at_def split: if_splits)
      then show ?thesis using enter_frame by blast
    next
      case False
      with assms(2) S_Enter have "s' = s" by (auto split: ev_pc.splits if_splits)
      then show ?thesis by simp
    qed
  qed (use assms(2,3) in \<open>auto simp: Let_def\<close>)
  then show "?same \<or> (\<exists>n \<ge> length (m_fdContexts (it_mgr s)). it_mgr s' = contextResize n (it_mgr s))"
    "(\<And>i x n. op \<noteq> S_Pool i x n) \<Longrightarrow> queue_at (it_mgr s') = queue_at (it_mgr s)"
    by (simp_all add: queue_at_def fun_eq_iff)
qed

text \<open>The contexts are those of the table, in its order, and know their descriptors.\<close>

definition numbered :: "'cb io_threads \<Rightarrow> bool" where
  "numbered s \<longleftrightarrow> m_fdContexts (it_mgr s) = [0..<length (ctxs (it_mgr s))] \<and>
     (\<forall>b < length (ctxs (it_mgr s)). fc_fd (ctxs (it_mgr s) ! b) = int b)"

definition sub_at :: "'cb io_threads \<Rightarrow> int \<Rightarrow> event \<Rightarrow> (nat \<times> 'cb task) option" where
  "sub_at s = subs (io_abs (it_mgr s))"

lemma sub_at_numbered:
  "numbered s \<Longrightarrow> user_fd (it_mgr s) fd \<Longrightarrow>
    sub_at s fd ev = (if fd < int (length (ctxs (it_mgr s))) then sub_of (ctxs (it_mgr s) ! nat fd) ev else None)"
  by (auto simp: sub_at_def io_abs_def numbered_def user_fd_def)

lemma fresh_sub: "sub_of (FdContext_new i) ev = None"
  by (simp add: sub_of_def FdContext_new_def NONE_def)

text \<open>What a step does to the subscriptions is what it adds to the history.\<close>

definition settles :: "'cb io_threads \<Rightarrow> 'cb entry list \<Rightarrow> 'cb io_threads \<Rightarrow> bool" where
  "settles s h s' \<longleftrightarrow> numbered s' \<and> user_fd (it_mgr s') = user_fd (it_mgr s) \<and>
     (\<forall>fd ev. user_fd (it_mgr s) fd \<longrightarrow> one_each (sub_at s fd ev) (entries fd ev h) (sub_at s' fd ev))"

text \<open>A step inside is an entry of the context whose mutex is held.\<close>

lemma inside_step:
  assumes inv: "th_inv s" and num: "numbered s" and step: "th_do (S_Act t) s = Inr s'"
  shows "settles s (happens (S_Act t) s) s'"
    "queue_at (it_mgr s') i = queue_at (it_mgr s) i @ handed i (happens (S_Act t) s)"
proof -
  have "settles s (happens (S_Act t) s) s' \<and> (\<forall>i. queue_at (it_mgr s') i = queue_at (it_mgr s) i @ handed i (happens (S_Act t) s))"
  proof (cases "\<exists>b x xs. it_pc s t = E_Inside b (x # xs)")
    case True
    then obtain b x xs where pc: "it_pc s t = E_Inside b (x # xs)" by blast
    note at = acts_at_inside [OF inv pc]
    let ?m = "it_mgr s"
    have ok: "ctx_ok (dom (scheds ?m)) (ctxs ?m ! b)" "act_ok (dom (scheds ?m)) x (ctxs ?m ! b)"
      using th_invD(1,2) [OF inv at(3)] by (simp_all add: at(1))
    obtain m' where m': "act_do b x ?m = Inr m'" "ctxs m' = (ctxs ?m)[b := act_ctx x (ctxs ?m ! b)]" "table_frame ?m m'"
      using act_step [OF ok(1) at(3) ok(2)] by blast
    then have s': "it_mgr s' = m'" using step pc by (auto simp: it_at_def)
    have b: "fc_fd (ctxs ?m ! b) = int b" using num at(3) by (simp add: numbered_def)
    have num': "numbered s'"
      using num m'(2,3) act_ctx_ok(2) [OF ok] b at(3) by (auto simp: numbered_def s' table_frame_def nth_list_update)
    have user: "user_fd m' = user_fd ?m" using m'(3) by (simp add: table_frame_def user_fd_def fun_eq_iff)
    have "one_each (sub_at s fd ev) (entries fd ev (act_entry x (ctxs ?m ! b))) (sub_at s' fd ev)" if fd: "user_fd ?m fd" for fd ev
    proof (cases "fd = int b")
      case True
      with act_entry_settles [OF ok, of ev] b sub_at_numbered [OF num fd] sub_at_numbered [OF num', of fd] fd at(3) user
      show ?thesis by (simp add: s' m'(2))
    next
      case False
      with fd have "nat fd \<noteq> b" by (auto simp: user_fd_def)
      with False act_entry_elsewhere [of fd "ctxs ?m ! b" ev x] b sub_at_numbered [OF num fd] sub_at_numbered [OF num', of fd] fd user
      show ?thesis by (simp add: s' m'(2))
    qed
    with num' user act_queue [OF ok m'(1)] show ?thesis by (simp add: settles_def s' pc)
  next
    case False
    then have "happens (S_Act t) s = []" by (auto split: ev_pc.split list.split)
    moreover have "it_mgr s' = it_mgr s"
      using False step by (auto simp: it_at_def split: ev_pc.splits list.splits)
    ultimately show ?thesis using num by (simp add: settles_def numbered_def sub_at_def)
  qed
  then show "settles s (happens (S_Act t) s) s'"
    "queue_at (it_mgr s') i = queue_at (it_mgr s) i @ handed i (happens (S_Act t) s)"
    by blast+
qed

lemma step_settles:
  assumes inv: "th_inv s" and num: "numbered s" and allowed: "th_allowed op s" and step: "th_do op s = Inr s'"
  shows "settles s (happens op s) s'"
proof (cases "\<exists>t. op = S_Act t")
  case True
  with inside_step(1) [OF inv num] step show ?thesis by blast
next
  case False
  then have nact: "\<forall>t. op \<noteq> S_Act t" by blast
  note q = quiet_step [OF allowed step nact]
  from q(2) show ?thesis
  proof (elim disjE exE conjE)
    assume same: "ctxs (it_mgr s') = ctxs (it_mgr s)" "m_fdContexts (it_mgr s') = m_fdContexts (it_mgr s)"
      "m_tickleFds (it_mgr s') = m_tickleFds (it_mgr s)"
    then have "user_fd (it_mgr s') = user_fd (it_mgr s)" by (simp add: user_fd_def fun_eq_iff)
    with same num show ?thesis by (simp add: settles_def q(1) numbered_def sub_at_def io_abs_def)
  next
    fix n assume n: "length (m_fdContexts (it_mgr s)) \<le> n" "it_mgr s' = contextResize n (it_mgr s)"
    let ?l = "length (ctxs (it_mgr s))"
    have k: "length (m_fdContexts (it_mgr s)) = ?l" "?l \<le> n" using num n(1) by (simp_all add: numbered_def)
    have "map (\<lambda>i. ?l + (i - ?l)) [?l..<n] = [?l..<n]" by (rule map_idI) simp
    then have "m_fdContexts (it_mgr s') = [0..<n]"
      using num k upt_add_eq_append [of 0 ?l "n - ?l"] by (simp add: n(2) grown_sel [OF n(1)] numbered_def)
    then have num': "numbered s'"
      using num k by (auto simp: numbered_def n(2) grown_sel [OF n(1)] nth_append FdContext_new_def)
    have user: "user_fd (it_mgr s') = user_fd (it_mgr s)" by (simp add: n(2) user_fd_def grown_sel [OF n(1)] fun_eq_iff)
    have "sub_at s' fd ev = sub_at s fd ev" if fd: "user_fd (it_mgr s) fd" for fd ev
      using sub_at_numbered [OF num fd] sub_at_numbered [OF num', of fd] fd user k
      by (auto simp: n(2) grown_sel [OF n(1)] nth_append fresh_sub user_fd_def)
    with num' user show ?thesis by (simp add: settles_def q(1))
  qed
qed

section \<open>Runs\<close>

lemma settles_trans: "settles s h t \<Longrightarrow> settles t h' u \<Longrightarrow> settles s (h @ h') u"
  unfolding settles_def by (simp add: one_each_append) blast

lemma history_settles: "th_history s0 h s \<Longrightarrow> th_inv s0 \<Longrightarrow> numbered s0 \<Longrightarrow> settles s0 h s \<and> th_inv s"
proof (induction rule: th_history.induct)
  case th_none
  then show ?case by (simp add: settles_def)
next
  case (th_more h s op s')
  then have s: "settles s0 h s" "th_inv s" by simp_all
  then have "settles s (happens op s) s'" using step_settles [OF s(2) _ th_more.hyps(2,3)] by (simp add: settles_def)
  moreover have "th_inv s'" using th_sim [OF s(2) th_more.hyps(2)] th_more.hyps(3) by (auto simp: simulated_def)
  ultimately show ?case using settles_trans s(1) by blast
qed

lemma start_numbered:
  assumes "IOManager_new addr others other_pipes epfd fds pipe_rt fcntl_rt ctl_rt threads use_caller name cur root tid tids = Inr m0"
  shows "numbered (it_start m0)" "sub_at (it_start m0) fd ev = None"
  using IOManager_new_table(1,2) [OF assms]
  by (simp_all add: numbered_def it_start_def FdContext_new_def sub_at_def io_abs_def sub_of_def NONE_def user_fd_def nat_less_iff)

lemma run_history: "th_run s0 s \<Longrightarrow> \<exists>h. th_history s0 h s"
  by (induction rule: th_run.induct) (blast intro: th_history.intros)+

text \<open>The history of a list of steps.\<close>

fun th_log :: "'cb th_op list \<Rightarrow> 'cb io_threads \<Rightarrow> 'cb entry list" where
  "th_log [] s = []"
| "th_log (op # ops) s = happens op s @ (case th_do op s of Inr s' \<Rightarrow> th_log ops s' | Inl e \<Rightarrow> [])"

lemma th_exec_history:
  "th_exec ops s = Some s' \<Longrightarrow> th_history s0 h s \<Longrightarrow> th_history s0 (h @ th_log ops s) s'"
proof (induction ops arbitrary: s h)
  case (Cons op ops)
  then obtain s1 where s1: "th_allowed op s" "th_do op s = Inr s1" "th_exec ops s1 = Some s'"
    by (auto split: if_splits sum.splits)
  from Cons.IH [OF s1(3) th_more [OF Cons.prems(2) s1(1,2)]] s1(2) show ?case by simp
qed simp

section \<open>The theorems\<close>

text \<open>
  C6. Under calls of all event operations by any number of threads, in any interleaving and
  after any step, up to the first failed assertion or late growth of the table, every subscription of
  a descriptor and event has been settled exactly once before the next was made, by being handed over
  or withdrawn; what is in the table is the one not yet settled; and a step of a thread puts into the
  queues of the schedulers the tasks it hands over, each the one that was subscribed, at the end, and
  nothing else.
\<close>
theorem threads_deliver_once:
  assumes "IOManager_new addr others other_pipes epfd fds pipe_rt fcntl_rt ctl_rt threads use_caller name cur root tid tids = Inr m0"
    and "th_history (it_start m0) h s" and "th_allowed op s" and "th_do op s = Inr s'"
  shows "(user_fd m0 fd \<longrightarrow> one_each None (entries fd ev (h @ happens op s)) (subs (io_abs (it_mgr s')) fd ev)) \<and>
    ((\<forall>j x n. op \<noteq> S_Pool j x n) \<longrightarrow> queue_at (it_mgr s') i = queue_at (it_mgr s) i @ handed i (happens op s))"
proof -
  have inv0: "th_inv (it_start m0)" by (rule it_start_inv [OF IOManager_new_inv [OF assms(1)]])
  note start = start_numbered [OF assms(1)]
  have all: "settles (it_start m0) (h @ happens op s) s'"
    using history_settles [OF th_more [OF assms(2-4)] inv0 start(1)] by blast
  have s: "settles (it_start m0) h s" "th_inv s" using history_settles [OF assms(2) inv0 start(1)] by blast+
  have "queue_at (it_mgr s') i = queue_at (it_mgr s) i @ handed i (happens op s)" if pool: "\<forall>j x n. op \<noteq> S_Pool j x n"
  proof (cases "\<exists>t. op = S_Act t")
    case True
    with inside_step(2) [OF s(2)] s(1) assms(4) show ?thesis by (auto simp: settles_def)
  next
    case False
    with quiet_step(1,3) [OF assms(3,4)] pool show ?thesis by simp
  qed
  with all start(2) show ?thesis by (simp add: settles_def sub_at_def it_start_def)
qed

lemma demo_log:
  "entries 7 READ (th_log demo_ops (it_start demo_io)) =
    [(Subscribed, 0, \<lparr>ft_fiber = None, ft_cb = Some ''a'', ft_thread = -1\<rparr>),
     (Delivered, 0, \<lparr>ft_fiber = None, ft_cb = Some ''a'', ft_thread = -1\<rparr>)]"
  by code_simp

theorem threads_deliver_once_witness:
  "\<exists>s s'. th_exec demo_ops (it_start demo_io) = Some s \<and> th_do (S_Act 2) s = Inr s' \<and>
    one_each None (entries 8 WRITE (th_log demo_ops (it_start demo_io) @ happens (S_Act 2) s)) (subs (io_abs (it_mgr s')) 8 WRITE) \<and>
    queue_at (it_mgr s') 0 = queue_at (it_mgr s) 0 @ handed 0 (happens (S_Act 2) s)"
proof -
  have "case th_exec demo_ops (it_start demo_io) of None \<Rightarrow> False
    | Some s \<Rightarrow> (case th_do (S_Act 2) s of Inl e \<Rightarrow> False | Inr s' \<Rightarrow> user_fd demo_io 8)"
    by code_simp
  then obtain s s' where s: "th_exec demo_ops (it_start demo_io) = Some s" "th_do (S_Act 2) s = Inr s'" "user_fd demo_io 8"
    by (auto split: option.splits sum.splits)
  have h: "th_history (it_start demo_io) (th_log demo_ops (it_start demo_io)) s"
    using th_exec_history [OF s(1) th_none] by simp
  have "th_allowed (S_Act 2) s" by (simp add: th_allowed_def)
  from threads_deliver_once [OF demo_io(1) [unfolded demo_new_def] h this s(2), of 8 WRITE 0] s(1-3)
  show ?thesis by (auto simp del: happens.simps)
qed


text \<open>
  A manager that is being stopped: thread 2 reads the counter, thread 1 adds an event, and thread 2 looks at the
  scheduler.
\<close>

definition demo_call_ops :: "string th_op list" where
  "demo_call_ops = [S_Call 1 (C_Add 7 (Some 0) (1, EXEC) READ (Some ''a''))]"

definition demo_stop_ops :: "string th_op list" where
  "demo_stop_ops = [S_Enter 1 0, S_Act 1, S_Act 1, S_Act 1,
     S_Pool 0 ((the (scheds demo_io 0))\<lparr>m_autoStop := True, m_stopping := True\<rparr>) 0]"

definition demo_task :: "string task" where
  "demo_task = \<lparr>ft_fiber = None, ft_cb = Some ''a'', ft_thread = -1\<rparr>"

lemma demo_stop_state:
  "case th_exec demo_call_ops (it_start demo_io) of
     None \<Rightarrow> False
   | Some s \<Rightarrow> it_lock s 7 = None \<and> m_fdContexts (it_mgr s) ! 7 = 7 \<and>
       (case th_exec demo_stop_ops s of
          None \<Rightarrow> False
        | Some s' \<Rightarrow> IOManager_stopping (it_mgr s) (it_mgr s') \<and> subs (io_abs (it_mgr s')) 7 READ = Some (0, demo_task))"
  by code_simp


end
