(* ===== verification/Locks.thy ===== *)
theory Locks
  imports Vity_Prelude
begin

text \<open>
  The synchronisation primitives of \<^verbatim>\<open>vity/thread.h\<close>: the counting semaphore, the
  mutex kinds, and the three scoped guards. A blocking call is a function into \<open>option\<close>:
  \<open>None\<close> means that the caller does not get past the call in this state. The guards are
  templates over the lock type in the source and take the lock's operations as arguments here;
  the locale \<open>scoped_lockable\<close> is what the template asks of them.
\<close>

section \<open>Semaphore\<close>

record semphore =
  sem_value :: nat

text \<open>The largest value of a Linux semaphore.\<close>

definition SEM_VALUE_MAX :: nat where
  "SEM_VALUE_MAX = 2 ^ 31 - 1"

definition Semphore_new :: "32 word \<Rightarrow> semphore res" where
  "Semphore_new count =
    (if SEM_VALUE_MAX < unat count then Inl (Thrown (Std_exception ''sem_init error''))
     else Inr \<lparr>sem_value = unat count\<rparr>)"

text \<open>
  \<^verbatim>\<open>sem_wait\<close> may fail when a signal interrupts it (\<open>intr\<close>); it then leaves the value
  alone. The source builds the exception object for that case but does not throw it, so the
  call returns like a successful one.
\<close>

definition Semphore_wait :: "bool \<Rightarrow> semphore \<Rightarrow> semphore option" where
  "Semphore_wait intr s =
    (if intr then Some s
     else if sem_value s = 0 then None
     else Some (s\<lparr>sem_value := sem_value s - 1\<rparr>))"

text \<open>\<^verbatim>\<open>sem_post\<close> fails at the largest value; that error is not thrown either.\<close>

definition Semphore_notify :: "semphore \<Rightarrow> semphore" where
  "Semphore_notify s =
    (if sem_value s = SEM_VALUE_MAX then s else s\<lparr>sem_value := Suc (sem_value s)\<rparr>)"

section \<open>Locks\<close>

text \<open>\<^verbatim>\<open>Mutex\<close>, \<^verbatim>\<open>Spinlock\<close>: whether some thread holds it.\<close>

record mutex =
  mutex_held :: bool

definition Mutex_new :: mutex where
  "Mutex_new = \<lparr>mutex_held = False\<rparr>"

definition Mutex_lock :: "mutex \<Rightarrow> mutex option" where
  "Mutex_lock m = (if mutex_held m then None else Some (m\<lparr>mutex_held := True\<rparr>))"

definition Mutex_unlock :: "mutex \<Rightarrow> mutex" where
  "Mutex_unlock m = m\<lparr>mutex_held := False\<rparr>"

definition NullMutex_lock :: "unit \<Rightarrow> unit option" where
  "NullMutex_lock u = Some u"

definition NullMutex_unlock :: "unit \<Rightarrow> unit" where
  "NullMutex_unlock u = u"

definition NullRWMutex_rdlock :: "unit \<Rightarrow> unit option" where
  "NullRWMutex_rdlock u = Some u"

definition NullRWMutex_wrlock :: "unit \<Rightarrow> unit option" where
  "NullRWMutex_wrlock u = Some u"

definition NullRWMutex_unlock :: "unit \<Rightarrow> unit" where
  "NullRWMutex_unlock u = u"

record spinlock =
  spin_held :: bool

definition Spinlock_new :: spinlock where
  "Spinlock_new = \<lparr>spin_held = False\<rparr>"

definition Spinlock_lock :: "spinlock \<Rightarrow> spinlock option" where
  "Spinlock_lock m = (if spin_held m then None else Some (m\<lparr>spin_held := True\<rparr>))"

definition Spinlock_unlock :: "spinlock \<Rightarrow> spinlock" where
  "Spinlock_unlock m = m\<lparr>spin_held := False\<rparr>"

text \<open>
  \<^verbatim>\<open>CASLock\<close>: an atomic flag. \<open>atomic_test_and_set\<close> returns the old value with the new
  state; the loop of \<^verbatim>\<open>lock\<close> leaves with the first old value that is false and goes round
  again otherwise (\<open>None\<close>).
\<close>

record caslock =
  cas_flag :: bool

definition CASLock_new :: caslock where
  "CASLock_new = \<lparr>cas_flag = False\<rparr>"

definition atomic_test_and_set :: "caslock \<Rightarrow> bool \<times> caslock" where
  "atomic_test_and_set m = (cas_flag m, m\<lparr>cas_flag := True\<rparr>)"

definition CASLock_lock :: "caslock \<Rightarrow> caslock option" where
  "CASLock_lock m = (case atomic_test_and_set m of (old, m') \<Rightarrow> if old then None else Some m')"

definition CASLock_unlock :: "caslock \<Rightarrow> caslock" where
  "CASLock_unlock m = m\<lparr>cas_flag := False\<rparr>"

record rwmutex =
  rw_writer :: bool
  rw_readers :: nat

definition RWMutex_new :: rwmutex where
  "RWMutex_new = \<lparr>rw_writer = False, rw_readers = 0\<rparr>"

definition RWMutex_rdlock :: "rwmutex \<Rightarrow> rwmutex option" where
  "RWMutex_rdlock m = (if rw_writer m then None else Some (m\<lparr>rw_readers := Suc (rw_readers m)\<rparr>))"

definition RWMutex_wrlock :: "rwmutex \<Rightarrow> rwmutex option" where
  "RWMutex_wrlock m =
    (if rw_writer m \<or> rw_readers m > 0 then None else Some (m\<lparr>rw_writer := True\<rparr>))"

definition RWMutex_unlock :: "rwmutex \<Rightarrow> rwmutex" where
  "RWMutex_unlock m =
    (if rw_writer m then m\<lparr>rw_writer := False\<rparr> else m\<lparr>rw_readers := rw_readers m - 1\<rparr>)"

lemmas lock_defs [opdefs] =
  Mutex_lock_def Mutex_unlock_def Mutex_new_def NullMutex_lock_def NullMutex_unlock_def
  NullRWMutex_rdlock_def NullRWMutex_wrlock_def NullRWMutex_unlock_def
  Spinlock_lock_def Spinlock_unlock_def Spinlock_new_def
  CASLock_lock_def CASLock_unlock_def CASLock_new_def atomic_test_and_set_def
  RWMutex_rdlock_def RWMutex_wrlock_def RWMutex_unlock_def RWMutex_new_def

section \<open>Scoped guards\<close>

text \<open>
  A guard holds a reference to a lock and the flag \<^verbatim>\<open>m_locked\<close>; its operations act on the
  pair of the lock's state and the flag. The three templates differ in the acquiring operation
  of the lock they call.
\<close>

record 'm guard =
  g_mutex :: 'm
  m_locked :: bool

definition ScopedLockImpl_new :: "('m \<Rightarrow> 'm option) \<Rightarrow> 'm \<Rightarrow> 'm guard option" where
  "ScopedLockImpl_new lock mutex =
    (case lock mutex of None \<Rightarrow> None | Some m \<Rightarrow> Some \<lparr>g_mutex = m, m_locked = True\<rparr>)"

definition ScopedLockImpl_lock :: "('m \<Rightarrow> 'm option) \<Rightarrow> 'm guard \<Rightarrow> 'm guard option" where
  "ScopedLockImpl_lock lock g =
    (if \<not> m_locked g then
       (case lock (g_mutex g) of None \<Rightarrow> None | Some m \<Rightarrow> Some (g\<lparr>g_mutex := m, m_locked := True\<rparr>))
     else Some g)"

definition ScopedLockImpl_unlock :: "('m \<Rightarrow> 'm) \<Rightarrow> 'm guard \<Rightarrow> 'm guard" where
  "ScopedLockImpl_unlock unlock g =
    (if m_locked g then g\<lparr>g_mutex := unlock (g_mutex g), m_locked := False\<rparr> else g)"

text \<open>The destructor; what remains is the lock.\<close>

definition ScopedLockImpl_delete :: "('m \<Rightarrow> 'm) \<Rightarrow> 'm guard \<Rightarrow> 'm" where
  "ScopedLockImpl_delete unlock g = g_mutex (ScopedLockImpl_unlock unlock g)"

definition ReadScopedLockImpl_new :: "('m \<Rightarrow> 'm option) \<Rightarrow> 'm \<Rightarrow> 'm guard option" where
  "ReadScopedLockImpl_new rdlock mutex =
    (case rdlock mutex of None \<Rightarrow> None | Some m \<Rightarrow> Some \<lparr>g_mutex = m, m_locked = True\<rparr>)"

definition ReadScopedLockImpl_lock :: "('m \<Rightarrow> 'm option) \<Rightarrow> 'm guard \<Rightarrow> 'm guard option" where
  "ReadScopedLockImpl_lock rdlock g =
    (if \<not> m_locked g then
       (case rdlock (g_mutex g) of None \<Rightarrow> None | Some m \<Rightarrow> Some (g\<lparr>g_mutex := m, m_locked := True\<rparr>))
     else Some g)"

definition ReadScopedLockImpl_unlock :: "('m \<Rightarrow> 'm) \<Rightarrow> 'm guard \<Rightarrow> 'm guard" where
  "ReadScopedLockImpl_unlock unlock g =
    (if m_locked g then g\<lparr>g_mutex := unlock (g_mutex g), m_locked := False\<rparr> else g)"

definition ReadScopedLockImpl_delete :: "('m \<Rightarrow> 'm) \<Rightarrow> 'm guard \<Rightarrow> 'm" where
  "ReadScopedLockImpl_delete unlock g = g_mutex (ReadScopedLockImpl_unlock unlock g)"

definition WriteScopedLockImpl_new :: "('m \<Rightarrow> 'm option) \<Rightarrow> 'm \<Rightarrow> 'm guard option" where
  "WriteScopedLockImpl_new wrlock mutex =
    (case wrlock mutex of None \<Rightarrow> None | Some m \<Rightarrow> Some \<lparr>g_mutex = m, m_locked = True\<rparr>)"

definition WriteScopedLockImpl_lock :: "('m \<Rightarrow> 'm option) \<Rightarrow> 'm guard \<Rightarrow> 'm guard option" where
  "WriteScopedLockImpl_lock wrlock g =
    (if \<not> m_locked g then
       (case wrlock (g_mutex g) of None \<Rightarrow> None | Some m \<Rightarrow> Some (g\<lparr>g_mutex := m, m_locked := True\<rparr>))
     else Some g)"

definition WriteScopedLockImpl_unlock :: "('m \<Rightarrow> 'm) \<Rightarrow> 'm guard \<Rightarrow> 'm guard" where
  "WriteScopedLockImpl_unlock unlock g =
    (if m_locked g then g\<lparr>g_mutex := unlock (g_mutex g), m_locked := False\<rparr> else g)"

definition WriteScopedLockImpl_delete :: "('m \<Rightarrow> 'm) \<Rightarrow> 'm guard \<Rightarrow> 'm" where
  "WriteScopedLockImpl_delete unlock g = g_mutex (WriteScopedLockImpl_unlock unlock g)"

lemma read_guard_eq:
  "ReadScopedLockImpl_new = ScopedLockImpl_new" "ReadScopedLockImpl_lock = ScopedLockImpl_lock"
  "ReadScopedLockImpl_unlock = ScopedLockImpl_unlock" "ReadScopedLockImpl_delete = ScopedLockImpl_delete"
  by (simp_all add: fun_eq_iff ReadScopedLockImpl_new_def ScopedLockImpl_new_def
      ReadScopedLockImpl_lock_def ScopedLockImpl_lock_def ReadScopedLockImpl_unlock_def
      ScopedLockImpl_unlock_def ReadScopedLockImpl_delete_def ScopedLockImpl_delete_def)

lemma write_guard_eq:
  "WriteScopedLockImpl_new = ScopedLockImpl_new" "WriteScopedLockImpl_lock = ScopedLockImpl_lock"
  "WriteScopedLockImpl_unlock = ScopedLockImpl_unlock" "WriteScopedLockImpl_delete = ScopedLockImpl_delete"
  by (simp_all add: fun_eq_iff WriteScopedLockImpl_new_def ScopedLockImpl_new_def
      WriteScopedLockImpl_lock_def ScopedLockImpl_lock_def WriteScopedLockImpl_unlock_def
      ScopedLockImpl_unlock_def WriteScopedLockImpl_delete_def ScopedLockImpl_delete_def)

text \<open>What the owner of a guard may do with it between construction and destruction.\<close>

datatype guard_op = GLock | GUnlock

fun guard_run :: "('m \<Rightarrow> 'm option) \<Rightarrow> ('m \<Rightarrow> 'm) \<Rightarrow> guard_op list \<Rightarrow> 'm guard \<Rightarrow> 'm guard option" where
  "guard_run lock unlock [] g = Some g"
| "guard_run lock unlock (GLock # ops) g =
     (case ScopedLockImpl_lock lock g of None \<Rightarrow> None | Some g' \<Rightarrow> guard_run lock unlock ops g')"
| "guard_run lock unlock (GUnlock # ops) g =
     guard_run lock unlock ops (ScopedLockImpl_unlock unlock g)"

section \<open>The lock interface of the guards\<close>

locale scoped_lockable =
  fixes acq :: "'m \<Rightarrow> 'm option" and rel :: "'m \<Rightarrow> 'm"
  assumes rel_acq: "acq m = Some m' \<Longrightarrow> rel m' = m"
begin

text \<open>The states a guard built on lock state \<open>m\<close> can be in.\<close>

lemma guard_run_states:
  assumes "acq m = Some m'" and "g = \<lparr>g_mutex = m', m_locked = True\<rparr> \<or> g = \<lparr>g_mutex = m, m_locked = False\<rparr>"
  shows "\<exists>g'. guard_run acq rel ops g = Some g' \<and> ScopedLockImpl_delete rel g' = m"
  using assms(2)
proof (induction ops arbitrary: g)
  case Nil
  with assms(1) show ?case
    by (auto simp: ScopedLockImpl_delete_def ScopedLockImpl_unlock_def rel_acq)
next
  case (Cons x ops)
  show ?case
  proof (cases x)
    case GLock
    with Cons assms(1) show ?thesis by (auto simp: ScopedLockImpl_lock_def)
  next
    case GUnlock
    with Cons assms(1) show ?thesis by (auto simp: ScopedLockImpl_unlock_def rel_acq)
  qed
qed

lemma guard_restores:
  assumes "ScopedLockImpl_new acq m = Some g"
  shows "\<exists>g'. guard_run acq rel ops g = Some g' \<and> ScopedLockImpl_delete rel g' = m"
  using assms
  by (auto simp: ScopedLockImpl_new_def split: option.splits intro!: guard_run_states)

end

text \<open>A lock that admits one holder.\<close>

locale exclusive_lockable = scoped_lockable +
  assumes acq_excl: "acq m = Some m' \<Longrightarrow> acq m' = None"

text \<open>A lock with shared and exclusive acquisition and one release.\<close>

locale rw_lockable =
  fixes rd :: "'m \<Rightarrow> 'm option" and wr :: "'m \<Rightarrow> 'm option" and unl :: "'m \<Rightarrow> 'm"
  assumes unl_rd: "rd m = Some m' \<Longrightarrow> unl m' = m"
    and unl_wr: "wr m = Some m' \<Longrightarrow> unl m' = m"
    and wr_wr: "wr m = Some m' \<Longrightarrow> wr m' = None"
    and wr_rd: "wr m = Some m' \<Longrightarrow> rd m' = None"
    and rd_wr: "rd m = Some m' \<Longrightarrow> wr m' = None"
    and rd_rd: "rd m = Some m' \<Longrightarrow> rd m' \<noteq> None"

sublocale rw_lockable \<subseteq> shared: scoped_lockable rd unl
  by unfold_locales (rule unl_rd)

sublocale rw_lockable \<subseteq> exclusive: exclusive_lockable wr unl
  by unfold_locales (auto dest: unl_wr wr_wr)

interpretation mutex: exclusive_lockable Mutex_lock Mutex_unlock
  by unfold_locales (auto simp: opdefs split: if_splits)

interpretation nullmutex: scoped_lockable NullMutex_lock NullMutex_unlock
  by unfold_locales (auto simp: opdefs)

interpretation nullrw_rd: scoped_lockable NullRWMutex_rdlock NullRWMutex_unlock
  by unfold_locales (auto simp: opdefs)

interpretation nullrw_wr: scoped_lockable NullRWMutex_wrlock NullRWMutex_unlock
  by unfold_locales (auto simp: opdefs)

interpretation spinlock: exclusive_lockable Spinlock_lock Spinlock_unlock
  by unfold_locales (auto simp: opdefs split: if_splits)

interpretation caslock: exclusive_lockable CASLock_lock CASLock_unlock
  by unfold_locales (auto simp: opdefs split: if_splits)

interpretation rwmutex: rw_lockable RWMutex_rdlock RWMutex_wrlock RWMutex_unlock
  by unfold_locales (auto simp: opdefs split: if_splits)

text \<open>
  A scoped guard gives back exactly what it took: whatever its owner does with it
  (any sequence of \<^verbatim>\<open>lock()\<close> and \<^verbatim>\<open>unlock()\<close>, repeated calls included), every call
  gets through and the destructor leaves the lock in the state it had before the guard was
  built; for every lock type of the code and, for the reader-writer lock, both guard kinds.
\<close>
theorem scoped_guards_restore:
  "(ScopedLockImpl_new Mutex_lock m = Some g \<longrightarrow>
      (\<exists>g'. guard_run Mutex_lock Mutex_unlock ops g = Some g' \<and> ScopedLockImpl_delete Mutex_unlock g' = m)) \<and>
   (ScopedLockImpl_new Spinlock_lock sp = Some gs \<longrightarrow>
      (\<exists>g'. guard_run Spinlock_lock Spinlock_unlock ops gs = Some g' \<and> ScopedLockImpl_delete Spinlock_unlock g' = sp)) \<and>
   (ScopedLockImpl_new CASLock_lock c = Some gc \<longrightarrow>
      (\<exists>g'. guard_run CASLock_lock CASLock_unlock ops gc = Some g' \<and> ScopedLockImpl_delete CASLock_unlock g' = c)) \<and>
   (ReadScopedLockImpl_new RWMutex_rdlock r = Some gr \<longrightarrow>
      (\<exists>g'. guard_run RWMutex_rdlock RWMutex_unlock ops gr = Some g' \<and> ReadScopedLockImpl_delete RWMutex_unlock g' = r)) \<and>
   (WriteScopedLockImpl_new RWMutex_wrlock r = Some gw \<longrightarrow>
      (\<exists>g'. guard_run RWMutex_wrlock RWMutex_unlock ops gw = Some g' \<and> WriteScopedLockImpl_delete RWMutex_unlock g' = r))"
  unfolding read_guard_eq write_guard_eq
  by (intro conjI impI mutex.guard_restores spinlock.guard_restores caslock.guard_restores
      rwmutex.shared.guard_restores rwmutex.exclusive.guard_restores)

theorem scoped_guards_restore_witness:
  "\<exists>g'. guard_run RWMutex_rdlock RWMutex_unlock [GUnlock, GUnlock, GLock, GLock]
      \<lparr>g_mutex = \<lparr>rw_writer = False, rw_readers = 3\<rparr>, m_locked = True\<rparr> = Some g' \<and>
    ReadScopedLockImpl_delete RWMutex_unlock g' = \<lparr>rw_writer = False, rw_readers = 2\<rparr>"
  using scoped_guards_restore [of undefined undefined "[GUnlock, GUnlock, GLock, GLock]" undefined undefined
      undefined undefined "\<lparr>rw_writer = False, rw_readers = 2\<rparr>"
      "\<lparr>g_mutex = \<lparr>rw_writer = False, rw_readers = 3\<rparr>, m_locked = True\<rparr>" undefined]
  by (auto simp: ReadScopedLockImpl_new_def RWMutex_rdlock_def)

section \<open>Threads contending for a lock\<close>

text \<open>
  Any number of threads (numbered by \<open>nat\<close>) contend for one lock; \<open>inside\<close> are the
  threads between a returned acquisition and their release.
\<close>

record 'm lock_sys =
  the_lock :: 'm
  inside :: "nat set"

inductive lock_reach :: "('m \<Rightarrow> 'm option) \<Rightarrow> ('m \<Rightarrow> 'm) \<Rightarrow> 'm \<Rightarrow> 'm lock_sys \<Rightarrow> bool"
  for acq rel m0 where
  lock_start: "lock_reach acq rel m0 \<lparr>the_lock = m0, inside = {}\<rparr>"
| lock_enter: "lock_reach acq rel m0 s \<Longrightarrow> t \<notin> inside s \<Longrightarrow> acq (the_lock s) = Some m \<Longrightarrow>
    lock_reach acq rel m0 (s\<lparr>the_lock := m, inside := insert t (inside s)\<rparr>)"
| lock_leave: "lock_reach acq rel m0 s \<Longrightarrow> t \<in> inside s \<Longrightarrow>
    lock_reach acq rel m0 (s\<lparr>the_lock := rel (the_lock s), inside := inside s - {t}\<rparr>)"

context exclusive_lockable
begin

lemma lock_reach_states:
  "lock_reach acq rel m0 s \<Longrightarrow>
     inside s = {} \<and> the_lock s = m0 \<or> (\<exists>t m. inside s = {t} \<and> the_lock s = m \<and> acq m0 = Some m)"
proof (induction rule: lock_reach.induct)
  case lock_start
  then show ?case by simp
next
  case (lock_enter s t m)
  have "acq m0 \<noteq> Some (the_lock s)"
    using acq_excl [of m0 "the_lock s"] lock_enter.hyps(3) by auto
  with lock_enter show ?case by auto
next
  case (lock_leave s t)
  then have "t \<in> inside s" "inside s \<noteq> {}" by auto
  with lock_leave.IH obtain m where "inside s = {t}" "the_lock s = m" "acq m0 = Some m" by auto
  then show ?case using rel_acq [of m0 m] by simp
qed

lemma mutual_exclusion:
  "lock_reach acq rel m0 s \<Longrightarrow> t \<in> inside s \<Longrightarrow> u \<in> inside s \<Longrightarrow> t = u"
  by (drule lock_reach_states) auto

end

text \<open>
  Mutual exclusion: with \<^verbatim>\<open>Mutex\<close>, with \<^verbatim>\<open>Spinlock\<close>, and with the write side of
  \<^verbatim>\<open>RWMutex\<close>, no two threads are ever between acquisition and release at the same time.
\<close>
theorem locks_mutual_exclusion:
  "(lock_reach Mutex_lock Mutex_unlock Mutex_new s \<and> t \<in> inside s \<and> u \<in> inside s \<longrightarrow> t = u) \<and>
   (lock_reach Spinlock_lock Spinlock_unlock Spinlock_new s' \<and> t \<in> inside s' \<and> u \<in> inside s' \<longrightarrow> t = u) \<and>
   (lock_reach RWMutex_wrlock RWMutex_unlock RWMutex_new s'' \<and> t \<in> inside s'' \<and> u \<in> inside s'' \<longrightarrow> t = u)"
  by (blast intro: mutex.mutual_exclusion spinlock.mutual_exclusion rwmutex.exclusive.mutual_exclusion)

text \<open>A reached state with a thread inside.\<close>

theorem locks_mutual_exclusion_witness:
  "lock_reach Mutex_lock Mutex_unlock Mutex_new \<lparr>the_lock = \<lparr>mutex_held = True\<rparr>, inside = {7}\<rparr> \<and>
   8 \<notin> inside \<lparr>the_lock = \<lparr>mutex_held = True\<rparr>, inside = {7::nat}\<rparr>"
proof -
  let ?s = "\<lparr>the_lock = \<lparr>mutex_held = True\<rparr>, inside = {7}\<rparr>"
  have "lock_reach Mutex_lock Mutex_unlock Mutex_new ?s"
    using lock_reach.lock_enter [OF lock_reach.lock_start, where t = 7 and acq = Mutex_lock
        and m = "\<lparr>mutex_held = True\<rparr>" and m0 = Mutex_new]
    by (simp add: Mutex_lock_def Mutex_new_def)
  moreover have "7 \<in> inside ?s" "(7::nat) \<noteq> 8" by simp_all
  ultimately show ?thesis using locks_mutual_exclusion [of ?s 7 8] by blast
qed

text \<open>
  The spin loop of \<^verbatim>\<open>CASLock\<close> step by step: a thread calls \<^verbatim>\<open>lock\<close>, goes round the loop
  with one atomic test-and-set each time, and is inside once it has read the flag as clear.
\<close>

datatype spin_pc = Outside | Spinning | Inside

record spin_sys =
  spin_lock :: caslock
  spin_pcs :: "nat \<Rightarrow> spin_pc"

definition spin_init :: spin_sys where
  "spin_init = \<lparr>spin_lock = CASLock_new, spin_pcs = (\<lambda>_. Outside)\<rparr>"

inductive spin_step :: "spin_sys \<Rightarrow> spin_sys \<Rightarrow> bool" where
  spin_call: "spin_pcs s t = Outside \<Longrightarrow> spin_step s (s\<lparr>spin_pcs := (spin_pcs s)(t := Spinning)\<rparr>)"
| spin_round: "spin_pcs s t = Spinning \<Longrightarrow> atomic_test_and_set (spin_lock s) = (old, m) \<Longrightarrow>
    spin_step s (s\<lparr>spin_lock := m, spin_pcs := (spin_pcs s)(t := (if old then Spinning else Inside))\<rparr>)"
| spin_unlock: "spin_pcs s t = Inside \<Longrightarrow>
    spin_step s (s\<lparr>spin_lock := CASLock_unlock (spin_lock s), spin_pcs := (spin_pcs s)(t := Outside)\<rparr>)"

definition spin_inv :: "spin_sys \<Rightarrow> bool" where
  "spin_inv s \<longleftrightarrow> (if cas_flag (spin_lock s) then \<exists>!t. spin_pcs s t = Inside else \<forall>t. spin_pcs s t \<noteq> Inside)"

lemma spin_step_inv: "spin_step s s' \<Longrightarrow> spin_inv s \<Longrightarrow> spin_inv s'"
proof (induction rule: spin_step.induct)
  case (spin_call s t)
  then have "\<And>u. ((spin_pcs s)(t := Spinning)) u = Inside \<longleftrightarrow> spin_pcs s u = Inside" by simp
  with spin_call show ?case by (simp add: spin_inv_def)
next
  case (spin_round s t old m)
  then have old: "old = cas_flag (spin_lock s)" "m = (spin_lock s)\<lparr>cas_flag := True\<rparr>"
    by (simp_all add: atomic_test_and_set_def)
  show ?case
  proof (cases old)
    case True
    with spin_round have "\<And>u. ((spin_pcs s)(t := Spinning)) u = Inside \<longleftrightarrow> spin_pcs s u = Inside" by simp
    with spin_round old True show ?thesis by (simp add: spin_inv_def)
  next
    case False
    with spin_round old show ?thesis by (auto simp: spin_inv_def)
  qed
next
  case (spin_unlock s t)
  then show ?case by (auto simp: spin_inv_def CASLock_unlock_def split: if_splits)
qed

text \<open>
  C25. The compare-and-set lock is a lock: over every interleaving of the threads' spin
  rounds, entries and exits, at most one thread is past \<^verbatim>\<open>lock()\<close>, and the flag is set exactly
  while one is, so a thread that spins gets in on its next round once the holder has left.
\<close>
theorem CASLock_mutual_exclusion:
  assumes "spin_step\<^sup>*\<^sup>* spin_init s"
  shows "(spin_pcs s t = Inside \<and> spin_pcs s u = Inside \<longrightarrow> t = u) \<and>
    cas_flag (spin_lock s) = (\<exists>v. spin_pcs s v = Inside)"
proof -
  have "spin_inv spin_init" by (simp add: spin_init_def spin_inv_def CASLock_new_def)
  with assms have "spin_inv s" by (rule reach_invariant) (rule spin_step_inv)
  then show ?thesis by (auto simp: spin_inv_def split: if_splits)
qed

theorem CASLock_mutual_exclusion_witness:
  "cas_flag (spin_lock (spin_init\<lparr>spin_lock := \<lparr>cas_flag = True\<rparr>, spin_pcs := (\<lambda>_. Outside)(3 := Inside)\<rparr>))"
proof -
  let ?s1 = "spin_init\<lparr>spin_pcs := (spin_pcs spin_init)(3 := Spinning)\<rparr>"
  let ?s2 = "spin_init\<lparr>spin_lock := \<lparr>cas_flag = True\<rparr>, spin_pcs := (\<lambda>_. Outside)(3 := Inside)\<rparr>"
  have "spin_step spin_init ?s1" by (rule spin_call) (simp add: spin_init_def)
  moreover have "spin_step ?s1 ?s2"
    using spin_round [of ?s1 3 False "\<lparr>cas_flag = True\<rparr>"]
    by (simp add: spin_init_def CASLock_new_def atomic_test_and_set_def)
  ultimately have "spin_step\<^sup>*\<^sup>* spin_init ?s2" by simp
  from CASLock_mutual_exclusion [OF this] show ?thesis by auto
qed

text \<open>Readers and writers of one \<^verbatim>\<open>RWMutex\<close>.\<close>

record rw_sys =
  rw_lock :: rwmutex
  rw_reading :: "nat set"
  rw_writing :: "nat set"

definition rw_init :: rw_sys where
  "rw_init = \<lparr>rw_lock = RWMutex_new, rw_reading = {}, rw_writing = {}\<rparr>"

inductive rw_step :: "rw_sys \<Rightarrow> rw_sys \<Rightarrow> bool" where
  rw_rdlock: "t \<notin> rw_reading s \<Longrightarrow> RWMutex_rdlock (rw_lock s) = Some m \<Longrightarrow>
    rw_step s (s\<lparr>rw_lock := m, rw_reading := insert t (rw_reading s)\<rparr>)"
| rw_wrlock: "RWMutex_wrlock (rw_lock s) = Some m \<Longrightarrow>
    rw_step s (s\<lparr>rw_lock := m, rw_writing := insert t (rw_writing s)\<rparr>)"
| rw_unlock_rd: "t \<in> rw_reading s \<Longrightarrow>
    rw_step s (s\<lparr>rw_lock := RWMutex_unlock (rw_lock s), rw_reading := rw_reading s - {t}\<rparr>)"
| rw_unlock_wr: "t \<in> rw_writing s \<Longrightarrow>
    rw_step s (s\<lparr>rw_lock := RWMutex_unlock (rw_lock s), rw_writing := rw_writing s - {t}\<rparr>)"

definition rw_inv :: "rw_sys \<Rightarrow> bool" where
  "rw_inv s \<longleftrightarrow> finite (rw_reading s) \<and> card (rw_reading s) = rw_readers (rw_lock s) \<and>
     (if rw_writer (rw_lock s) then rw_reading s = {} \<and> (\<exists>t. rw_writing s = {t}) else rw_writing s = {})"

lemma rw_step_inv: "rw_step s s' \<Longrightarrow> rw_inv s \<Longrightarrow> rw_inv s'"
  by (induction rule: rw_step.induct)
    (auto simp: rw_inv_def RWMutex_rdlock_def RWMutex_wrlock_def RWMutex_unlock_def split: if_splits)

text \<open>
  C26. The reader-writer lock as the guards use it, in every state threads that lock and unlock can reach: while a thread writes
  no thread reads and no other thread writes, and the lock's reader count is the number of readers. Readers do not
  exclude each other: unless a thread writes, another one can always start to read beside those that do;
  \<^verbatim>\<open>rdlock\<close> blocks just while a thread writes, \<^verbatim>\<open>wrlock\<close> just while one writes or reads.
\<close>
theorem RWMutex_exclusion:
  assumes "rw_step\<^sup>*\<^sup>* rw_init s"
  shows "(w \<in> rw_writing s \<longrightarrow> rw_reading s = {} \<and> rw_writing s = {w}) \<and>
    card (rw_reading s) = rw_readers (rw_lock s) \<and>
    (rw_writing s = {} \<and> t \<notin> rw_reading s \<longrightarrow>
       (\<exists>s'. rw_step s s' \<and> rw_reading s' = insert t (rw_reading s) \<and> rw_writing s' = {})) \<and>
    (RWMutex_rdlock (rw_lock s) = None \<longleftrightarrow> rw_writing s \<noteq> {}) \<and>
    (RWMutex_wrlock (rw_lock s) = None \<longleftrightarrow> rw_writing s \<noteq> {} \<or> rw_reading s \<noteq> {})"
proof -
  have "rw_inv rw_init" by (simp add: rw_init_def rw_inv_def RWMutex_new_def)
  with assms have inv: "rw_inv s" by (rule reach_invariant) (rule rw_step_inv)
  have rd: "RWMutex_rdlock (rw_lock s) = None \<longleftrightarrow> rw_writing s \<noteq> {}"
    using inv by (auto simp: rw_inv_def RWMutex_rdlock_def split: if_splits)
  have wr: "RWMutex_wrlock (rw_lock s) = None \<longleftrightarrow> rw_writing s \<noteq> {} \<or> rw_reading s \<noteq> {}"
    using inv by (auto simp: rw_inv_def RWMutex_wrlock_def split: if_splits)
  have "\<exists>s'. rw_step s s' \<and> rw_reading s' = insert t (rw_reading s) \<and> rw_writing s' = {}"
    if free: "rw_writing s = {}" "t \<notin> rw_reading s"
  proof -
    obtain m where "RWMutex_rdlock (rw_lock s) = Some m" using rd free(1) by (cases "RWMutex_rdlock (rw_lock s)") simp_all
    from rw_rdlock [OF free(2) this] free(1) show ?thesis by fastforce
  qed
  with inv rd wr show ?thesis by (auto simp: rw_inv_def split: if_splits)
qed

text \<open>Two threads read at once, and a third may.\<close>

theorem RWMutex_exclusion_witness:
  "\<exists>s s'. rw_step\<^sup>*\<^sup>* rw_init s \<and> rw_reading s = {4, 5} \<and> rw_readers (rw_lock s) = 2 \<and> rw_step s s' \<and> rw_reading s' = {4, 5, 6}"
proof -
  let ?s1 = "\<lparr>rw_lock = \<lparr>rw_writer = False, rw_readers = 1\<rparr>, rw_reading = {4}, rw_writing = {}\<rparr>"
    and ?s2 = "\<lparr>rw_lock = \<lparr>rw_writer = False, rw_readers = 2\<rparr>, rw_reading = {4, 5}, rw_writing = {}\<rparr>"
  have "rw_step rw_init ?s1"
    using rw_rdlock [of 4 rw_init "\<lparr>rw_writer = False, rw_readers = 1\<rparr>"]
    by (simp add: rw_init_def RWMutex_new_def RWMutex_rdlock_def)
  moreover have "rw_step ?s1 ?s2"
    using rw_rdlock [of 5 ?s1 "\<lparr>rw_writer = False, rw_readers = 2\<rparr>"]
    by (simp add: RWMutex_rdlock_def insert_commute)
  ultimately have run: "rw_step\<^sup>*\<^sup>* rw_init ?s2" by simp
  from RWMutex_exclusion [OF this, where t = 6] obtain s' where "rw_step ?s2 s'" "rw_reading s' = {4, 5, 6}"
    by (auto simp: insert_commute)
  with run RWMutex_exclusion [OF run] show ?thesis by (intro exI [of _ ?s2] exI [of _ s']) simp
qed

end
