(* ===== verification/Threads.thy ===== *)
theory Threads
  imports Locks
begin

text \<open>
  \<^verbatim>\<open>Thread\<close> of \<^verbatim>\<open>vity/thread.h\<close>, \<^verbatim>\<open>vity/thread.cc\<close>: construction as the
  two-party handshake it is (the constructor in the creating thread, \<^verbatim>\<open>Thread::run\<close> in the
  created one, one step per statement that the other party can see), and joining, detaching and
  naming as functions.
\<close>

record 'cb thread =
  thr_id :: int
  thr_handle :: nat
  thr_cb :: "'cb option"
  thr_name :: string
  thr_semphore :: semphore

text \<open>Where the constructor and where \<^verbatim>\<open>Thread::run\<close> stand.\<close>

datatype ctor_pc = C_Create | C_Wait | C_Returned | C_Threw

datatype run_pc = R_None | R_SetThis | R_SetName | R_SetId | R_SetOsName | R_Swap | R_Notify | R_Call | R_Done

text \<open>
  \<open>t_thread\<close>, \<open>t_thread_name\<close> are the thread-local variables of the created thread
  (\<open>t_thread\<close>: whether it points to the object), \<open>os_name\<close> the name given to the operating
  system, \<open>local_cb\<close> the local variable \<^verbatim>\<open>cb\<close> of \<^verbatim>\<open>run\<close> and \<open>called\<close> the
  callbacks called so far.
\<close>

record 'cb thread_sys =
  obj :: "'cb thread"
  ctor :: ctor_pc
  runner :: run_pc
  t_thread :: bool
  t_thread_name :: string
  os_name :: string
  local_cb :: "'cb option"
  called :: "'cb list"

definition Thread_start :: "'cb \<Rightarrow> string \<Rightarrow> 'cb thread_sys" where
  "Thread_start cb name =
    \<lparr>obj = \<lparr>thr_id = -1, thr_handle = 0, thr_cb = Some cb,
            thr_name = (if name = [] then ''UNKNOW'' else name), thr_semphore = \<lparr>sem_value = 0\<rparr>\<rparr>,
     ctor = C_Create, runner = R_None, t_thread = False, t_thread_name = ''UNKNOW'', os_name = [],
     local_cb = None, called = []\<rparr>"

text \<open>One statement of \<^verbatim>\<open>Thread::run\<close>; \<open>tid\<close> is what \<^verbatim>\<open>GetThreadId\<close> returns.\<close>

definition Thread_run_step :: "int \<Rightarrow> 'cb thread_sys \<Rightarrow> 'cb thread_sys" where
  "Thread_run_step tid s = (case runner s of
      R_None \<Rightarrow> s
    | R_SetThis \<Rightarrow> s\<lparr>t_thread := True, runner := R_SetName\<rparr>
    | R_SetName \<Rightarrow> s\<lparr>t_thread_name := thr_name (obj s), runner := R_SetId\<rparr>
    | R_SetId \<Rightarrow> s\<lparr>obj := (obj s)\<lparr>thr_id := tid\<rparr>, runner := R_SetOsName\<rparr>
    | R_SetOsName \<Rightarrow> s\<lparr>os_name := substr (thr_name (obj s)) 0 15, runner := R_Swap\<rparr>
    | R_Swap \<Rightarrow> s\<lparr>local_cb := thr_cb (obj s), obj := (obj s)\<lparr>thr_cb := local_cb s\<rparr>, runner := R_Notify\<rparr>
    | R_Notify \<Rightarrow> s\<lparr>obj := (obj s)\<lparr>thr_semphore := Semphore_notify (thr_semphore (obj s))\<rparr>, runner := R_Call\<rparr>
    | R_Call \<Rightarrow> s\<lparr>called := called s @ (case local_cb s of Some cb \<Rightarrow> [cb] | None \<Rightarrow> []), runner := R_Done\<rparr>
    | R_Done \<Rightarrow> s)"

text \<open>
  \<open>intr\<close> says whether signals may interrupt \<^verbatim>\<open>sem_wait\<close>. A failing
  \<^verbatim>\<open>pthread_create\<close> makes the constructor throw.
\<close>

inductive thread_step :: "int \<Rightarrow> bool \<Rightarrow> 'cb thread_sys \<Rightarrow> 'cb thread_sys \<Rightarrow> bool" for tid intr where
  create_fails: "ctor s = C_Create \<Longrightarrow> thread_step tid intr s (s\<lparr>ctor := C_Threw\<rparr>)"
| create: "ctor s = C_Create \<Longrightarrow> h \<noteq> 0 \<Longrightarrow>
    thread_step tid intr s (s\<lparr>obj := (obj s)\<lparr>thr_handle := h\<rparr>, ctor := C_Wait, runner := R_SetThis\<rparr>)"
| wait_returns: "ctor s = C_Wait \<Longrightarrow> Semphore_wait i (thr_semphore (obj s)) = Some sem \<Longrightarrow> i \<longrightarrow> intr \<Longrightarrow>
    thread_step tid intr s (s\<lparr>obj := (obj s)\<lparr>thr_semphore := sem\<rparr>, ctor := C_Returned\<rparr>)"
| run: "runner s \<noteq> R_None \<Longrightarrow> runner s \<noteq> R_Done \<Longrightarrow> thread_step tid intr s (Thread_run_step tid s)"

inductive_cases thread_stepE: "thread_step tid intr s s'"

section \<open>Joining, detaching, naming\<close>

text \<open>\<open>rt\<close> is the result of \<^verbatim>\<open>pthread_join\<close>.\<close>

definition Thread_join :: "int \<Rightarrow> 'cb thread \<Rightarrow> 'cb thread res" where
  "Thread_join rt t =
    (if thr_handle t \<noteq> 0 then
       (if rt \<noteq> 0 then Inl (Thrown (Std_exception ''pthread_join error''))
        else Inr (t\<lparr>thr_handle := 0\<rparr>))
     else Inr t)"

text \<open>The destructor: whether it detaches the thread.\<close>

definition Thread_delete :: "'cb thread \<Rightarrow> bool" where
  "Thread_delete t \<longleftrightarrow> thr_handle t \<noteq> 0"

text \<open>
  \<^verbatim>\<open>Thread::SetName\<close> on the thread-local pair of the calling thread: the object
  \<^verbatim>\<open>t_thread\<close> points to, if any, and \<^verbatim>\<open>t_thread_name\<close>.
\<close>

definition Thread_SetName :: "string \<Rightarrow> 'cb thread option \<times> string \<Rightarrow> 'cb thread option \<times> string" where
  "Thread_SetName name tls = (map_option (\<lambda>t. t\<lparr>thr_name := name\<rparr>) (fst tls), name)"

definition Thread_GetName :: "'cb thread option \<times> string \<Rightarrow> string" where
  "Thread_GetName tls = snd tls"

section \<open>The handshake\<close>

text \<open>How far \<^verbatim>\<open>run\<close> has come, as a number; it fixes every field the two parties share.\<close>

primrec run_rank :: "run_pc \<Rightarrow> nat" where
  "run_rank R_None = 0"
| "run_rank R_SetThis = 1"
| "run_rank R_SetName = 2"
| "run_rank R_SetId = 3"
| "run_rank R_SetOsName = 4"
| "run_rank R_Swap = 5"
| "run_rank R_Notify = 6"
| "run_rank R_Call = 7"
| "run_rank R_Done = 8"

primrec ctor_rank :: "ctor_pc \<Rightarrow> nat" where
  "ctor_rank C_Create = 0"
| "ctor_rank C_Wait = 1"
| "ctor_rank C_Returned = 2"
| "ctor_rank C_Threw = 10"

definition runner_inv :: "int \<Rightarrow> 'cb \<Rightarrow> string \<Rightarrow> 'cb thread_sys \<Rightarrow> bool" where
  "runner_inv tid cb name s \<longleftrightarrow>
    (let r = run_rank (runner s); n = (if name = [] then ''UNKNOW'' else name) in
     thr_name (obj s) = n \<and>
     t_thread s = (2 \<le> r) \<and>
     t_thread_name s = (if 3 \<le> r then n else ''UNKNOW'') \<and>
     thr_id (obj s) = (if 4 \<le> r then tid else -1) \<and>
     os_name s = (if 5 \<le> r then take 15 n else []) \<and>
     thr_cb (obj s) = (if 6 \<le> r then None else Some cb) \<and>
     local_cb s = (if 6 \<le> r then Some cb else None) \<and>
     called s = (if 8 \<le> r then [cb] else []))"

definition sem_inv :: "'cb thread_sys \<Rightarrow> bool" where
  "sem_inv s \<longleftrightarrow>
    (ctor s \<in> {C_Create, C_Threw} \<longleftrightarrow> runner s = R_None) \<and>
    (ctor s = C_Returned \<longrightarrow> 7 \<le> run_rank (runner s)) \<and>
    sem_value (thr_semphore (obj s)) = (if 7 \<le> run_rank (runner s) \<and> ctor s = C_Wait then 1 else 0)"

lemma runner_inv_start: "runner_inv tid cb name (Thread_start cb name)"
  by (simp add: runner_inv_def Thread_start_def)

lemma sem_inv_start: "sem_inv (Thread_start cb name)"
  by (simp add: sem_inv_def Thread_start_def)

lemma runner_inv_run: "runner_inv tid cb name s \<Longrightarrow> runner_inv tid cb name (Thread_run_step tid s)"
  by (cases "runner s") (simp_all add: runner_inv_def Thread_run_step_def substr_def Let_def)

lemma sem_inv_run: "sem_inv s \<Longrightarrow> runner s \<noteq> R_None \<Longrightarrow> sem_inv (Thread_run_step tid s)"
  by (cases "runner s"; cases "ctor s")
    (simp_all add: sem_inv_def Thread_run_step_def Semphore_notify_def SEM_VALUE_MAX_def)

definition thread_inv :: "int \<Rightarrow> 'cb \<Rightarrow> string \<Rightarrow> 'cb thread_sys \<Rightarrow> bool" where
  "thread_inv tid cb name s \<longleftrightarrow> runner_inv tid cb name s \<and> (ctor s = C_Create \<longrightarrow> runner s = R_None)"

lemma thread_inv_step [keeps]:
  "thread_step tid intr s s' \<Longrightarrow> thread_inv tid cb name s \<Longrightarrow> thread_inv tid cb name s'"
proof (induction rule: thread_step.induct)
  case (create s h)
  then show ?case by (simp add: thread_inv_def runner_inv_def Let_def)
next
  case (run s)
  then show ?case
    by (cases "runner s") (auto simp: thread_inv_def runner_inv_run, auto simp: Thread_run_step_def)
qed (auto simp: thread_inv_def runner_inv_def Let_def)

lemma sem_inv_step [keeps]: "thread_step tid False s s' \<Longrightarrow> sem_inv s \<Longrightarrow> sem_inv s'"
proof (induction rule: thread_step.induct)
  case (wait_returns s i sem)
  then show ?case by (auto simp: sem_inv_def Semphore_wait_def split: if_splits)
next
  case (run s)
  then show ?case by (intro sem_inv_run)
qed (auto simp: sem_inv_def)

lemma handshake_reach:
  assumes "(thread_step tid False)\<^sup>*\<^sup>* (Thread_start cb name) s"
  shows "runner_inv tid cb name s" "sem_inv s"
proof -
  have "thread_inv tid cb name (Thread_start cb name)"
    by (simp add: thread_inv_def runner_inv_start) (simp add: Thread_start_def)
  with assms have "thread_inv tid cb name s" by (rule reach_invariant) (rule thread_inv_step)
  then show "runner_inv tid cb name s" by (simp add: thread_inv_def)
  from assms sem_inv_start show "sem_inv s" by (rule reach_invariant) (rule sem_inv_step)
qed

text \<open>
  C34. When the constructor of a \<^verbatim>\<open>Thread\<close> returns, the new thread has published itself:
  its id is in the object, its thread-local pointer and name are set, the callback has been moved
  out of the object, and the semaphore is back at zero. This is so for every interleaving of
  constructor and \<^verbatim>\<open>run\<close> in which no signal interrupts the wait.
\<close>
theorem Thread_handshake:
  assumes "(thread_step tid False)\<^sup>*\<^sup>* (Thread_start cb name) s" and "ctor s = C_Returned"
  shows "thr_id (obj s) = tid \<and> t_thread s \<and> t_thread_name s = thr_name (obj s) \<and>
    os_name s = take 15 (thr_name (obj s)) \<and> thr_cb (obj s) = None \<and> local_cb s = Some cb \<and>
    sem_value (thr_semphore (obj s)) = 0"
  using handshake_reach [OF assms(1)] assms(2) by (simp add: runner_inv_def sem_inv_def Let_def)

text \<open>The measure that every step of the two parties decreases.\<close>

definition thread_todo :: "'cb thread_sys \<Rightarrow> nat" where
  "thread_todo s = (8 - run_rank (runner s)) + (10 - ctor_rank (ctor s))"

lemma thread_step_todo:
  "thread_step tid intr s s' \<Longrightarrow> thread_inv tid cb name s \<Longrightarrow> thread_todo s' < thread_todo s"
proof (induction rule: thread_step.induct)
  case (run s)
  then show ?case
    by (cases "runner s") (simp_all add: thread_todo_def Thread_run_step_def)
qed (auto simp: thread_todo_def thread_inv_def)

text \<open>
  C35. Creating a thread cannot hang: each step of constructor and \<^verbatim>\<open>run\<close> uses up a
  measure, and a state from which no step is possible is one where either the constructor threw
  because \<^verbatim>\<open>pthread_create\<close> failed, or it returned and the callback was called exactly
  once.
\<close>
theorem Thread_creation_terminates:
  assumes "(thread_step tid False)\<^sup>*\<^sup>* (Thread_start cb name) s"
  shows "(\<forall>s'. thread_step tid False s s' \<longrightarrow> thread_todo s' < thread_todo s) \<and>
    ((\<nexists>s'. thread_step tid False s s') \<longrightarrow>
      (ctor s = C_Threw \<and> called s = []) \<or> (ctor s = C_Returned \<and> runner s = R_Done \<and> called s = [cb]))"
proof -
  note inv = handshake_reach [OF assms]
  then have "thread_inv tid cb name s" by (auto simp: thread_inv_def sem_inv_def)
  then have "\<forall>s'. thread_step tid False s s' \<longrightarrow> thread_todo s' < thread_todo s"
    by (intro allI impI thread_step_todo)
  moreover {
    assume stuck: "\<nexists>s'. thread_step tid False s s'"
    then have r: "runner s = R_None \<or> runner s = R_Done" by (meson thread_step.run)
    have "ctor s \<noteq> C_Create" using stuck thread_step.create_fails by blast
    moreover have "ctor s = C_Wait \<Longrightarrow> False"
    proof -
      assume w: "ctor s = C_Wait"
      with inv r have "sem_value (thr_semphore (obj s)) = 1" by (auto simp: sem_inv_def)
      then have "\<exists>sem. Semphore_wait False (thr_semphore (obj s)) = Some sem" by (simp add: Semphore_wait_def)
      with w stuck thread_step.wait_returns [of s False] show False by blast
    qed
    ultimately have "(ctor s = C_Threw \<and> called s = []) \<or>
        (ctor s = C_Returned \<and> runner s = R_Done \<and> called s = [cb])"
      using inv r by (cases "ctor s") (auto simp: sem_inv_def runner_inv_def Let_def)
  }
  ultimately show ?thesis by blast
qed

text \<open>A run of the handshake for thread 7, one statement at a time.\<close>

lemma handshake_run:
  "(thread_step 7 False)\<^sup>*\<^sup>* (Thread_start ''cb'' ''w'')
     (((Thread_run_step 7 ^^ 7) (Thread_start ''cb'' ''w''\<lparr>obj := (obj (Thread_start ''cb'' ''w''))\<lparr>thr_handle := 1\<rparr>,
        ctor := C_Wait, runner := R_SetThis\<rparr>)))"
proof -
  let ?s0 = "Thread_start ''cb'' ''w''"
  let ?s1 = "?s0\<lparr>obj := (obj ?s0)\<lparr>thr_handle := 1\<rparr>, ctor := C_Wait, runner := R_SetThis\<rparr>"
  have "thread_step 7 False ?s0 ?s1" by (rule thread_step.create) (simp_all add: Thread_start_def)
  moreover have "n \<le> 7 \<Longrightarrow> run_rank (runner ((Thread_run_step 7 ^^ n) ?s1)) = Suc n \<and>
      (thread_step 7 False)\<^sup>*\<^sup>* ?s1 ((Thread_run_step 7 ^^ n) ?s1)" for n
  proof (induction n)
    case 0
    then show ?case by simp
  next
    case (Suc n)
    let ?t = "(Thread_run_step 7 ^^ n) ?s1"
    from Suc have t: "run_rank (runner ?t) = Suc n" "(thread_step 7 False)\<^sup>*\<^sup>* ?s1 ?t" by simp_all
    with Suc.prems have "runner ?t \<noteq> R_None" "runner ?t \<noteq> R_Done" by (cases "runner ?t"; simp)+
    then have "thread_step 7 False ?t (Thread_run_step 7 ?t)" by (rule thread_step.run)
    moreover have "run_rank (runner (Thread_run_step 7 ?t)) = Suc (Suc n)"
      using t(1) Suc.prems by (cases "runner ?t") (simp_all add: Thread_run_step_def)
    ultimately show ?case using t(2) by simp
  qed
  ultimately show ?thesis by (meson converse_rtranclp_into_rtranclp order_refl)
qed

text \<open>The state that run ends in, and the one after the constructor has got the semaphore.\<close>

definition done_state :: "string thread_sys" where
  "done_state = (let s = Thread_start ''cb'' ''w'' in s\<lparr>
     obj := (obj s)\<lparr>thr_handle := 1, thr_id := 7, thr_cb := None, thr_semphore := \<lparr>sem_value = 0\<rparr>\<rparr>,
     ctor := C_Returned, runner := R_Done, t_thread := True, t_thread_name := ''w'', os_name := ''w'',
     local_cb := Some ''cb'', called := [''cb'']\<rparr>)"

lemma done_state_reached: "(thread_step 7 False)\<^sup>*\<^sup>* (Thread_start ''cb'' ''w'') done_state"
proof -
  let ?s = "(Thread_run_step 7 ^^ 7) (Thread_start ''cb'' ''w''\<lparr>obj := (obj (Thread_start ''cb'' ''w''))\<lparr>thr_handle := 1\<rparr>,
        ctor := C_Wait, runner := R_SetThis\<rparr>)"
  have seven: "(7::nat) = Suc (Suc (Suc (Suc (Suc (Suc (Suc 0))))))" by simp
  have s: "?s = done_state\<lparr>obj := (obj done_state)\<lparr>thr_semphore := \<lparr>sem_value = 1\<rparr>\<rparr>, ctor := C_Wait\<rparr>"
    unfolding seven funpow.simps o_apply id_apply
    by (simp add: Thread_run_step_def Thread_start_def done_state_def substr_def
        Semphore_notify_def SEM_VALUE_MAX_def Let_def)
  have "thread_step 7 False ?s done_state"
    using thread_step.wait_returns [of ?s False "\<lparr>sem_value = 0\<rparr>" False 7]
    unfolding s by (simp add: Semphore_wait_def done_state_def Thread_start_def Let_def)
  with handshake_run show ?thesis by (rule rtranclp.rtrancl_into_rtrancl)
qed

theorem Thread_handshake_witness:
  "thr_id (obj done_state) = 7 \<and> t_thread done_state \<and> thr_cb (obj done_state) = None"
proof -
  have ret: "ctor done_state = C_Returned" by (simp add: done_state_def Let_def)
  from Thread_handshake [OF done_state_reached ret] show ?thesis by simp
qed

theorem Thread_creation_terminates_witness: "called done_state = [''cb'']"
proof -
  have "\<nexists>s'. thread_step 7 False done_state s'"
    by (auto elim!: thread_stepE simp: done_state_def Let_def)
  with Thread_creation_terminates [OF done_state_reached] show ?thesis
    by (auto simp: done_state_def Let_def)
qed

text \<open>
  A signal breaks the handshake: \<^verbatim>\<open>Semphore::wait\<close> builds the exception for a
  failed \<^verbatim>\<open>sem_wait\<close> without throwing it, so when a signal interrupts the wait the
  constructor returns with the thread's id still \<open>-1\<close> and the callback still in the object.
\<close>
theorem Thread_handshake_interrupted:
  "\<exists>s. (thread_step tid True)\<^sup>*\<^sup>* (Thread_start cb name) s \<and> ctor s = C_Returned \<and>
     thr_id (obj s) = -1 \<and> thr_cb (obj s) = Some cb \<and> \<not> t_thread s"
proof -
  let ?s0 = "Thread_start cb name"
  let ?s1 = "?s0\<lparr>obj := (obj ?s0)\<lparr>thr_handle := 1\<rparr>, ctor := C_Wait, runner := R_SetThis\<rparr>"
  let ?s2 = "?s1\<lparr>obj := (obj ?s1)\<lparr>thr_semphore := thr_semphore (obj ?s1)\<rparr>, ctor := C_Returned\<rparr>"
  have "thread_step tid True ?s0 ?s1" by (rule thread_step.create) (simp_all add: Thread_start_def)
  moreover have "thread_step tid True ?s1 ?s2"
    by (rule thread_step.wait_returns [where i = True]) (simp_all add: Semphore_wait_def)
  ultimately have "(thread_step tid True)\<^sup>*\<^sup>* ?s0 ?s2" by simp
  then show ?thesis by (rule exI [of _ ?s2, OF conjI]) (simp add: Thread_start_def)
qed

text \<open>Joining twice is the same as joining once; a joined thread is not detached.\<close>

lemma Thread_join_idem:
  "Thread_join rt t = Inr t' \<Longrightarrow> Thread_join rt' t' = Inr t' \<and> \<not> Thread_delete t'"
  by (auto simp: Thread_join_def Thread_delete_def split: if_splits)

end
