(* ===== verification/Scheduler_Caller.thy ===== *)
theory Scheduler_Caller
  imports Schedulers Threads
begin

text \<open>
  The thread that builds, stops and destroys a scheduler, and the start of a pool thread: what
  \<^verbatim>\<open>Scheduler::Scheduler\<close>, \<^verbatim>\<open>Scheduler::~Scheduler\<close>, \<^verbatim>\<open>Scheduler::GetThis\<close>,
  \<^verbatim>\<open>Scheduler::GetMainFiber\<close>, \<^verbatim>\<open>Scheduler::setThis\<close> and the first lines of
  \<^verbatim>\<open>Scheduler::run\<close> do to the thread-local variables and to the fibers of the thread they run in.
  With \<^verbatim>\<open>use_caller\<close> the loop runs on a fiber of its own in the calling thread, which
  \<^verbatim>\<open>stop\<close> enters by \<^verbatim>\<open>Fiber::call\<close> and leaves by \<^verbatim>\<open>Fiber::back\<close>.
\<close>

section \<open>The thread-local variables\<close>

text \<open>
  \<open>fsys\<close> are the fibers with the pointers of \<^verbatim>\<open>fiber.cc\<close> and the \<^verbatim>\<open>t_fiber\<close> of
  \<^verbatim>\<open>scheduler.cc\<close> (its \<open>main_fiber\<close>), \<open>t_scheduler\<close> is the address of the thread's
  scheduler, \<open>tls_thread\<close> the thread object and the name of the thread.
\<close>

record 'cb caller =
  fsys :: "'cb fiber_sys"
  t_scheduler :: "nat option"
  tls_thread :: "'cb thread option \<times> string"

definition Scheduler_GetThis :: "'cb caller \<Rightarrow> nat option" where
  "Scheduler_GetThis c = t_scheduler c"

definition GetMainFiber :: "'cb caller \<Rightarrow> nat option" where
  "GetMainFiber c = main_fiber (fsys c)"

definition setThis :: "nat \<Rightarrow> 'cb caller \<Rightarrow> 'cb caller" where
  "setThis self c = c\<lparr>t_scheduler := Some self\<rparr>"

section \<open>Construction, destruction, entry of the loop\<close>

text \<open>
  The constructor of the scheduler at address \<open>self\<close>, with the values of its members from
  \<open>Scheduler_new\<close>: \<open>cfg\<close>, \<open>mem\<close> are the stack size and memory of the root fiber, \<open>run\<close>
  is the callback \<^verbatim>\<open>std::bind(&Scheduler::run,this)\<close>.
\<close>

definition Scheduler_make ::
  "32 word \<Rightarrow> nat option \<Rightarrow> 'cb \<Rightarrow> nat \<Rightarrow> int \<Rightarrow> nat \<Rightarrow> bool \<Rightarrow> string \<Rightarrow> 'cb caller \<Rightarrow> ('cb scheduler \<times> 'cb caller) res"
where
  "Scheduler_make cfg mem run self tid threads use_caller name c =
    (if threads = 0 then Inl (Assertion ''threads > 0'')
     else if use_caller then
       bindR (GetThis (fsys c)) (\<lambda>(cur, st1).
       bindR (Scheduler_new threads use_caller name (Scheduler_GetThis c \<noteq> None) (next_addr st1) tid) (\<lambda>s.
         let (root, st2) = Fiber_new cfg mem run 0 True st1 in
         Inr (s, \<lparr>fsys = st2\<lparr>main_fiber := Some root\<rparr>, t_scheduler = Some self,
                  tls_thread = Thread_SetName name (tls_thread c)\<rparr>)))
     else
       bindR (Scheduler_new threads use_caller name (Scheduler_GetThis c \<noteq> None) 0 tid) (\<lambda>s. Inr (s, c)))"

text \<open>
  The destructor with the release of \<^verbatim>\<open>m_rootFiber\<close>, whose only owner is the scheduler. The
  scheduler's \<^verbatim>\<open>t_fiber\<close> is not touched.
\<close>

definition Scheduler_destroy :: "nat \<Rightarrow> 'cb scheduler \<Rightarrow> 'cb caller \<Rightarrow> 'cb caller res" where
  "Scheduler_destroy self s c =
    bindR (Scheduler_delete s) (\<lambda>_.
      let c1 = (if Scheduler_GetThis c = Some self then c\<lparr>t_scheduler := None\<rparr> else c) in
      case m_rootFiber s of
        None \<Rightarrow> Inr c1
      | Some root \<Rightarrow> bindR (Fiber_delete root (fsys c1)) (\<lambda>st. Inr (c1\<lparr>fsys := st\<rparr>)))"

text \<open>
  \<^verbatim>\<open>run\<close> up to its loop, in the thread \<open>tid\<close>: the result is the idle fiber with its
  callback \<open>idle\<close>.
\<close>

definition run_enter ::
  "32 word \<Rightarrow> nat option \<Rightarrow> 'cb \<Rightarrow> nat \<Rightarrow> 'cb scheduler \<Rightarrow> int \<Rightarrow> 'cb caller \<Rightarrow> (nat \<times> 'cb caller) res"
where
  "run_enter cfg mem idle self s tid c =
    (let c1 = setThis self c in
     bindR (if tid \<noteq> m_rootThread s
            then bindR (GetThis (fsys c1)) (\<lambda>(a, st). Inr (c1\<lparr>fsys := st\<lparr>main_fiber := Some a\<rparr>\<rparr>))
            else Inr c1) (\<lambda>c2.
       case Fiber_new cfg mem idle 0 False (fsys c2) of (a, st) \<Rightarrow> Inr (a, c2\<lparr>fsys := st\<rparr>)))"

lemmas caller_defs = Scheduler_GetThis_def GetMainFiber_def setThis_def Scheduler_make_def Scheduler_destroy_def run_enter_def

text \<open>A thread that has met neither fibers nor schedulers.\<close>

definition fresh_caller :: "'cb thread option \<times> string \<Rightarrow> 'cb caller" where
  "fresh_caller tls = \<lparr>fsys = thread_init, t_scheduler = None, tls_thread = tls\<rparr>"

section \<open>Pool threads\<close>

text \<open>
  A pool thread comes to the loop in the state the discipline of fibers starts from, with one fiber
  more, the idle fiber.
\<close>

lemma run_enter_pool:
  assumes "tid \<noteq> m_rootThread s"
  shows "run_enter cfg mem idle self s tid (fresh_caller tls) =
    Inr (1, \<lparr>fsys = snd (Fiber_new cfg mem idle 0 False worker_start), t_scheduler = Some self, tls_thread = tls\<rparr>)"
  using assms by (simp add: caller_defs fresh_caller_def worker_start_def thread_init_def opdefs Let_def)

lemma run_enter_pool_inv:
  assumes "tid \<noteq> m_rootThread s"
  shows "\<exists>c. run_enter cfg (Some mem) idle self s tid (fresh_caller tls) = Inr (1, c) \<and> fiber_inv 0 Native (fsys c)"
  using fiber_new_keeps [OF worker_start_inv] by (simp add: run_enter_pool [OF assms])

section \<open>The caller's thread\<close>

text \<open>The stack the loop runs on in the caller's thread.\<close>

abbreviation root_stack :: stk where
  "root_stack \<equiv> Own 1 CallerMainFunc"

lemma make_fresh:
  assumes "0 < threads"
  shows "\<exists>s c. Scheduler_make cfg (Some mem) run self tid threads True name (fresh_caller tls) = Inr (s, c) \<and>
    m_rootFiber s = Some 1 \<and> m_rootThread s = tid \<and> t_scheduler c = Some self \<and> main_fiber (fsys c) = Some 1 \<and>
    tls_thread c = Thread_SetName name tls \<and> fsys c = (snd (Fiber_new cfg (Some mem) run 0 True (snd (Fiber_new_main thread_init))))
      \<lparr>t_threadFiber := Some 0, main_fiber := Some 1\<rparr>"
  using assms by (auto simp: caller_defs fresh_caller_def Scheduler_new_def thread_init_def opdefs Let_def)

lemma call_root:
  "\<exists>st. Fiber_call 1 ((snd (Fiber_new cfg (Some mem) run 0 True (snd (Fiber_new_main thread_init))))
      \<lparr>t_threadFiber := Some 0, main_fiber := Some 1\<rparr>) = Inr st \<and>
    running st = root_stack \<and> t_threadFiber st = Some 0 \<and> fiber_inv 1 root_stack st"
  by (simp add: thread_init_def opdefs Let_def fiber_inv_defs count_ok_def)

lemma root_returns:
  assumes inv: "fiber_inv 1 root_stack st" and run: "running st = root_stack"
  shows "\<exists>st' f. CallerMainFunc_end threw 1 st = Inr st' \<and> running st' = Native \<and> t_fiber st' = t_threadFiber st' \<and>
    (\<exists>t. t_threadFiber st' = Some t \<and> t \<noteq> 1 \<and> t \<in> dom (fibers st')) \<and> main_fiber st' = Some 1 \<and> fibers st' 1 = Some f \<and> fb_stack f \<noteq> None \<and> fb_state f \<in> {TERM', EXCEPT} \<and> count_ok st'"
proof -
  from inv obtain M where M: "fibers st 1 = Some M" "fb_stack M \<noteq> None" "caller_ok 1 st" "main_fiber st = Some 1"
    by (rule fiber_inv_main) auto
  from M(3) obtain t T where T: "t_threadFiber st = Some t" "t \<noteq> 1" "fibers st t = Some T" "fb_ctx T = Suspended Native False"
    by (auto simp: caller_ok_def)
  let ?M = "if threw then M\<lparr>fb_state := EXCEPT\<rparr> else M\<lparr>fb_cb := None, fb_state := TERM'\<rparr>"
  let ?N = "?M\<lparr>fb_ctx := Suspended root_stack True\<rparr>"
  let ?st = "(put_fiber 1 ?N (SetThis (Some t) (put_fiber 1 ?M st)))\<lparr>running := Native\<rparr>"
  have "CallerMainFunc_end threw 1 st = Inr ?st"
    using M(1) T run by (simp add: CallerMainFunc_end_def record_end_def Fiber_back_def swapcontext_def SetThis_def deref_def)
  moreover have "count_ok ?st"
    using inv M(1) by (intro count_ok_frame count_ok_put) (auto simp: fiber_inv_def SetThis_def)
  ultimately show ?thesis using M T by (auto simp: SetThis_def)
qed

lemma count_ok_delete:
  assumes "count_ok st" "fibers st a = Some f" "fb_stack f \<noteq> None" "fb_state f \<in> {INIT, TERM', EXCEPT}"
  shows "\<exists>st'. Fiber_delete a st = Inr st' \<and> count_ok st' \<and> fibers st' = (fibers st)(a := None) \<and> main_fiber st' = main_fiber st \<and>
    t_fiber st' = t_fiber st"
proof -
  let ?st = "st\<lparr>s_fiber_count := s_fiber_count st - 1, fibers := (fibers st)(a := None)\<rparr>"
  have "Fiber_delete a st = Inr ?st" using assms(2-4) by (auto simp: Fiber_delete_def)
  moreover have "card (dom (fibers st)) = Suc (card (dom (fibers st) - {a}))"
    using assms(1,2) by (intro card.remove) (auto simp: count_ok_def)
  with assms(1) have "count_ok ?st" by (auto simp: count_ok_def)
  ultimately show ?thesis by auto
qed


text \<open>
  What is to happen when the loop is back on its own stack and returns, after which the stopped
  scheduler is destroyed: nothing fails, the native stack runs again with the thread's main fiber current, which
  the thread keeps, as it keeps the name it was given; the
  thread has no scheduler and the count of the fibers is exact. \<^verbatim>\<open>GetMainFiber\<close> still gives
  the root fiber, which is freed, so that a fiber that leaves the processor reads freed memory.
\<close>

definition closes :: "nat \<Rightarrow> 'cb scheduler \<Rightarrow> bool \<Rightarrow> 'cb caller \<Rightarrow> bool" where
  "closes self s threw c \<longleftrightarrow> (\<exists>st c'. CallerMainFunc_end threw 1 (fsys c) = Inr st \<and>
     running st = Native \<and> t_fiber st = t_threadFiber st \<and>
     (\<exists>t. t_fiber (fsys c') = Some t \<and> t \<in> dom (fibers (fsys c'))) \<and> tls_thread c' = tls_thread c \<and>
     Scheduler_destroy self (s\<lparr>m_stopping := True\<rparr>) (c\<lparr>fsys := st\<rparr>) = Inr c' \<and>
     Scheduler_GetThis c' = None \<and> TotalFibers (fsys c') = of_nat (card (dom (fibers (fsys c')))) \<and>
     GetMainFiber c' = Some 1 \<and>
     (\<forall>a f. fibers (fsys c') a = Some f \<longrightarrow>
        a \<noteq> 1 \<and> Fiber_swapOut False a (fsys c') = Inl (Undefined ''dangling Fiber pointer'')))"

lemma root_closes:
  assumes "m_rootFiber s = Some 1" "t_scheduler c = Some self"
    and "fiber_inv 1 root_stack (fsys c)" "running (fsys c) = root_stack"
  shows "closes self s threw c"
proof -
  obtain st f where st: "CallerMainFunc_end threw 1 (fsys c) = Inr st" "running st = Native" "t_fiber st = t_threadFiber st"
    "main_fiber st = Some 1" "fibers st 1 = Some f" "fb_stack f \<noteq> None" "fb_state f \<in> {TERM', EXCEPT}" "count_ok st"
    "\<exists>t. t_threadFiber st = Some t \<and> t \<noteq> 1 \<and> t \<in> dom (fibers st)"
    using root_returns [OF assms(3,4), of threw] by blast
  from count_ok_delete [OF st(8,5,6)] st(4,7) obtain st'
    where st': "Fiber_delete 1 st = Inr st'" "count_ok st'" "fibers st' = (fibers st)(1 := None)" "main_fiber st' = Some 1"
      "t_fiber st' = t_fiber st" by auto
  let ?c' = "c\<lparr>fsys := st', t_scheduler := None\<rparr>"
  have "Scheduler_destroy self (s\<lparr>m_stopping := True\<rparr>) (c\<lparr>fsys := st\<rparr>) = Inr ?c'"
    using assms(1,2) st'(1) by (simp add: Scheduler_destroy_def Scheduler_delete_def Scheduler_GetThis_def)
  moreover have "Fiber_swapOut False a st' = Inl (Undefined ''dangling Fiber pointer'')" if "fibers st' a = Some g" for a g
    using that st'(3,4) by (auto simp: Fiber_swapOut_def swapcontext_def SetThis_def deref_def)
  ultimately show ?thesis using st(1-3,9) st' unfolding closes_def
    by (intro exI [of _ st] exI [of _ ?c']) (auto simp: Scheduler_GetThis_def GetMainFiber_def TotalFibers_def count_ok_def)
qed

text \<open>
  C28. The life of a scheduler in the thread that builds it. On a fresh thread the constructor
  with \<^verbatim>\<open>use_caller\<close> succeeds, makes the scheduler and its root fiber current and gives the thread the scheduler's
  name; \<^verbatim>\<open>stop\<close>'s
  \<^verbatim>\<open>call\<close> and the entry of \<^verbatim>\<open>run\<close> succeed, on the root fiber's stack; whatever the loop
  then does with fibers, as long as it keeps the discipline, no operation fails, and once it is back on
  its own stack its return brings the native stack back with the thread's main fiber current; destroying the
  stopped scheduler then frees the root fiber, leaves no scheduler in the thread and the count of
  fibers exact. The thread is not as it was: it keeps a main fiber, the scheduler's name, and the pointer \<^verbatim>\<open>GetMainFiber\<close> gives, which names the freed root
  fiber, so that any later \<^verbatim>\<open>swapOut\<close> in this thread reads freed memory.
\<close>
theorem caller_thread_life:
  assumes "0 < threads"
  shows "\<exists>s c1 st1 c2. Scheduler_make cfg (Some mem) run self tid threads True name (fresh_caller tls) = Inr (s, c1) \<and>
    Scheduler_GetThis c1 = Some self \<and> GetMainFiber c1 = Some 1 \<and> m_rootFiber s = Some 1 \<and>
    tls_thread c1 = Thread_SetName name tls \<and> Fiber_call 1 (fsys c1) = Inr st1 \<and>
    run_enter cfg' (Some mem') idle self s tid (c1\<lparr>fsys := st1\<rparr>) = Inr (2, c2) \<and> running (fsys c2) = root_stack \<and>
    (\<forall>ops. fiber_run 1 root_stack ops (fsys c2) \<longrightarrow>
      (\<exists>st3. fiber_exec ops (fsys c2) = Inr st3 \<and>
        (running st3 = root_stack \<longrightarrow> closes self s threw (c2\<lparr>fsys := st3\<rparr>))))"
proof -
  obtain s c1 where make: "Scheduler_make cfg (Some mem) run self tid threads True name (fresh_caller tls) = Inr (s, c1)"
    and c1: "m_rootFiber s = Some 1" "m_rootThread s = tid" "t_scheduler c1 = Some self" "main_fiber (fsys c1) = Some 1"
    "tls_thread c1 = Thread_SetName name tls"
    and c1fs: "fsys c1 = (snd (Fiber_new cfg (Some mem) run 0 True (snd (Fiber_new_main thread_init))))
      \<lparr>t_threadFiber := Some 0, main_fiber := Some 1\<rparr>"
    using make_fresh [OF assms, of cfg mem run self tid name tls] by blast
  obtain st1 where call: "Fiber_call 1 (fsys c1) = Inr st1" and st1: "running st1 = root_stack" "fiber_inv 1 root_stack st1"
    using call_root [of cfg mem run] unfolding c1fs by blast
  have next1: "next_addr st1 = 2"
    using call unfolding c1fs by (auto simp: thread_init_def opdefs Let_def)
  let ?c2 = "c1\<lparr>fsys := snd (Fiber_new cfg' (Some mem') idle 0 False st1)\<rparr>"
  have enter: "run_enter cfg' (Some mem') idle self s tid (c1\<lparr>fsys := st1\<rparr>) = Inr (2, ?c2)"
    using c1(2,3) next1 by (simp add: run_enter_def setThis_def Fiber_new_def Let_def)
  have inv: "fiber_inv 1 root_stack (fsys ?c2)" using st1(2) by (simp add: fiber_new_keeps)
  have "running (fsys ?c2) = root_stack" using st1(1) by (simp add: Fiber_new_def Let_def)
  moreover have "\<exists>st3. fiber_exec ops (fsys ?c2) = Inr st3 \<and>
      (running st3 = root_stack \<longrightarrow> closes self s threw (?c2\<lparr>fsys := st3\<rparr>))"
    if "fiber_run 1 root_stack ops (fsys ?c2)" for ops
    using fiber_exec_safe [OF inv that] root_closes [OF c1(1), of "?c2\<lparr>fsys := st3\<rparr>" self threw for st3] c1(3)
    by fastforce
  ultimately show ?thesis using make c1(1,3,4,5) call enter
    by (intro exI [of _ s] exI [of _ c1] exI [of _ st1] exI [of _ ?c2]) (simp add: Scheduler_GetThis_def GetMainFiber_def)
qed

theorem caller_thread_life_witness:
  "\<exists>s c1. Scheduler_make 1048576 (Some 4096) ''run'' 7 100 2 True ''sched'' (fresh_caller (None, ''main'')) = Inr (s, c1) \<and>
    Scheduler_GetThis c1 = Some 7"
proof -
  have "0 < (2 :: nat)" by simp
  from caller_thread_life [OF this, where cfg = 1048576 and mem = 4096 and run = "''run''" and self = 7 and tid = 100
      and name = "''sched''" and tls = "(None, ''main'')" and cfg' = 0 and mem' = 0 and idle = "''idle''" and threw = False]
  show ?thesis by blast
qed

end
