(* ===== verification/Scheduler_Shutdown.thy ===== *)
theory Scheduler_Shutdown
  imports Scheduler_Progress
begin

text \<open>
  The end of the pool of \<open>Schedulers\<close>. When the workers have all left their loops, every task that any
  thread may run has been run; and after \<^verbatim>\<open>stop\<close> has set its flags, the workers can
  come to their end by steps of their own, whatever they were doing and whatever was
  queued, so that \<^verbatim>\<open>stop\<close> can join them all. The exception are tasks pinned to a thread that is not
  in the loop: one outside the pool, or one that has left it too early, which happens since a
  fiber that yields is for a moment neither counted nor queued.
\<close>

section \<open>Steps of workers only\<close>

text \<open>What workers do by themselves; a fiber that runs ends.\<close>

fun own_step :: "'cb pool_op \<Rightarrow> bool" where
  "own_step (P_Take w) = True"
| "own_step (P_Dispatch w) = True"
| "own_step (P_Leave w s) = (s = TERM')"
| "own_step (P_Return w) = True"
| "own_step (P_Settle w) = True"
| "own_step (P_Idle w) = True"
| "own_step (P_IdleBack w) = True"
| "own_step _ = False"

lemma own_step_fine: "own_step op \<Longrightarrow> disciplined op p" "own_step op \<Longrightarrow> no_late_schedule op p"
  by (cases op; simp)+

text \<open>The flags of \<^verbatim>\<open>stop\<close>, and the state of the pool the argument keeps.\<close>

definition closing :: "int set \<Rightarrow> 'cb pool \<Rightarrow> bool" where
  "closing W p \<longleftrightarrow> pool_ok p \<and> stop_inv W p \<and> stop_flags p"

lemma closing_step:
  assumes "closing W p" "own_step op"
  shows "\<exists>p'. pool_do op p = Inr p' \<and> closing W p'"
proof -
  obtain p' where p': "pool_do op p = Inr p'" "pool_ok p'"
    using pool_ok_step [of p op] assms own_step_fine(1) by (auto simp: closing_def)
  moreover have "stop_inv W p'" "stop_flags p'"
    using stop_inv_step [OF _ p'(1)] flags_step [OF p'(1)] assms(1) by (auto simp: closing_def)
  ultimately show ?thesis by (auto simp: closing_def)
qed

lemma closing_exec:
  "closing W p \<Longrightarrow> list_all own_step ops \<Longrightarrow> \<exists>p'. pool_exec ops p = Inr p' \<and> closing W p'"
proof (induction ops arbitrary: p)
  case (Cons op ops)
  then obtain p1 where "pool_do op p = Inr p1" "closing W p1" using closing_step [of W p op] by auto
  with Cons show ?case by auto
qed simp

section \<open>Everybody comes back to the top of the loop\<close>

text \<open>What one worker has to do to get there from where it stands.\<close>

fun settle_ops :: "int \<Rightarrow> 'cb wstate \<Rightarrow> 'cb pool_op list" where
  "settle_ops w (W_Took it) = [P_Dispatch w, P_Leave w TERM', P_Return w, P_Settle w]"
| "settle_ops w W_Nothing = [P_Idle w, P_IdleBack w]"
| "settle_ops w (W_Run f b) = [P_Leave w TERM', P_Return w, P_Settle w]"
| "settle_ops w (W_Leaving f b) = [P_Return w, P_Settle w]"
| "settle_ops w (W_Back f b) = [P_Settle w]"
| "settle_ops w W_Idle = [P_IdleBack w]"
| "settle_ops w _ = []"

lemma settle_own: "list_all own_step (settle_ops w x)"
  by (cases x) simp_all

lemma settle_result:
  assumes cl: "closing W p" and run: "pool_exec (settle_ops w (wk p w)) p = Inr p'"
  shows "wk p' w \<in> {W_Loop, W_Exit} \<and> (\<forall>v. v \<noteq> w \<longrightarrow> wk p' v = wk p v)"
proof (cases "wk p w")
  case (W_Took it)
  then show ?thesis using run
    by (auto simp: run_dispatch_def run_cb_def run_return_def set_wk_def set_fstate_def add_active_def Let_def
        split: if_splits option.splits)
next
  case W_Nothing
  then show ?thesis using run by (auto simp: set_wk_def add_idle_def split: if_splits)
next
  case (W_Run f b)
  then show ?thesis using run by (auto simp: run_return_def set_wk_def set_fstate_def add_active_def Let_def split: if_splits)
next
  case (W_Leaving f b)
  then show ?thesis using run
    by (auto simp: run_return_def set_wk_def set_fstate_def add_active_def Let_def split: if_splits)
next
  case (W_Back f b)
  then show ?thesis using run
    by (auto simp: run_return_def set_wk_def set_fstate_def Let_def split: if_splits)
next
  case W_Idle
  then show ?thesis using run by (auto simp: set_wk_def add_idle_def)
qed (use run in auto)

lemma settle_all:
  assumes "finite V" "closing W p"
  shows "\<exists>ops p'. list_all own_step ops \<and> pool_exec ops p = Inr p' \<and> closing W p' \<and>
    (\<forall>w \<in> V. wk p' w \<in> {W_Loop, W_Exit})"
  using assms
proof (induction V arbitrary: p rule: finite_induct)
  case empty
  then show ?case by (intro exI [of _ "[]"]) auto
next
  case (insert w V)
  from insert obtain ops p1 where p1: "list_all own_step ops" "pool_exec ops p = Inr p1" "closing W p1"
    "\<forall>v \<in> V. wk p1 v \<in> {W_Loop, W_Exit}" by blast
  obtain p2 where p2: "pool_exec (settle_ops w (wk p1 w)) p1 = Inr p2" "closing W p2"
    using closing_exec [OF p1(3) settle_own] by blast
  from settle_result [OF p1(3) p2(1)] p1(4) insert.hyps(2) have "\<forall>v \<in> insert w V. wk p2 v \<in> {W_Loop, W_Exit}" by (metis insert_iff)
  with p1 p2 settle_own show ?case
    by (intro exI [of _ "ops @ settle_ops w (wk p1 w)"] exI [of _ p2]) (simp add: pool_exec_append)
qed

section \<open>The queue runs dry\<close>

text \<open>
  A worker that has left, or is about to: its idle fiber has ended and it has just found no task. The
  task it may find later has to be one of another worker.
\<close>

definition gone :: "'cb pool \<Rightarrow> int \<Rightarrow> bool" where
  "gone p w \<longleftrightarrow> wk p w = W_Exit \<or> wk p w = W_Nothing \<and> idle_term p w"

definition has_home :: "int set \<Rightarrow> 'cb pool \<Rightarrow> 'cb task \<Rightarrow> bool" where
  "has_home W p t \<longleftrightarrow> (\<exists>w \<in> W. for_thread w t \<and> \<not> gone p w)"

lemma run_take_moves:
  assumes "run_take v p = Inr p'"
  shows "idle_term p' = idle_term p" "w \<noteq> v \<Longrightarrow> wk p' w = wk p w" "wk p' v = W_Nothing \<or> (\<exists>it. wk p' v = W_Took it)"
proof -
  obtain ft rest tm where "pick v (fstate p) (m_fibers (sch p)) = Inr (ft, rest, tm)"
    using assms by (auto simp: run_take_def)
  with assms show "idle_term p' = idle_term p" "w \<noteq> v \<Longrightarrow> wk p' w = wk p w" "wk p' v = W_Nothing \<or> (\<exists>it. wk p' v = W_Took it)"
    by (cases ft; auto simp: run_take_def set_wk_def add_active_def Let_def)+
qed

lemma gone_step:
  assumes step: "pool_do op p = Inr p'" and gone: "gone p' w"
  shows "gone p w \<or> op = P_Take w \<and> run_take w p = Inr p' \<and> wk p' w = W_Nothing"
proof (cases op)
  case (P_Take v)
  show ?thesis
  proof (cases "wk p v = W_Loop")
    case True
    then have run: "run_take v p = Inr p'" using P_Take step by simp
    show ?thesis
    proof (cases "w = v")
      case True
      with run_take_moves(3) [OF run] gone P_Take run show ?thesis by (auto simp: gone_def)
    next
      case False
      with run_take_moves(1) [OF run] run_take_moves(2) [OF run False] gone show ?thesis by (simp add: gone_def)
    qed
  next
    case False
    with P_Take step gone show ?thesis by (cases "wk p v") auto
  qed
qed (use assms in \<open>auto simp: gone_def run_dispatch_def run_cb_def run_return_def set_wk_def set_fstate_def
      add_active_def add_idle_def Let_def split: wstate.splits if_splits option.splits\<close>)

lemma run_take_queue:
  assumes "run_take w p = Inr p'"
  shows "set (m_fibers (sch p')) \<subseteq> set (m_fibers (sch p))"
proof -
  obtain ft rest tm where pick: "pick w (fstate p) (m_fibers (sch p)) = Inr (ft, rest, tm)"
    using assms by (auto simp: run_take_def)
  have "set rest \<subseteq> set (m_fibers (sch p))" using pick_parts [OF pick] by (auto split: option.splits)
  with pick assms show ?thesis
    by (auto simp: run_take_def set_wk_def add_active_def Let_def split: option.splits if_splits)
qed

text \<open>A worker that finds nothing leaves nothing for itself.\<close>

lemma pick_none: "pick me st q = Inr (None, rest, tm) \<Longrightarrow> t \<in> set q \<Longrightarrow> \<not> eligible me st t"
proof (induction q arbitrary: rest tm)
  case (Cons u q)
  then show ?case by (auto simp: eligible_def for_thread_def split: if_splits option.splits)
qed simp

lemma took_nothing:
  assumes ok: "pool_ok p" and run: "run_take w p = Inr p'" and none: "wk p' w = W_Nothing"
    and t: "t \<in> set (m_fibers (sch p'))"
  shows "\<not> for_thread w t"
proof -
  obtain ft rest tm where taken: "pick w (fstate p) (m_fibers (sch p)) = Inr (ft, rest, tm)"
    using run by (auto simp: run_take_def)
  with run none have pick: "pick w (fstate p) (m_fibers (sch p)) = Inr (None, rest, tm)"
    by (cases ft; cases tm) (auto simp: run_take_def set_wk_def Let_def)
  have q: "t \<in> set (m_fibers (sch p))" using run_take_queue [OF run] t by blast
  have "fstate p f \<noteq> EXEC" if "ft_fiber t = Some f" for f
    using queued_not_exec [OF ok, of f] q that by (force simp: queued_def map_filter_def)
  with pick_none [OF pick q] show ?thesis by (auto simp: eligible_def)
qed

text \<open>Where a queued task comes from.\<close>

lemma queue_origin:
  assumes "pool_do op p = Inr p'" "t \<in> set (m_fibers (sch p'))"
  shows "t \<in> set (m_fibers (sch p)) \<or> (\<exists>bw fc thr. op = P_Schedule bw fc thr) \<or>
    ft_thread t = -1 \<and> (\<exists>w f b. op = P_Settle w \<and> wk p w = W_Back f b \<and> wk p' w = W_Loop)"
proof (cases op)
  case (P_Take w)
  then show ?thesis using assms run_take_queue [of w p p'] by (cases "wk p w") auto
qed (use assms in \<open>auto simp: run_dispatch_def run_cb_def run_return_def set_wk_def set_fstate_def
        add_active_def add_idle_def Let_def split: wstate.splits if_splits option.splits\<close>)

lemma home_kept:
  assumes ok: "pool_ok p" and step: "pool_do op p = Inr p'" and t: "t \<in> set (m_fibers (sch p'))" and home: "has_home W p t"
  shows "has_home W p' t"
  using home gone_step [OF step] took_nothing [OF ok _ _ t] unfolding has_home_def by blast

lemma home_settled:
  assumes acct: "acct W p" and w: "wk p w = W_Back f b" "wk p' w = W_Loop" and t: "ft_thread t = -1"
  shows "has_home W p' t"
proof -
  have "w \<in> W" using acct w(1) by (auto simp: acct_def)
  with w(2) t show ?thesis unfolding has_home_def by (intro bexI [of _ w]) (simp_all add: for_thread_def gone_def)
qed

definition at_home :: "int set \<Rightarrow> 'cb pool \<Rightarrow> bool" where
  "at_home W p \<longleftrightarrow> (\<forall>t \<in> set (m_fibers (sch p)). has_home W p t)"

lemma at_home_step:
  assumes "closing W p" "own_step op" "pool_do op p = Inr p'" "at_home W p"
  shows "at_home W p'"
  unfolding at_home_def
proof
  fix t assume t: "t \<in> set (m_fibers (sch p'))"
  have p: "pool_ok p" "acct W p" using assms(1) by (simp_all add: closing_def stop_inv_def)
  from queue_origin [OF assms(3) t] show "has_home W p' t"
  proof (elim disjE exE conjE)
    assume "t \<in> set (m_fibers (sch p))"
    with home_kept [OF p(1) assms(3) t] assms(4) show ?thesis by (simp add: at_home_def)
  qed (use assms(2) home_settled [OF p(2)] in auto)
qed

lemma at_home_exec:
  "closing W p \<Longrightarrow> list_all own_step ops \<Longrightarrow> pool_exec ops p = Inr p' \<Longrightarrow> at_home W p \<Longrightarrow> at_home W p'"
proof (induction ops arbitrary: p)
  case (Cons op ops)
  from Cons.prems obtain p1 where p1: "pool_do op p = Inr p1" "pool_exec ops p1 = Inr p'" by auto
  have "closing W p1" using closing_step [OF Cons.prems(1), of op] Cons.prems(2) p1(1) by auto
  with Cons at_home_step [OF Cons.prems(1) _ p1(1)] p1 show ?case by simp
qed simp

lemma round_own: "list_all own_step (round_ops w)"
  by (simp add: round_ops_def)

lemma drain_all:
  assumes "closing W p" "\<forall>w \<in> W. wk p w \<in> {W_Loop, W_Exit}" "at_home W p"
  shows "\<exists>ops p'. list_all own_step ops \<and> pool_exec ops p = Inr p' \<and> closing W p' \<and>
    (\<forall>w \<in> W. wk p' w \<in> {W_Loop, W_Exit}) \<and> m_fibers (sch p') = []"
  using assms
proof (induction "m_fibers (sch p)" arbitrary: p)
  case Nil
  then show ?case by (intro exI [of _ "[]"]) auto
next
  case (Cons t q)
  have "t \<in> set (m_fibers (sch p))" using Cons.hyps(2) by (metis list.set_intros(1))
  with Cons.prems(3) obtain w where w: "w \<in> W" "for_thread w t" "\<not> gone p w"
    by (auto simp: at_home_def has_home_def)
  have loop: "wk p w = W_Loop" using w Cons.prems(2) by (auto simp: gone_def)
  have ok: "pool_ok p" using Cons.prems(1) by (simp add: closing_def)
  obtain p1 where p1: "pool_exec (round_ops w) p = Inr p1" "wk p1 w = W_Loop" "m_fibers (sch p1) = q"
    "\<forall>v. v \<noteq> w \<longrightarrow> wk p1 v = wk p v"
    using round_result [OF ok loop Cons.hyps(2) [symmetric] w(2)] by blast
  have "closing W p1" using closing_exec [OF Cons.prems(1) round_own, of w] p1(1) by simp
  moreover have "\<forall>v \<in> W. wk p1 v \<in> {W_Loop, W_Exit}" using p1(2,4) Cons.prems(2) by (metis insertI1)
  moreover have "at_home W p1" by (rule at_home_exec [OF Cons.prems(1) round_own p1(1) Cons.prems(3)])
  ultimately obtain ops p' where "list_all own_step ops \<and> pool_exec ops p1 = Inr p' \<and> closing W p' \<and>
    (\<forall>w \<in> W. wk p' w \<in> {W_Loop, W_Exit}) \<and> m_fibers (sch p') = []"
    using Cons.hyps(1) [OF p1(3) [symmetric]] by blast
  with p1(1) round_own show ?case
    by (intro exI [of _ "round_ops w @ ops"] exI [of _ p']) (simp add: pool_exec_append)
qed

section \<open>Everybody leaves\<close>

lemma closing_stopping:
  assumes "closing W p" "\<forall>w \<in> W. wk p w \<in> {W_Loop, W_Exit}" "m_fibers (sch p) = []"
  shows "stopping (sch p)"
proof -
  have "{w \<in> W. busy (wk p w)} = {}" using assms(2) by auto
  with assms show ?thesis by (simp add: closing_def stop_inv_def acct_def counted_def stopping_def stop_flags_def)
qed

lemma leave_result:
  assumes cl: "closing W p" and st: "stopping (sch p)" and w: "wk p w \<in> {W_Loop, W_Exit}"
  shows "\<exists>ops p'. list_all own_step ops \<and> pool_exec ops p = Inr p' \<and> closing W p' \<and> stopping (sch p') \<and>
    wk p' w = W_Exit \<and> (\<forall>v. v \<noteq> w \<longrightarrow> wk p' v = wk p v)"
proof (cases "wk p w = W_Exit")
  case True
  with cl st show ?thesis by (intro exI [of _ "[]"]) auto
next
  case loop: False
  define ops :: "'a pool_op list" where "ops = (if idle_term p w then [P_Take w, P_Idle w] else leave_ops w)"
  have own: "list_all own_step ops" by (simp add: ops_def leave_ops_def)
  obtain p' where p': "pool_exec ops p = Inr p'" "closing W p'" using closing_exec [OF cl own] by blast
  have "m_fibers (sch p) = []" "m_activeThreadCount (sch p) = 0" "m_autoStop (sch p)" "m_stopping (sch p)" "wk p w = W_Loop"
    using st w loop by (simp_all add: stopping_def)
  with p'(1) have "stopping (sch p') \<and> wk p' w = W_Exit \<and> (\<forall>v. v \<noteq> w \<longrightarrow> wk p' v = wk p v)"
    by (auto simp: ops_def leave_ops_def run_take_def set_wk_def add_idle_def stopping_def Let_def split: if_splits)
  with own p' show ?thesis by blast
qed

lemma leave_all:
  assumes "finite V" "closing W p" "stopping (sch p)" "\<forall>w \<in> V. wk p w \<in> {W_Loop, W_Exit}"
  shows "\<exists>ops p'. list_all own_step ops \<and> pool_exec ops p = Inr p' \<and> closing W p' \<and> stopping (sch p') \<and>
    (\<forall>w \<in> V. wk p' w = W_Exit) \<and> (\<forall>v. v \<notin> V \<longrightarrow> wk p' v = wk p v)"
  using assms
proof (induction V arbitrary: p rule: finite_induct)
  case empty
  then show ?case by (intro exI [of _ "[]"]) auto
next
  case (insert w V)
  from insert.IH [of p] insert.prems obtain ops p1 where p1: "list_all own_step ops" "pool_exec ops p = Inr p1"
    "closing W p1" "stopping (sch p1)" "\<forall>v \<in> V. wk p1 v = W_Exit" "\<forall>v. v \<notin> V \<longrightarrow> wk p1 v = wk p v" by blast
  have "wk p1 w \<in> {W_Loop, W_Exit}" using p1(6) insert.hyps(2) insert.prems(3) by simp
  from leave_result [OF p1(3,4) this] obtain ops' p2 where p2: "list_all own_step ops'" "pool_exec ops' p1 = Inr p2"
    "closing W p2" "stopping (sch p2)" "wk p2 w = W_Exit" "\<forall>v. v \<noteq> w \<longrightarrow> wk p2 v = wk p1 v" by blast
  have "\<forall>v \<in> insert w V. wk p2 v = W_Exit" "\<forall>v. v \<notin> insert w V \<longrightarrow> wk p2 v = wk p v"
    using p1(5,6) p2(5,6) by (metis insert_iff)+
  with p1 p2 show ?case
    by (intro exI [of _ "ops @ ops'"] exI [of _ p2]) (simp add: pool_exec_append)
qed

lemma pool_closes:
  assumes "closing W p" "at_home W p"
  shows "\<exists>ops p'. list_all own_step ops \<and> pool_exec ops p = Inr p' \<and> m_fibers (sch p') = [] \<and> (\<forall>w. wk p' w = W_Exit)"
proof -
  have fin: "finite W" using assms(1) by (simp add: closing_def stop_inv_def acct_def)
  obtain a p1 where p1: "list_all own_step a" "pool_exec a p = Inr p1" "closing W p1" "\<forall>w \<in> W. wk p1 w \<in> {W_Loop, W_Exit}"
    using settle_all [OF fin assms(1)] by blast
  have "at_home W p1" by (rule at_home_exec [OF assms(1) p1(1,2) assms(2)])
  with drain_all [OF p1(3,4)] obtain b p2 where p2: "list_all own_step b" "pool_exec b p1 = Inr p2" "closing W p2"
    "\<forall>w \<in> W. wk p2 w \<in> {W_Loop, W_Exit}" "m_fibers (sch p2) = []" by blast
  with leave_all [OF fin p2(3) closing_stopping [OF p2(3-5)] p2(4)] obtain c p3 where p3: "list_all own_step c"
    "pool_exec c p2 = Inr p3" "closing W p3" "stopping (sch p3)" "\<forall>w \<in> W. wk p3 w = W_Exit" by blast
  have "wk p3 w = W_Exit" for w using p3(3,5) by (cases "w \<in> W") (auto simp: closing_def stop_inv_def acct_def)
  moreover have "m_fibers (sch p3) = []" using p3(4) by (simp add: stopping_def)
  ultimately show ?thesis using p1 p2 p3
    by (intro exI [of _ "a @ b @ c"] exI [of _ p3]) (simp add: pool_exec_append)
qed

text \<open>Both disciplines at once.\<close>

definition orderly :: "'cb pool_op \<Rightarrow> 'cb pool \<Rightarrow> bool" where
  "orderly op p \<longleftrightarrow> disciplined op p \<and> no_late_schedule op p"

lemma orderly_run:
  assumes run: "pool_run orderly (pool_init s W n) p" and "fresh_sched s" "finite W"
  shows "pool_ok p" "stop_inv W p"
proof -
  have "pool_ok (pool_init s W n) \<and> stop_inv W (pool_init s W n)"
    using assms(2,3) by (auto simp: fresh_sched_def pool_ok_init intro: stop_inv_init)
  with run have "pool_ok p \<and> stop_inv W p"
  proof (rule pool_run_invariant)
    fix q op q' assume "pool_ok q \<and> stop_inv W q" "orderly op q" "pool_do op q = Inr q'"
    then show "pool_ok q' \<and> stop_inv W q'"
      using pool_ok_step [of q op] stop_inv_step [of W q op q'] by (auto simp: orderly_def)
  qed
  then show "pool_ok p" "stop_inv W p" by simp_all
qed

text \<open>A task for any thread always has a worker left that may take it.\<close>

lemma gone_flags: "stop_inv W p \<Longrightarrow> gone p w \<Longrightarrow> w \<in> W \<Longrightarrow> stop_flags p"
  by (auto simp: stop_inv_def gone_def)

lemma free_home_step:
  assumes inv: "pool_ok p" "stop_inv W p" "W \<noteq> {}" and ok: "orderly op p" and step: "pool_do op p = Inr p'"
    and home: "\<forall>t \<in> set (m_fibers (sch p)). ft_thread t = -1 \<longrightarrow> has_home W p t"
    and t: "t \<in> set (m_fibers (sch p'))" "ft_thread t = -1"
  shows "has_home W p' t"
proof -
  have acct: "acct W p" using inv(2) by (simp add: stop_inv_def)
  from queue_origin [OF step t(1)] show ?thesis
  proof (elim disjE exE conjE)
    assume "t \<in> set (m_fibers (sch p))"
    with home_kept [OF inv(1) step t(1)] home t(2) show ?thesis by blast
  next
    fix bw fc thr assume op: "op = P_Schedule bw fc thr"
    have "\<exists>w \<in> W. \<not> gone p w"
    proof (cases bw)
      case None
      then have "\<not> stop_flags p" using ok op by (simp add: orderly_def stop_flags_def)
      with gone_flags [OF inv(2)] inv(3) show ?thesis by blast
    next
      case (Some w)
      then obtain f b where w: "wk p w = W_Run f b" using ok op by (auto simp: orderly_def split: wstate.splits)
      then have "w \<in> W" using acct by (auto simp: acct_def)
      with w show ?thesis by (intro bexI [of _ w]) (simp_all add: gone_def)
    qed
    then show ?thesis using step op t(2) by (auto simp: has_home_def for_thread_def gone_def)
  next
    fix w f b assume "wk p w = W_Back f b" "wk p' w = W_Loop"
    with home_settled [OF acct] t(2) show ?thesis by blast
  qed
qed

lemma free_home:
  assumes run: "pool_run orderly (pool_init s W n) p" and s: "fresh_sched s" "finite W" "W \<noteq> {}"
  shows "\<forall>t \<in> set (m_fibers (sch p)). ft_thread t = -1 \<longrightarrow> has_home W p t"
  using run
proof (induction rule: pool_run.induct)
  case pool_start
  with s(1) show ?case by (simp add: pool_init_def fresh_sched_def)
next
  case (pool_step p op p')
  with free_home_step [OF orderly_run [OF pool_step.hyps(1) s(1,2)] s(3)] show ?case by blast
qed

text \<open>
  C13. No work is lost when the scheduler stops. In any orderly run (fibers are scheduled
  only when nobody has them, nobody outside schedules after \<^verbatim>\<open>stop\<close>), once every worker has left its
  loop, no task is left in the queue that any thread may run, and no worker holds a task or a fiber.
\<close>
theorem stop_loses_no_task:
  assumes "pool_run orderly (pool_init s W n) p" and "fresh_sched s" and "finite W" and "W \<noteq> {}"
    and "\<forall>w \<in> W. wk p w = W_Exit" and "t \<in> set (m_fibers (sch p))"
  shows "ft_thread t \<noteq> -1 \<and> (\<forall>w. wk_fiber (wk p w) = None)"
proof -
  have "wk p w = W_Exit" for w
    using orderly_run(2) [OF assms(1-3)] assms(5) by (cases "w \<in> W") (auto simp: stop_inv_def acct_def)
  with free_home [OF assms(1-4)] assms(6) show ?thesis by (auto simp: has_home_def gone_def)
qed

text \<open>
  C14. The pool can always be stopped. In any state an orderly run reaches once the flags of
  \<^verbatim>\<open>stop\<close> are set, whatever each worker is doing and whatever is queued, as long as no task is
  pinned to a thread that is not in the pool or has left it, there are
  steps of the workers alone, none of which fails, after which the queue is empty and every worker has
  left its loop: the joins of \<^verbatim>\<open>stop\<close> return.
\<close>
theorem stop_can_finish:
  assumes "pool_run orderly (pool_init s W n) p" and "fresh_sched s" and "finite W" and "W \<noteq> {}"
    and "m_autoStop (sch p)" and "m_stopping (sch p)"
    and "\<forall>t \<in> set (m_fibers (sch p)). ft_thread t \<noteq> -1 \<longrightarrow> ft_thread t \<in> W \<and> \<not> gone p (ft_thread t)"
  shows "\<exists>ops p'. list_all own_step ops \<and> pool_exec ops p = Inr p' \<and> m_fibers (sch p') = [] \<and> (\<forall>w. wk p' w = W_Exit)"
proof -
  have "has_home W p t" if "t \<in> set (m_fibers (sch p))" for t
    using that free_home [OF assms(1-4)] assms(7) by (cases "ft_thread t = -1") (auto simp: has_home_def for_thread_def)
  then have "at_home W p" by (simp add: at_home_def)
  with pool_closes [of W p] orderly_run [OF assms(1-3)] assms(5,6) show ?thesis
    by (simp add: closing_def stop_flags_def)
qed

section \<open>Neither counted nor queued\<close>

text \<open>
  C15. A worker can leave while there is work. When a fiber has yielded with \<^verbatim>\<open>YieldToReady\<close>, the
  worker that ran it first takes itself out of the count of active threads and only then, under a lock
  of its own, puts the fiber back into the queue. In between, \<^verbatim>\<open>stopping\<close> sees an empty queue and no
  active thread: if it was the last task, any other worker at the top of its loop leaves for good, and then the fiber is
  in the queue again.
\<close>
theorem ready_yield_lets_workers_go:
  assumes "wk p v = W_Back f b" and "fstate p f = READY" and "stopping (sch p)"
    and "wk p w = W_Loop" and "\<not> idle_term p w"
  shows "\<exists>p'. pool_exec (leave_ops w @ [P_Settle v]) p = Inr p' \<and> wk p' w = W_Exit \<and> wk p' v = W_Loop \<and>
    m_fibers (sch p') = [\<lparr>ft_fiber = Some f, ft_cb = None, ft_thread = -1\<rparr>]"
proof -
  have "v \<noteq> w" using assms(1,4) by auto
  with assms show ?thesis
    by (cases b) (auto simp: leave_ops_def run_take_def run_return_def set_wk_def add_idle_def stopping_def
        nonempty_task_def Let_def)
qed

lemma pick_for_thread: "pick me st q = Inr (Some it, rest, tm) \<Longrightarrow> for_thread me it"
proof (induction q arbitrary: rest tm)
  case (Cons u q)
  then show ?case by (auto simp: for_thread_def split: if_splits option.splits)
qed simp

text \<open>A task nobody in the loop may take stays.\<close>

lemma foreign_stays:
  assumes t: "t \<in> set (m_fibers (sch p))" "ft_thread t \<noteq> -1" "wk p (ft_thread t) = W_Exit"
    and step: "pool_do op p = Inr p'"
  shows "t \<in> set (m_fibers (sch p'))"
proof (cases op)
  case (P_Take w)
  have "t \<in> set (m_fibers (sch q))" if q: "run_take w p = Inr q" and w: "wk p w = W_Loop" for q
  proof -
    from q obtain ft rest tm where pick: "pick w (fstate p) (m_fibers (sch p)) = Inr (ft, rest, tm)"
      by (auto simp: run_take_def)
    have "ft_thread t \<noteq> w" using t(3) w by auto
    then have "ft = Some it \<Longrightarrow> it \<noteq> t" for it
      using pick_for_thread [of w "fstate p" "m_fibers (sch p)" it rest tm] pick t(2) by (auto simp: for_thread_def)
    with pick_parts [OF pick] t(1) have "t \<in> set rest" by (auto split: option.splits)
    with pick q show ?thesis
      by (auto simp: run_take_def set_wk_def add_active_def Let_def split: option.splits if_splits)
  qed
  then show ?thesis using P_Take t(1) step by (cases "wk p w") auto
qed (use t step in \<open>auto simp: run_dispatch_def run_cb_def run_return_def set_wk_def set_fstate_def
        add_active_def add_idle_def Let_def split: wstate.splits if_splits option.splits\<close>)

text \<open>
  C39. A task pinned to a thread that is not in its loop, since it never belonged to the pool
  (\<^verbatim>\<open>schedule\<close> takes any number) or since it has left, is
  never taken and never refused. No step of anybody ever takes it out of the queue, and no worker whose
  idle fiber has not ended ever leaves its loop, so that \<^verbatim>\<open>stop\<close> waits in \<^verbatim>\<open>join\<close> for ever.
\<close>
theorem foreign_task_blocks_stop:
  assumes "t \<in> set (m_fibers (sch p))" and "ft_thread t \<noteq> -1" and "wk p (ft_thread t) = W_Exit"
    and "wk p w \<noteq> W_Exit" and "\<not> idle_term p w"
    and "pool_run (\<lambda>_ _. True) p p'"
  shows "t \<in> set (m_fibers (sch p')) \<and> wk p' w \<noteq> W_Exit"
proof -
  have "t \<in> set (m_fibers (sch p')) \<and> wk p' (ft_thread t) = W_Exit \<and> wk p' w \<noteq> W_Exit \<and> \<not> idle_term p' w"
  proof (rule pool_run_invariant [OF assms(6)])
    fix q op q' assume q: "t \<in> set (m_fibers (sch q)) \<and> wk q (ft_thread t) = W_Exit \<and> wk q w \<noteq> W_Exit \<and> \<not> idle_term q w"
      and step: "pool_do op q = Inr q'"
    then have "\<not> stopping (sch q)" by (auto simp: stopping_def)
    with q exit_step [OF step] idle_term_step [OF step] exit_stays [OF step] foreign_stays [OF _ assms(2) _ step]
    show "t \<in> set (m_fibers (sch q')) \<and> wk q' (ft_thread t) = W_Exit \<and> wk q' w \<noteq> W_Exit \<and> \<not> idle_term q' w" by blast
  qed (use assms in simp)
  then show ?thesis by blast
qed

section \<open>Runs that show it\<close>

fun orderly_exec :: "'cb pool_op list \<Rightarrow> 'cb pool \<Rightarrow> 'cb pool res" where
  "orderly_exec [] p = Inr p"
| "orderly_exec (op # ops) p = (if orderly op p then bindR (pool_do op p) (orderly_exec ops) else Inl (Undefined ''order''))"

lemma orderly_exec_run: "orderly_exec ops p = Inr p' \<Longrightarrow> pool_run orderly p0 p \<Longrightarrow> pool_run orderly p0 p'"
  by (induction ops arbitrary: p) (auto split: if_splits intro: pool_step)

text \<open>Two threads, a callback for each and one for anybody; then \<^verbatim>\<open>stop\<close>.\<close>

definition busy_ops :: "string pool_op list" where
  "busy_ops = [P_Schedule None (Callback (Some ''a'')) 1, P_Schedule None (Callback (Some ''b'')) 2, P_Take 1,
     P_Schedule None (Callback (Some ''c'')) (-1), P_Dispatch 1, P_Stop]"

lemma busy_state:
  "\<exists>p. orderly_exec busy_ops (pool_init demo_sched {1, 2} 0) = Inr p \<and> m_autoStop (sch p) \<and> m_stopping (sch p) \<and>
    wk p 1 = W_Run 0 True \<and> wk p 2 = W_Loop \<and> m_fibers (sch p) = [\<lparr>ft_fiber = None, ft_cb = Some ''b'', ft_thread = 2\<rparr>,
      \<lparr>ft_fiber = None, ft_cb = Some ''c'', ft_thread = -1\<rparr>]"
  by (simp add: busy_ops_def orderly_def pool_init_def demo_sched_def pool_defs Let_def)

theorem stop_can_finish_witness:
  "\<exists>p ops p'. orderly_exec busy_ops (pool_init demo_sched {1, 2} 0) = Inr p \<and> length (m_fibers (sch p)) = 2 \<and>
    pool_exec ops p = Inr p' \<and> (\<forall>w. wk p' w = W_Exit)"
proof -
  obtain p where p: "orderly_exec busy_ops (pool_init demo_sched {1, 2} 0) = Inr p" "m_autoStop (sch p)" "m_stopping (sch p)"
    "m_fibers (sch p) = [\<lparr>ft_fiber = None, ft_cb = Some ''b'', ft_thread = 2\<rparr>, \<lparr>ft_fiber = None, ft_cb = Some ''c'', ft_thread = -1\<rparr>]"
    "wk p 2 = W_Loop"
    using busy_state by blast
  have "fresh_sched demo_sched" by (simp add: fresh_sched_def demo_sched_def)
  moreover have "\<forall>t \<in> set (m_fibers (sch p)). ft_thread t \<noteq> -1 \<longrightarrow> ft_thread t \<in> {1, 2} \<and> \<not> gone p (ft_thread t)"
    by (simp add: p(4,5) gone_def)
  ultimately show ?thesis using stop_can_finish [OF orderly_exec_run [OF p(1) pool_start]] p(1-4) by auto
qed

text \<open>
  A fiber yields while the scheduler stops, the second worker leaves, and the fiber, run again, pins a
  callback to it; then the first worker ends up alone with it.
\<close>

definition yield_ops :: "string pool_op list" where
  "yield_ops = [P_NewFiber, P_Schedule None (FiberPtr (Some 0)) (-1), P_Take 1, P_Dispatch 1, P_Stop,
     P_Leave 1 READY, P_Return 1]"

definition strand_ops :: "string pool_op list" where
  "strand_ops = leave_ops 2 @ [P_Settle 1, P_Take 1, P_Dispatch 1, P_Schedule (Some 1) (Callback (Some ''cb'')) 2,
     P_Leave 1 TERM', P_Return 1, P_Settle 1]"

lemma yield_state:
  "\<exists>p. orderly_exec yield_ops (pool_init demo_sched {1, 2} 0) = Inr p \<and> wk p 1 = W_Back 0 False \<and> fstate p 0 = READY \<and>
    stopping (sch p) \<and> wk p 2 = W_Loop \<and> \<not> idle_term p 2"
  by (simp add: yield_ops_def orderly_def pool_init_def demo_sched_def pool_defs stopping_def not_owned_simp idle_wk_fiber Let_def)

theorem ready_yield_lets_workers_go_witness:
  "\<exists>p p'. orderly_exec yield_ops (pool_init demo_sched {1, 2} 0) = Inr p \<and>
    pool_exec (leave_ops 2 @ [P_Settle 1]) p = Inr p' \<and> wk p' 2 = W_Exit \<and>
    m_fibers (sch p') = [\<lparr>ft_fiber = Some 0, ft_cb = None, ft_thread = -1\<rparr>]"
  using yield_state ready_yield_lets_workers_go [of _ 1 0 False 2] by blast

lemma strand_state:
  "\<exists>p. orderly_exec (yield_ops @ strand_ops) (pool_init demo_sched {1, 2} 0) = Inr p \<and> wk p 1 = W_Loop \<and> \<not> idle_term p 1 \<and>
    wk p 2 = W_Exit \<and> m_fibers (sch p) = [\<lparr>ft_fiber = None, ft_cb = Some ''cb'', ft_thread = 2\<rparr>]"
  by (simp add: yield_ops_def strand_ops_def leave_ops_def orderly_def pool_init_def demo_sched_def pool_defs stopping_def
      not_owned_simp idle_wk_fiber Let_def)

theorem foreign_task_blocks_stop_witness:
  "\<exists>p p'. orderly_exec (yield_ops @ strand_ops) (pool_init demo_sched {1, 2} 0) = Inr p \<and>
    pool_exec (leave_ops 1) p = Inr p' \<and> wk p' 1 \<noteq> W_Exit"
proof -
  obtain p where p: "orderly_exec (yield_ops @ strand_ops) (pool_init demo_sched {1, 2} 0) = Inr p"
    "wk p 1 = W_Loop" "\<not> idle_term p 1" "wk p 2 = W_Exit" "m_fibers (sch p) = [\<lparr>ft_fiber = None, ft_cb = Some ''cb'', ft_thread = 2\<rparr>]"
    using strand_state by blast
  have "pool_ok p" using orderly_run(1) [OF orderly_exec_run [OF p(1) pool_start]] by (simp add: fresh_sched_def demo_sched_def)
  moreover have "\<forall>op \<in> set (leave_ops 1). \<forall>q. disciplined op (q :: string pool)" by (auto simp: leave_ops_def)
  ultimately obtain p' where p': "pool_exec (leave_ops 1) p = Inr p'" using pool_exec_ok by blast
  have "pool_run (\<lambda>_ _. True) p p'" using p' by (rule pool_exec_run [OF _ _ pool_start]) simp
  with foreign_task_blocks_stop [of "\<lparr>ft_fiber = None, ft_cb = Some ''cb'', ft_thread = 2\<rparr>" p 1 p'] p p'
  show ?thesis by auto
qed

text \<open>
  With three threads the callback is lost: the first and the third worker have both seen the
  scheduler stopping while the other was between the count and the queue, so that their idle fibers have
  ended, and leave as soon as they find nothing for themselves.
\<close>

definition trio_sched :: "string scheduler" where
  "trio_sched = demo_sched\<lparr>m_threads := [(1, ''main_0''), (2, ''main_1''), (3, ''main_2'')], m_threadIds := [1, 2, 3], m_threadCount := 3\<rparr>"

definition lose_ops :: "string pool_op list" where
  "lose_ops = [P_NewFiber, P_Schedule None (FiberPtr (Some 0)) (-1), P_Take 3, P_Dispatch 3, P_Stop, P_Leave 3 READY, P_Return 3] @
     leave_ops 2 @ [P_Take 1, P_Idle 1, P_IdleBack 1, P_Settle 3, P_Take 1, P_Dispatch 1,
     P_Take 3, P_Idle 3, P_Leave 1 READY, P_Return 1, P_IdleBack 3, P_Settle 1, P_Take 1, P_Dispatch 1,
     P_Schedule (Some 1) (Callback (Some ''cb'')) 2, P_Leave 1 TERM', P_Return 1, P_Settle 1,
     P_Take 1, P_Idle 1, P_Take 3, P_Idle 3]"

lemma lose_state:
  "\<exists>p. orderly_exec lose_ops (pool_init trio_sched {1, 2, 3} 0) = Inr p \<and> wk p 1 = W_Exit \<and> wk p 2 = W_Exit \<and> wk p 3 = W_Exit \<and>
    m_fibers (sch p) = [\<lparr>ft_fiber = None, ft_cb = Some ''cb'', ft_thread = 2\<rparr>]"
  by (simp add: lose_ops_def leave_ops_def orderly_def pool_init_def trio_sched_def demo_sched_def pool_defs stopping_def
      not_owned_simp idle_wk_fiber Let_def)

theorem stop_loses_no_task_witness:
  "\<exists>p. orderly_exec lose_ops (pool_init trio_sched {1, 2, 3} 0) = Inr p \<and> (\<forall>w. wk_fiber (wk p w) = None) \<and>
    (\<exists>t. m_fibers (sch p) = [t] \<and> ft_thread t \<noteq> -1)"
proof -
  obtain p where p: "orderly_exec lose_ops (pool_init trio_sched {1, 2, 3} 0) = Inr p" "wk p 1 = W_Exit" "wk p 2 = W_Exit"
    "wk p 3 = W_Exit" "m_fibers (sch p) = [\<lparr>ft_fiber = None, ft_cb = Some ''cb'', ft_thread = 2\<rparr>]"
    using lose_state by blast
  have "fresh_sched trio_sched" by (simp add: fresh_sched_def trio_sched_def demo_sched_def)
  from stop_loses_no_task [OF orderly_exec_run [OF p(1) pool_start] this, of "\<lparr>ft_fiber = None, ft_cb = Some ''cb'', ft_thread = 2\<rparr>"] p
  show ?thesis by auto
qed

end
