(* ===== verification/Fiber_Refs.thy ===== *)
theory Fiber_Refs
  imports Schedulers
begin

text \<open>
  Who keeps a fiber alive: the reference counts of \<^verbatim>\<open>std::shared_ptr<Fiber>\<close> under the pool of
  \<open>Schedulers\<close>. Every step of the pool copies and drops the pointers the code copies and drops
  (in the queue, in the local \<^verbatim>\<open>ft\<close> and \<^verbatim>\<open>cb_fiber\<close> of \<^verbatim>\<open>run\<close>, in the local
  \<^verbatim>\<open>cur\<close> of \<^verbatim>\<open>MainFunc\<close> and of the yields, which live on the fiber's own stack), and the
  destructor runs when a count reaches zero. Shown: the counts are exact, nothing is read after it
  was freed, no destructor finds a fiber suspended or running, nothing leaks but a suspended fiber
  nobody can resume, and that one leaks for ever.
\<close>

section \<open>Counted pointers\<close>

text \<open>
  \<open>uses\<close> are the counts in the control blocks, by the address of the fiber (an address that was
  never allocated or is freed has count zero); \<open>ext\<close> is how many pointers are kept anywhere
  outside the pool: in variables of the program, in the waiting slots of the event table.
\<close>

record 'cb owned_pool =
  op_pool :: "'cb pool"
  uses :: "nat \<Rightarrow> nat"
  ext :: "nat \<Rightarrow> nat"

definition allocated :: "'cb owned_pool \<Rightarrow> nat \<Rightarrow> bool" where
  "allocated s f \<longleftrightarrow> uses s f > 0"

text \<open>The fibers whose stack some worker \<open>ws\<close> stands on.\<close>

fun on_stack :: "nat \<Rightarrow> 'cb wstate \<Rightarrow> bool" where
  "on_stack f (W_Run g b) = (g = f)"
| "on_stack f (W_Leaving g b) = (g = f)"
| "on_stack f _ = False"

text \<open>Copying a pointer to \<open>f\<close>, and dropping one: the last one runs \<^verbatim>\<open>~Fiber\<close>.\<close>

definition copy_ptr :: "nat \<Rightarrow> 'cb owned_pool \<Rightarrow> 'cb owned_pool res" where
  "copy_ptr f s =
    (if allocated s f then Inr (s\<lparr>uses := (uses s)(f := Suc (uses s f))\<rparr>)
     else Inl (Undefined ''copies a pointer to a freed fiber''))"

definition drop_ptr :: "int list \<Rightarrow> nat \<Rightarrow> 'cb owned_pool \<Rightarrow> 'cb owned_pool res" where
  "drop_ptr ws f s =
    (if uses s f = 0 then Inl (Undefined ''drops a pointer to a freed fiber'')
     else if uses s f > 1 then Inr (s\<lparr>uses := (uses s)(f := uses s f - 1)\<rparr>)
     else if list_ex (\<lambda>w. on_stack f (wk (op_pool s) w)) ws then Inl (Undefined ''frees the stack in use'')
     else if fstate (op_pool s) f = INIT \<or> fstate (op_pool s) f = EXCEPT \<or> fstate (op_pool s) f = TERM'
     then Inr (s\<lparr>uses := (uses s)(f := 0)\<rparr>)
     else Inl (Assertion ''m_state == INIT || m_state == EXCEPT || m_state == TERM''))"

fun each_ptr :: "(nat \<Rightarrow> 's \<Rightarrow> 's res) \<Rightarrow> nat list \<Rightarrow> 's \<Rightarrow> 's res" where
  "each_ptr act [] s = Inr s"
| "each_ptr act (f # fs) s = bindR (act f s) (each_ptr act fs)"

section \<open>The pointers each piece of code copies and drops\<close>

text \<open>
  Each function gives the pointers copied and the pointers dropped. \<^verbatim>\<open>swapIn\<close> of a fiber that
  starts enters \<^verbatim>\<open>MainFunc\<close>, whose \<^verbatim>\<open>cur\<close> is a copy that stays on the fiber's stack;
  \<^verbatim>\<open>swapIn\<close> of one that comes back from a yield destroys the \<^verbatim>\<open>cur\<close> of that yield.
\<close>

definition swapIn_ptrs :: "nat \<Rightarrow> State \<Rightarrow> nat list \<times> nat list" where
  "swapIn_ptrs f st = (if st = INIT then ([f], []) else ([], [f]))"

text \<open>
  What the fiber does before it leaves: a yield copies the pointer into its \<^verbatim>\<open>cur\<close>, the end of
  \<^verbatim>\<open>MainFunc\<close> resets its \<^verbatim>\<open>cur\<close> before the last switch.
\<close>

definition yield_ptrs :: "nat \<Rightarrow> nat list \<times> nat list" where
  "yield_ptrs f = ([f], [])"

definition MainFunc_end_ptrs :: "nat \<Rightarrow> nat list \<times> nat list" where
  "MainFunc_end_ptrs f = ([], [f])"

text \<open>
  \<^verbatim>\<open>schedule(Fiber::ptr)\<close> leaves one copy in the queue; the overload for
  \<^verbatim>\<open>Fiber::ptr*\<close> moves the caller's pointer there.
\<close>

fun schedule_ptrs :: "'cb fiber_or_cb \<Rightarrow> nat list \<times> nat list" where
  "schedule_ptrs (FiberPtr (Some f)) = ([f], [])"
| "schedule_ptrs _ = ([], [])"

fun moved_ptrs :: "'cb fiber_or_cb \<Rightarrow> nat list" where
  "moved_ptrs (FiberPtrRef (Some f)) = [f]"
| "moved_ptrs _ = []"

text \<open>\<^verbatim>\<open>ft = *it; m_fibers.erase(it)\<close>.\<close>

definition take_ptrs :: "int \<Rightarrow> 'cb pool \<Rightarrow> nat list \<times> nat list" where
  "take_ptrs w p =
    (case pick w (fstate p) (m_fibers (sch p)) of
       Inr (Some it, _, _) \<Rightarrow> (case ft_fiber it of Some f \<Rightarrow> ([f], [f]) | None \<Rightarrow> ([], []))
     | _ \<Rightarrow> ([], []))"

text \<open>
  The branch on what was taken: \<^verbatim>\<open>ft\<close> keeps its fiber while it runs; otherwise \<^verbatim>\<open>ft.reset()\<close>
  drops what it has, and a callback runs on \<^verbatim>\<open>cb_fiber\<close>, new or reset, which enters
  \<^verbatim>\<open>MainFunc\<close> in both cases.
\<close>

definition dispatch_ptrs :: "int \<Rightarrow> 'cb task \<Rightarrow> 'cb pool \<Rightarrow> nat list \<times> nat list" where
  "dispatch_ptrs w it p =
    (case ft_fiber it of
       Some f \<Rightarrow>
         if fstate p f \<noteq> TERM' \<and> fstate p f \<noteq> EXCEPT then swapIn_ptrs f (fstate p f)
         else (if ft_cb it = None then [] else case cbf p w of Some g \<Rightarrow> [g] | None \<Rightarrow> [nxt p], [f])
     | None \<Rightarrow> (if ft_cb it = None then [] else case cbf p w of Some g \<Rightarrow> [g] | None \<Rightarrow> [nxt p], []))"

text \<open>After the switch back: \<^verbatim>\<open>schedule\<close> copies, \<^verbatim>\<open>ft.reset()\<close> and \<^verbatim>\<open>cb_fiber.reset()\<close> drop.\<close>

definition return_ptrs :: "nat \<Rightarrow> bool \<Rightarrow> State \<Rightarrow> nat list \<times> nat list" where
  "return_ptrs f is_cb st =
    (if st = READY then ([f], [f])
     else if \<not> is_cb then ([], [f])
     else if st = EXCEPT \<or> st = TERM' then ([], [])
     else ([], [f]))"

text \<open>Leaving \<^verbatim>\<open>run\<close> destroys its locals.\<close>

definition exit_ptrs :: "nat option \<Rightarrow> nat list \<times> nat list" where
  "exit_ptrs cb_fiber = ([], case cb_fiber of Some g \<Rightarrow> [g] | None \<Rightarrow> [])"

fun pool_ptrs :: "'cb pool_op \<Rightarrow> 'cb pool \<Rightarrow> nat list \<times> nat list" where
  "pool_ptrs (P_Schedule by fc thr) p = schedule_ptrs fc"
| "pool_ptrs (P_Take w) p = (case wk p w of W_Loop \<Rightarrow> take_ptrs w p | _ \<Rightarrow> ([], []))"
| "pool_ptrs (P_Dispatch w) p = (case wk p w of W_Took it \<Rightarrow> dispatch_ptrs w it p | _ \<Rightarrow> ([], []))"
| "pool_ptrs (P_Leave w st) p =
     (case wk p w of
        W_Run f b \<Rightarrow> if st = READY \<or> st = HOLD then yield_ptrs f else MainFunc_end_ptrs f
      | _ \<Rightarrow> ([], []))"
| "pool_ptrs (P_Settle w) p = (case wk p w of W_Back f b \<Rightarrow> return_ptrs f b (fstate p f) | _ \<Rightarrow> ([], []))"
| "pool_ptrs (P_Idle w) p =
     (case wk p w of W_Nothing \<Rightarrow> if idle_term p w then exit_ptrs (cbf p w) else ([], []) | _ \<Rightarrow> ([], []))"
| "pool_ptrs _ p = ([], [])"

text \<open>The fiber objects a step makes, each with its first pointer: \<^verbatim>\<open>new Fiber\<close>.\<close>

fun made_by :: "'cb pool_op \<Rightarrow> 'cb pool \<Rightarrow> nat list" where
  "made_by P_NewFiber p = [nxt p]"
| "made_by (P_Dispatch w) p =
     (case wk p w of
        W_Took it \<Rightarrow>
          (if (case ft_fiber it of Some f \<Rightarrow> fstate p f = TERM' \<or> fstate p f = EXCEPT | None \<Rightarrow> True) \<and>
              ft_cb it \<noteq> None \<and> cbf p w = None then [nxt p] else [])
      | _ \<Rightarrow> [])"
| "made_by _ p = []"

text \<open>The fibers whose members a step reads.\<close>

fun reads :: "'cb pool_op \<Rightarrow> 'cb pool \<Rightarrow> nat list" where
  "reads (P_Take w) p = (case wk p w of W_Loop \<Rightarrow> queued (m_fibers (sch p)) | _ \<Rightarrow> [])"
| "reads (P_Dispatch w) p =
     (case wk p w of
        W_Took it \<Rightarrow> (case ft_fiber it of Some f \<Rightarrow> [f] | None \<Rightarrow> []) @ (case cbf p w of Some g \<Rightarrow> [g] | None \<Rightarrow> [])
      | _ \<Rightarrow> [])"
| "reads (P_Leave w st) p = (case wk p w of W_Run f b \<Rightarrow> [f] | _ \<Rightarrow> [])"
| "reads (P_Settle w) p = (case wk p w of W_Back f b \<Rightarrow> [f] | _ \<Rightarrow> [])"
| "reads _ p = []"

section \<open>Steps\<close>

text \<open>
  A step of the pool with its pointers; somebody outside copies or drops a pointer it has; code on
  a fiber's stack takes a pointer to its own fiber with \<^verbatim>\<open>Fiber::GetThis\<close> and keeps it.
\<close>

datatype 'cb ref_op =
    R_Pool "'cb pool_op"
  | R_Copy nat
  | R_Drop nat
  | R_GetThis int

definition add_ext :: "nat list \<Rightarrow> 'cb owned_pool \<Rightarrow> 'cb owned_pool" where
  "add_ext fs s = s\<lparr>ext := (\<lambda>f. ext s f + count_list fs f)\<rparr>"

definition sub_ext :: "nat list \<Rightarrow> 'cb owned_pool \<Rightarrow> 'cb owned_pool" where
  "sub_ext fs s = s\<lparr>ext := (\<lambda>f. ext s f - count_list fs f)\<rparr>"

definition make_objs :: "nat list \<Rightarrow> 'cb owned_pool \<Rightarrow> 'cb owned_pool" where
  "make_objs fs s = s\<lparr>uses := (\<lambda>f. if f \<in> set fs then 1 else uses s f)\<rparr>"

text \<open>What a step changes about the pointers outside: a new fiber is handed out, a moved pointer goes in.\<close>

definition ext_change :: "'cb pool_op \<Rightarrow> 'cb pool \<Rightarrow> 'cb owned_pool \<Rightarrow> 'cb owned_pool" where
  "ext_change op p s = (case op of P_NewFiber \<Rightarrow> add_ext [nxt p] s
     | P_Schedule by fc thr \<Rightarrow> sub_ext (moved_ptrs fc) s | _ \<Rightarrow> s)"

definition ref_pool :: "int list \<Rightarrow> 'cb pool_op \<Rightarrow> 'cb owned_pool \<Rightarrow> 'cb owned_pool res" where
  "ref_pool ws op s =
    (let p = op_pool s; (copied, dropped) = pool_ptrs op p in
     if \<not> list_all (allocated s) (reads op p) then Inl (Undefined ''reads a freed fiber'')
     else bindR (pool_do op p) (\<lambda>p'.
       let s1 = make_objs (made_by op p) (s\<lparr>op_pool := p'\<rparr>);
           s2 = ext_change op p s1
       in bindR (each_ptr copy_ptr copied s2) (each_ptr (drop_ptr ws) dropped)))"

fun ref_do :: "int list \<Rightarrow> 'cb ref_op \<Rightarrow> 'cb owned_pool \<Rightarrow> 'cb owned_pool res" where
  "ref_do ws (R_Pool op) s = ref_pool ws op s"
| "ref_do ws (R_Copy f) s = bindR (copy_ptr f s) (\<lambda>s'. Inr (add_ext [f] s'))"
| "ref_do ws (R_Drop f) s = drop_ptr ws f (sub_ext [f] s)"
| "ref_do ws (R_GetThis w) s =
     (case wk (op_pool s) w of
        W_Run f b \<Rightarrow> bindR (copy_ptr f s) (\<lambda>s'. Inr (add_ext [f] s'))
      | _ \<Rightarrow> Inr s)"

text \<open>
  The discipline: the pool's own, and nobody uses a pointer it does not have: what is scheduled,
  copied or dropped from outside is among the pointers outside.
\<close>

fun ref_ok :: "'cb ref_op \<Rightarrow> 'cb owned_pool \<Rightarrow> bool" where
  "ref_ok (R_Pool op) s \<longleftrightarrow> disciplined op (op_pool s) \<and>
     (case op of P_Schedule by fc thr \<Rightarrow> (\<forall>f. scheduled_fiber fc = Some f \<longrightarrow> ext s f > 0) | _ \<Rightarrow> True)"
| "ref_ok (R_Copy f) s \<longleftrightarrow> ext s f > 0"
| "ref_ok (R_Drop f) s \<longleftrightarrow> ext s f > 0"
| "ref_ok (R_GetThis w) s \<longleftrightarrow> True"

definition owned_init :: "'cb scheduler \<Rightarrow> int list \<Rightarrow> nat \<Rightarrow> 'cb owned_pool" where
  "owned_init s ws n = \<lparr>op_pool = pool_init s (set ws) n, uses = (\<lambda>_. 0), ext = (\<lambda>_. 0)\<rparr>"

inductive ref_run :: "int list \<Rightarrow> 'cb owned_pool \<Rightarrow> 'cb owned_pool \<Rightarrow> bool" for ws s0 where
  ref_start: "ref_run ws s0 s0"
| ref_step: "ref_run ws s0 s \<Longrightarrow> ref_ok op s \<Longrightarrow> ref_do ws op s = Inr s' \<Longrightarrow> ref_run ws s0 s'"

section \<open>Who holds a fiber\<close>

text \<open>The pointers on a fiber's own stack, by its state.\<close>

fun self_refs :: "State \<Rightarrow> nat" where
  "self_refs EXEC = 1"
| "self_refs HOLD = 2"
| "self_refs READY = 2"
| "self_refs _ = 0"

fun ft_refs :: "'cb wstate \<Rightarrow> nat \<Rightarrow> nat" where
  "ft_refs (W_Took it) f = of_bool (ft_fiber it = Some f)"
| "ft_refs (W_Run g b) f = of_bool (\<not> b \<and> g = f)"
| "ft_refs (W_Leaving g b) f = of_bool (\<not> b \<and> g = f)"
| "ft_refs (W_Back g b) f = of_bool (\<not> b \<and> g = f)"
| "ft_refs _ f = 0"

text \<open>A worker's locals \<^verbatim>\<open>ft\<close> and \<^verbatim>\<open>cb_fiber\<close>, which are gone once it left \<^verbatim>\<open>run\<close>.\<close>

definition wk_refs :: "'cb wstate \<Rightarrow> nat option \<Rightarrow> nat \<Rightarrow> nat" where
  "wk_refs x c f = ft_refs x f + of_bool (x \<noteq> W_Exit \<and> c = Some f)"

definition crew_refs :: "int set \<Rightarrow> 'cb pool \<Rightarrow> nat \<Rightarrow> nat" where
  "crew_refs W p f = (\<Sum>w \<in> W. wk_refs (wk p w) (cbf p w) f)"

definition holders :: "int set \<Rightarrow> 'cb owned_pool \<Rightarrow> nat \<Rightarrow> nat" where
  "holders W s f = count_list (queued (m_fibers (sch (op_pool s)))) f + crew_refs W (op_pool s) f +
     self_refs (fstate (op_pool s) f) + ext s f"

definition ref_inv :: "int set \<Rightarrow> 'cb owned_pool \<Rightarrow> bool" where
  "ref_inv W s \<longleftrightarrow> finite W \<and> pool_ok (op_pool s) \<and> (\<forall>w. w \<notin> W \<longrightarrow> wk (op_pool s) w = W_Exit) \<and>
     (\<forall>f. uses s f = holders W s f) \<and> (\<forall>f \<ge> nxt (op_pool s). uses s f = 0)"

lemma crew_refs_upd:
  assumes "finite W" "w \<in> W" "wk p' = (wk p)(w := x)" "cbf p' = (cbf p)(w := c)"
  shows "crew_refs W p' f + wk_refs (wk p w) (cbf p w) f = crew_refs W p f + wk_refs x c f"
proof -
  have "crew_refs W p' f = (\<Sum>v \<in> W - {w}. wk_refs (wk p v) (cbf p v) f) + wk_refs x c f"
    using assms by (simp add: crew_refs_def sum.remove)
  moreover have "crew_refs W p f = (\<Sum>v \<in> W - {w}. wk_refs (wk p v) (cbf p v) f) + wk_refs (wk p w) (cbf p w) f"
    using assms by (simp add: crew_refs_def sum.remove)
  ultimately show ?thesis by simp
qed

lemma crew_refs_cong: "wk p' = wk p \<Longrightarrow> cbf p' = cbf p \<Longrightarrow> crew_refs W p' f = crew_refs W p f"
  by (simp add: crew_refs_def)

text \<open>The pointers in the pool itself, outside pointers apart.\<close>

definition pool_refs :: "int set \<Rightarrow> 'cb pool \<Rightarrow> nat \<Rightarrow> nat" where
  "pool_refs W p f = count_list (queued (m_fibers (sch p))) f + crew_refs W p f + self_refs (fstate p f)"

lemma holders_pool: "holders W s f = pool_refs W (op_pool s) f + ext s f"
  by (simp add: holders_def pool_refs_def)

lemma pool_refs_upd:
  assumes "finite W" "w \<in> W" "wk p' = (wk p)(w := x)" "cbf p' = (cbf p)(w := c)"
  shows "pool_refs W p' f + count_list (queued (m_fibers (sch p))) f + wk_refs (wk p w) (cbf p w) f + self_refs (fstate p f) =
    pool_refs W p f + count_list (queued (m_fibers (sch p'))) f + wk_refs x c f + self_refs (fstate p' f)"
  using crew_refs_upd [OF assms, of f] by (simp add: pool_refs_def)

text \<open>
  The balance of one step of the pool: the pointers in the pool change by the copies and drops the
  code makes, the object that is made, and what moves in from outside.
\<close>

definition balanced :: "int set \<Rightarrow> 'cb pool_op \<Rightarrow> 'cb pool \<Rightarrow> 'cb pool \<Rightarrow> bool" where
  "balanced W op p p' \<longleftrightarrow> (\<forall>f.
     pool_refs W p' f + count_list (snd (pool_ptrs op p)) f + (if op = P_NewFiber then count_list [nxt p] f else 0) =
     pool_refs W p f + count_list (fst (pool_ptrs op p)) f + count_list (made_by op p) f +
       (case op of P_Schedule by fc thr \<Rightarrow> count_list (moved_ptrs fc) f | _ \<Rightarrow> 0))"

lemma balanced_schedule:
  "balanced W (P_Schedule by fc thr) p (p\<lparr>sch := schedule tickle fc thr (sch p)\<rparr>)"
proof (cases fc)
  case (FiberPtr g)
  then show ?thesis by (cases g) (auto simp: balanced_def pool_refs_def crew_refs_def nonempty_task_def)
next
  case (FiberPtrRef g)
  then show ?thesis by (cases g) (auto simp: balanced_def pool_refs_def crew_refs_def nonempty_task_def)
qed (auto simp: balanced_def pool_refs_def crew_refs_def nonempty_task_def)

fun is_schedule :: "'cb pool_op \<Rightarrow> bool" where
  "is_schedule (P_Schedule by fc thr) = True"
| "is_schedule _ = False"

text \<open>One worker moves.\<close>

lemma balanced_worker:
  assumes "finite W" "w \<in> W" "wk p' = (wk p)(w := x)" "cbf p' = (cbf p)(w := c)"
    and "op \<noteq> P_NewFiber" "\<And>by fc thr. op \<noteq> P_Schedule by fc thr"
    and "\<And>f. count_list (queued (m_fibers (sch p'))) f + wk_refs x c f + self_refs (fstate p' f) +
        count_list (snd (pool_ptrs op p)) f =
      count_list (queued (m_fibers (sch p))) f + wk_refs (wk p w) (cbf p w) f + self_refs (fstate p f) +
        count_list (fst (pool_ptrs op p)) f + count_list (made_by op p) f"
  shows "balanced W op p p'"
  unfolding balanced_def
proof
  fix f
  show "pool_refs W p' f + count_list (snd (pool_ptrs op p)) f + (if op = P_NewFiber then count_list [nxt p] f else 0) =
     pool_refs W p f + count_list (fst (pool_ptrs op p)) f + count_list (made_by op p) f +
       (case op of P_Schedule by fc thr \<Rightarrow> count_list (moved_ptrs fc) f | _ \<Rightarrow> 0)"
    using pool_refs_upd [OF assms(1-4), of f] assms(7) [of f] assms(5,6) by (cases op) auto
qed

lemma balanced_take:
  assumes "finite W" "w \<in> W" "wk p w = W_Loop" "run_take w p = Inr p'"
  shows "balanced W (P_Take w) p p'"
proof -
  obtain ft rest tm where pick: "pick w (fstate p) (m_fibers (sch p)) = Inr (ft, rest, tm)"
    using assms(4) by (auto simp: run_take_def)
  note parts = pick_parts [OF pick]
  have p': "wk p' = (wk p)(w := case ft of Some it \<Rightarrow> W_Took it | None \<Rightarrow> W_Nothing)" "cbf p' = (cbf p)(w := cbf p w)"
    "m_fibers (sch p') = rest" "fstate p' = fstate p"
    using pick assms(4) by (auto simp: run_take_def set_wk_def add_active_def Let_def split: option.splits)
  show ?thesis
    by (rule balanced_worker [OF assms(1,2) p'(1,2)])
      (use parts p' pick assms(3) in \<open>auto simp: wk_refs_def take_ptrs_def split: option.splits\<close>)
qed

lemma balanced_dispatch:
  assumes ok: "pool_ok p" and W: "finite W" "w \<in> W" and w: "wk p w = W_Took it" and run: "run_dispatch w it p = Inr p'"
    and fresh: "self_refs (fstate p (nxt p)) = 0"
  shows "balanced W (P_Dispatch w) p p'"
proof (cases "\<exists>f. ft_fiber it = Some f \<and> fstate p f \<noteq> TERM' \<and> fstate p f \<noteq> EXCEPT")
  case True
  then obtain f where f: "ft_fiber it = Some f" "fstate p f \<noteq> TERM'" "fstate p f \<noteq> EXCEPT" by blast
  with run have p': "p' = set_wk w (W_Run f False) (set_fstate f EXEC p)" "fstate p f \<noteq> EXEC"
    by (auto simp: run_dispatch_def split: if_splits)
  have self: "self_refs (fstate p f) = (if fstate p f = INIT then 0 else 2)"
    using f p'(2) by (cases "fstate p f") auto
  show ?thesis
    by (rule balanced_worker [OF W, where x = "W_Run f False" and c = "cbf p w"])
      (use p' f w self in \<open>auto simp: wk_refs_def dispatch_ptrs_def swapIn_ptrs_def set_wk_def set_fstate_def\<close>)
next
  case False
  then have cb: "run_cb w it p = Inr p'" using run by (auto simp: run_dispatch_def split: option.splits)
  note wok = pool_ok_wk [OF ok w]
  show ?thesis
  proof (cases "ft_cb it")
    case None
    with cb have p': "p' = set_wk w W_Loop (add_active (-1) p)" by (simp add: run_cb_def)
    show ?thesis
      by (rule balanced_worker [OF W, where x = W_Loop and c = "cbf p w"])
        (use p' None False w in \<open>auto simp: wk_refs_def dispatch_ptrs_def set_wk_def add_active_def split: option.splits\<close>)
  next
    case (Some cbk)
    define g where "g = (case cbf p w of Some g \<Rightarrow> g | None \<Rightarrow> nxt p)"
    have p': "wk p' = (wk p)(w := W_Run g True)" "cbf p' = (cbf p)(w := Some g)"
      "m_fibers (sch p') = m_fibers (sch p)" "fstate p' = (fstate p)(g := EXEC)"
      using cb Some by (auto simp: g_def run_cb_def set_wk_def set_fstate_def Let_def split: option.splits if_splits)
    have self: "self_refs (fstate p g) = 0" using wok fresh by (auto simp: g_def split: option.splits)
    have "pool_ptrs (P_Dispatch w) p = ([g], case ft_fiber it of Some f \<Rightarrow> [f] | None \<Rightarrow> [])"
      using Some False w by (auto simp: dispatch_ptrs_def g_def split: option.splits)
    moreover have "made_by (P_Dispatch w) p = (if cbf p w = None then [g] else [])"
      using Some False w by (auto simp: g_def split: option.splits)
    moreover have "cbf p w = None \<or> cbf p w = Some g" by (auto simp: g_def split: option.splits)
    ultimately show ?thesis
      using p' w self by (intro balanced_worker [OF W p'(1,2)]) (auto simp: wk_refs_def split: option.split)
  qed
qed

lemma balanced_leave:
  assumes ok: "pool_ok p" and W: "finite W" "w \<in> W" and w: "wk p w = W_Run f b"
    and s: "st \<in> {READY, HOLD, TERM', EXCEPT}"
  shows "balanced W (P_Leave w st) p (set_wk w (W_Leaving f b) (set_fstate f st p))"
  by (rule balanced_worker [OF W, where x = "W_Leaving f b" and c = "cbf p w"])
    (use s w pool_ok_wk [OF ok w] in \<open>auto simp: wk_refs_def yield_ptrs_def MainFunc_end_ptrs_def set_wk_def set_fstate_def\<close>)

lemma balanced_back:
  assumes W: "finite W" "w \<in> W" and w: "wk p w = W_Leaving f b"
  shows "balanced W (P_Return w) p (set_wk w (W_Back f b) (add_active (-1) p))"
  by (rule balanced_worker [OF W, where x = "W_Back f b" and c = "cbf p w"])
    (use w in \<open>auto simp: wk_refs_def set_wk_def add_active_def\<close>)

lemma balanced_return:
  assumes ok: "pool_ok p" and W: "finite W" "w \<in> W" and w: "wk p w = W_Back f b" and run: "run_return w f b p = Inr p'"
  shows "balanced W (P_Settle w) p p'"
proof (cases b)
  case False
  show ?thesis
    by (rule balanced_worker [OF W, where x = W_Loop and c = "cbf p w"])
      (use False w run pool_ok_wk [OF ok w] in \<open>auto simp: wk_refs_def return_ptrs_def run_return_def set_wk_def
        add_active_def nonempty_task_def Let_def split: if_splits\<close>)
next
  case True
  show ?thesis
    by (rule balanced_worker [OF W, where x = W_Loop and c = "cbf p' w"])
      (use True w run pool_ok_wk [OF ok w] in \<open>auto simp: wk_refs_def return_ptrs_def run_return_def set_wk_def set_fstate_def
        add_active_def nonempty_task_def Let_def split: if_splits\<close>)
qed

lemma balanced_idle:
  assumes W: "finite W" "w \<in> W" and w: "wk p w = W_Nothing" 
    and run: "(if idle_term p w then Inr (set_wk w W_Exit p) else Inr (set_wk w W_Idle (add_idle 1 p))) = Inr p'"
  shows "balanced W (P_Idle w) p p'"
  by (rule balanced_worker [OF W, where x = "wk p' w" and c = "cbf p w"])
    (use w run in \<open>auto simp: wk_refs_def exit_ptrs_def set_wk_def add_idle_def split: if_splits option.splits\<close>)

lemma balanced_idle_back:
  assumes W: "finite W" "w \<in> W" and w: "wk p w = W_Idle"
  shows "balanced W (P_IdleBack w) p (set_wk w W_Loop (add_idle (- 1) (p\<lparr>idle_term := t\<rparr>)))"
  by (rule balanced_worker [OF W, where x = W_Loop and c = "cbf p w"])
    (use w in \<open>auto simp: wk_refs_def set_wk_def add_idle_def\<close>)

lemma balanced_same: 
  assumes "wk p' = wk p" "cbf p' = cbf p" "fstate p' = fstate p" "m_fibers (sch p') = m_fibers (sch p)"
    "pool_ptrs op p = ([], [])" "made_by op p = []" "op \<noteq> P_NewFiber" "\<not> is_schedule op"
  shows "balanced W op p p'"
  using assms crew_refs_cong [OF assms(1,2)] by (cases op) (simp_all add: balanced_def pool_refs_def)

text \<open>Every step of a disciplined pool is balanced.\<close>

lemma balanced_step:
  assumes ok: "pool_ok p" and W: "finite W" "\<And>w. w \<notin> W \<Longrightarrow> wk p w = W_Exit" and op: "disciplined op p"
    and run: "pool_do op p = Inr p'" and fresh: "self_refs (fstate p (nxt p)) = 0"
  shows "balanced W op p p'"
proof -
  have inW: "w \<in> W" if "wk p w \<noteq> W_Exit" for w using W(2) that by blast
  show ?thesis
  proof (cases op)
    case (P_Schedule bw fc thr)
    then show ?thesis using run balanced_schedule by auto
  next
    case P_NewFiber
    have "crew_refs W p' f = crew_refs W p f" for f
      using run P_NewFiber by (intro crew_refs_cong) (auto simp: set_fstate_def)
    then show ?thesis using run P_NewFiber fresh by (auto simp: balanced_def pool_refs_def set_fstate_def)
  next
    case (P_Take w)
    then show ?thesis using run balanced_take [OF W(1) inW, of w]
      by (cases "wk p w") (auto intro: balanced_same)
  next
    case (P_Dispatch w)
    then show ?thesis using run balanced_dispatch [OF ok W(1) inW _ _ fresh, of w]
      by (cases "wk p w") (auto intro: balanced_same)
  next
    case (P_Leave w st)
    then show ?thesis using run op balanced_leave [OF ok W(1) inW, of w]
      by (cases "wk p w") (auto intro: balanced_same)
  next
    case (P_Return w)
    then show ?thesis using run balanced_back [OF W(1) inW, of w]
      by (cases "wk p w") (auto intro: balanced_same)
  next
    case (P_Settle w)
    then show ?thesis using run balanced_return [OF ok W(1) inW, of w]
      by (cases "wk p w") (auto intro: balanced_same)
  next
    case (P_Idle w)
    then show ?thesis using run balanced_idle [OF W(1) inW, of w]
      by (cases "wk p w") (auto intro: balanced_same)
  next
    case (P_IdleBack w)
    then show ?thesis using run balanced_idle_back [OF W(1) inW, of w]
      by (cases "wk p w") (auto intro: balanced_same)
  next
    case P_Stop
    then show ?thesis using run by (auto intro: balanced_same)
  qed
qed

section \<open>The counts are exact\<close>

lemma each_copy:
  "list_all (allocated s) fs \<Longrightarrow> each_ptr copy_ptr fs s = Inr (s\<lparr>uses := (\<lambda>f. uses s f + count_list fs f)\<rparr>)"
proof (induction fs arbitrary: s)
  case (Cons g fs)
  then show ?case by (auto simp: copy_ptr_def allocated_def list_all_iff fun_eq_iff)
qed simp

text \<open>
  Dropping a pointer somebody holds. If it was the last, the pool has no place left for the fiber,
  so its state is one the destructor accepts and its stack is not in use.
\<close>

lemma drop_held:
  assumes W: "finite (set ws)" "\<And>w. w \<notin> set ws \<Longrightarrow> wk (op_pool s) w = W_Exit" and ok: "pool_ok (op_pool s)"
    and uses: "uses s f = Suc (holders (set ws) s f)"
  shows "drop_ptr ws f s = Inr (s\<lparr>uses := (uses s)(f := holders (set ws) s f)\<rparr>)"
proof (cases "holders (set ws) s f = 0")
  case True
  have "\<not> on_stack f (wk (op_pool s) w)" if w: "w \<in> set ws" for w
  proof
    assume on: "on_stack f (wk (op_pool s) w)"
    from True w have "wk_refs (wk (op_pool s) w) (cbf (op_pool s) w) f = 0" by (simp add: holders_def crew_refs_def)
    moreover have "wk_ok (fstate (op_pool s)) (wk (op_pool s) w) (cbf (op_pool s) w)" using ok by (simp add: pool_ok_def)
    ultimately show False using on by (cases "wk (op_pool s) w") (auto simp: wk_refs_def split: if_splits)
  qed
  moreover from True have "self_refs (fstate (op_pool s) f) = 0" by (simp add: holders_def)
  then have "fstate (op_pool s) f \<in> {INIT, EXCEPT, TERM'}" by (cases "fstate (op_pool s) f") auto
  ultimately show ?thesis using True uses by (auto simp: drop_ptr_def list_ex_iff)
next
  case False
  then show ?thesis using uses by (auto simp: drop_ptr_def)
qed

text \<open>Dropping at most one pointer, which somebody holds.\<close>

lemma each_drop:
  assumes W: "finite (set ws)" "\<And>w. w \<notin> set ws \<Longrightarrow> wk (op_pool s) w = W_Exit" and ok: "pool_ok (op_pool s)"
    and fs: "fs = [] \<or> (\<exists>g. fs = [g])" and uses: "\<And>f. uses s f = holders (set ws) s f + count_list fs f"
  shows "\<exists>s'. each_ptr (drop_ptr ws) fs s = Inr s' \<and> op_pool s' = op_pool s \<and> ext s' = ext s \<and>
    (\<forall>f. uses s' f = holders (set ws) s f)"
proof (cases "fs = []")
  case False
  then obtain g where g: "fs = [g]" using fs by blast
  have "drop_ptr ws g s = Inr (s\<lparr>uses := (uses s)(g := holders (set ws) s g)\<rparr>)"
    using uses [of g] g by (intro drop_held [OF W ok]) simp_all
  moreover have "uses s f = holders (set ws) s f" if "f \<noteq> g" for f using uses [of f] g that by simp
  ultimately show ?thesis using g by auto
qed (use uses in simp)

lemma dropped_one: "snd (pool_ptrs op p) = [] \<or> (\<exists>f. snd (pool_ptrs op p) = [f])"
proof -
  have "schedule_ptrs fc = ([], []) \<or> (\<exists>f. schedule_ptrs fc = ([f], []))" for fc :: "'a fiber_or_cb"
    by (cases fc rule: schedule_ptrs.cases) auto
  then have "snd (schedule_ptrs fc) = []" for fc :: "'a fiber_or_cb" by (metis snd_conv)
  then show ?thesis
    by (cases op) (auto simp: take_ptrs_def dispatch_ptrs_def swapIn_ptrs_def yield_ptrs_def MainFunc_end_ptrs_def
        return_ptrs_def exit_ptrs_def split: wstate.split option.split sum.split prod.split)
qed

lemma nxt_step: "pool_do op p = Inr p' \<Longrightarrow> nxt p' = nxt p + length (made_by op p)"
  by (cases op)
    (auto simp: run_take_def run_dispatch_def run_cb_def run_return_def set_wk_def set_fstate_def
      add_active_def add_idle_def Let_def split: wstate.splits if_splits option.splits)

lemma made_next: "made_by op p = [] \<or> made_by op p = [nxt p]"
  by (cases op) (auto split: wstate.split)

lemma ref_invD:
  assumes "ref_inv W s"
  shows "finite W" "pool_ok (op_pool s)" "\<And>w. w \<notin> W \<Longrightarrow> wk (op_pool s) w = W_Exit"
    "\<And>f. uses s f = holders W s f" "\<And>f. nxt (op_pool s) \<le> f \<Longrightarrow> uses s f = 0"
  using assms by (auto simp: ref_inv_def)

text \<open>Whoever has a fiber in the pool keeps it allocated.\<close>

lemma allocated_if:
  assumes inv: "ref_inv W s"
  shows "f \<in> set (queued (m_fibers (sch (op_pool s)))) \<Longrightarrow> allocated s f"
    "wk (op_pool s) w \<noteq> W_Exit \<Longrightarrow> has_fiber (wk (op_pool s)) (cbf (op_pool s)) w f \<Longrightarrow> allocated s f"
    "ext s f > 0 \<Longrightarrow> allocated s f" "self_refs (fstate (op_pool s) f) > 0 \<Longrightarrow> allocated s f"
proof -
  note uses = ref_invD(4) [OF inv, of f]
  show "f \<in> set (queued (m_fibers (sch (op_pool s)))) \<Longrightarrow> allocated s f"
    by (simp add: allocated_def uses holders_def) (metis count_list_0_iff gr0I add_gr_0)
  show "ext s f > 0 \<Longrightarrow> allocated s f" "self_refs (fstate (op_pool s) f) > 0 \<Longrightarrow> allocated s f"
    by (simp_all add: allocated_def uses holders_def)
  let ?x = "wk (op_pool s) w" and ?c = "cbf (op_pool s) w"
  assume live: "?x \<noteq> W_Exit" and has: "has_fiber (wk (op_pool s)) (cbf (op_pool s)) w f"
  have "wk_ok (fstate (op_pool s)) ?x ?c" using ref_invD(2) [OF inv] by (simp add: pool_ok_def)
  then have "wk_refs ?x ?c f > 0" using live has by (cases ?x) (auto simp: wk_refs_def has_fiber_def)
  moreover have "w \<in> W" using live ref_invD(3) [OF inv] by blast
  ultimately have "crew_refs W (op_pool s) f > 0"
    using ref_invD(1) [OF inv] by (auto simp: crew_refs_def intro: sum_pos2)
  then show "allocated s f" by (simp add: allocated_def uses holders_def)
qed

lemma reads_allocated:
  assumes inv: "ref_inv W s"
  shows "list_all (allocated s) (reads op (op_pool s))"
  unfolding list_all_iff
proof
  fix f assume f: "f \<in> set (reads op (op_pool s))"
  note held = allocated_if(2) [OF inv, of _ f, unfolded has_fiber_def]
  show "allocated s f"
  proof (cases op)
    case (P_Take w)
    with f allocated_if(1) [OF inv] show ?thesis by (auto split: wstate.splits)
  next
    case (P_Dispatch w)
    with f held [of w] show ?thesis by (cases "wk (op_pool s) w") (auto split: option.splits)
  next
    case (P_Leave w st)
    with f held [of w] show ?thesis by (cases "wk (op_pool s) w") (auto split: option.splits)
  next
    case (P_Settle w)
    with f held [of w] show ?thesis by (cases "wk (op_pool s) w") (auto split: option.splits)
  qed (use f in auto)
qed

lemma copied_allocated:
  assumes inv: "ref_inv W s" and ok: "ref_ok (R_Pool op) s" and f: "f \<in> set (fst (pool_ptrs op (op_pool s)))"
  shows "f \<in> set (made_by op (op_pool s)) \<or> allocated s f"
proof (cases op)
  case (P_Schedule bw fc thr)
  with f ok have "ext s f > 0" by (cases fc rule: schedule_ptrs.cases) auto
  with allocated_if(3) [OF inv] show ?thesis by blast
next
  case (P_Take w)
  with f obtain it rest tm where "pick w (fstate (op_pool s)) (m_fibers (sch (op_pool s))) = Inr (Some it, rest, tm)"
    "ft_fiber it = Some f"
    by (auto simp: take_ptrs_def split: wstate.splits sum.splits option.splits)
  from pick_parts [OF this(1)] this(2) have "f \<in> set (queued (m_fibers (sch (op_pool s))))" by auto
  with allocated_if(1) [OF inv] show ?thesis by blast
next
  case (P_Dispatch w)
  with f show ?thesis using allocated_if(2) [OF inv, of w f]
    by (auto simp: dispatch_ptrs_def swapIn_ptrs_def has_fiber_def split: wstate.splits option.splits if_splits)
next
  case (P_Leave w st)
  with f show ?thesis using allocated_if(2) [OF inv, of w f]
    by (auto simp: yield_ptrs_def MainFunc_end_ptrs_def has_fiber_def split: wstate.splits if_splits)
next
  case (P_Settle w)
  with f show ?thesis using allocated_if(2) [OF inv, of w f]
    by (auto simp: return_ptrs_def has_fiber_def split: wstate.splits if_splits)
qed (use f in \<open>auto simp: exit_ptrs_def split: wstate.splits if_splits option.splits\<close>)

lemma ext_change_sel [simp]:
  "op_pool (ext_change op p s) = op_pool s" "uses (ext_change op p s) = uses s"
  by (simp_all add: ext_change_def add_ext_def sub_ext_def split: pool_op.split)

lemma moved_one: "count_list (moved_ptrs fc) f \<le> (if scheduled_fiber fc = Some f then 1 else 0)"
  by (cases fc rule: moved_ptrs.cases) auto

lemma ref_pool_balance:
  assumes inv: "ref_inv W s" and ok: "ref_ok (R_Pool op) s" and run: "pool_do op (op_pool s) = Inr p'"
    and s2: "s2 = ext_change op (op_pool s) (make_objs (made_by op (op_pool s)) (s\<lparr>op_pool := p'\<rparr>))"
  shows "holders W s2 f + count_list (snd (pool_ptrs op (op_pool s))) f =
    uses s2 f + count_list (fst (pool_ptrs op (op_pool s))) f"
proof -
  let ?p = "op_pool s"
  note I = ref_invD [OF inv]
  have "holders W s (nxt ?p) = 0" using I(4,5) [of "nxt ?p"] by simp
  then have fresh: "self_refs (fstate ?p (nxt ?p)) = 0" by (simp add: holders_def)
  have "balanced W op ?p p'"
    using ok run fresh by (intro balanced_step [OF I(2,1,3)]) auto
  then have bal: "pool_refs W p' f + count_list (snd (pool_ptrs op ?p)) f + (if op = P_NewFiber then count_list [nxt ?p] f else 0) =
     pool_refs W ?p f + count_list (fst (pool_ptrs op ?p)) f + count_list (made_by op ?p) f +
       (case op of P_Schedule by fc thr \<Rightarrow> count_list (moved_ptrs fc) f | _ \<Rightarrow> 0)"
    by (simp only: balanced_def)
  have made: "uses s2 f = uses s f + count_list (made_by op ?p) f"
    using made_next [of op ?p] I(5) [of "nxt ?p"] by (auto simp: s2 make_objs_def)
  have "holders W s2 f = pool_refs W p' f + ext s2 f" by (simp add: holders_pool s2 make_objs_def)
  moreover have "ext s2 f + (case op of P_Schedule by fc thr \<Rightarrow> count_list (moved_ptrs fc) f | _ \<Rightarrow> 0) =
      ext s f + (if op = P_NewFiber then count_list [nxt ?p] f else 0)"
  proof (cases op)
    case (P_Schedule bw fc thr)
    with ok have "count_list (moved_ptrs fc) f \<le> ext s f"
      using moved_one [of fc f] by (auto split: if_splits)
    with P_Schedule show ?thesis by (simp add: s2 ext_change_def sub_ext_def make_objs_def)
  qed (simp_all add: s2 ext_change_def add_ext_def make_objs_def)
  ultimately show ?thesis using bal made I(4) [of f] by (simp add: holders_pool)
qed

lemma ref_pool_step:
  assumes inv: "ref_inv (set ws) s" and ok: "ref_ok (R_Pool op) s"
  shows "\<exists>s'. ref_pool ws op s = Inr s' \<and> ref_inv (set ws) s'"
proof -
  let ?W = "set ws" and ?p = "op_pool s" and ?copied = "fst (pool_ptrs op (op_pool s))" and ?dropped = "snd (pool_ptrs op (op_pool s))"
  note I = ref_invD [OF inv]
  from pool_ok_step [OF I(2)] ok obtain p' where p': "pool_do op ?p = Inr p'" "pool_ok p'" by auto
  define s2 where s2: "s2 = ext_change op ?p (make_objs (made_by op ?p) (s\<lparr>op_pool := p'\<rparr>))"
  define s3 where s3: "s3 = s2\<lparr>uses := (\<lambda>f. uses s2 f + count_list ?copied f)\<rparr>"
  note bal = ref_pool_balance [OF inv ok p'(1) s2]
  have pool: "op_pool s3 = p'" "holders ?W s3 = holders ?W s2"
    by (simp_all add: s3 s2 make_objs_def holders_def fun_eq_iff)
  have "allocated s2 f" if "f \<in> set ?copied" for f
    using copied_allocated [OF inv ok that] by (auto simp: s2 allocated_def make_objs_def)
  then have copy: "each_ptr copy_ptr ?copied s2 = Inr s3"
    by (simp add: each_copy list_all_iff s3)
  have ran: "ref_pool ws op s = each_ptr (drop_ptr ws) ?dropped s3"
    using reads_allocated [OF inv, of op] p'(1) copy
    by (simp add: ref_pool_def s2 Let_def case_prod_unfold)
  have exits: "wk p' w = W_Exit" if "w \<notin> ?W" for w
    using exit_stays [OF p'(1)] I(3) [OF that] by simp
  have "uses s3 f = holders ?W s3 f + count_list ?dropped f" for f using bal [of f] pool(2) by (simp add: s3)
  with each_drop [of ws s3 ?dropped] exits p'(2) pool dropped_one [of op ?p]
  obtain s' where s': "each_ptr (drop_ptr ws) ?dropped s3 = Inr s'" "op_pool s' = p'" "ext s' = ext s3"
    "\<And>f. uses s' f = holders ?W s2 f" by auto
  have hold: "holders ?W s' = holders ?W s2" using s'(2,3) by (simp add: holders_def s3 s2 make_objs_def fun_eq_iff)
  have "holders ?W s2 f = 0" if f: "nxt p' \<le> f" for f
  proof -
    have new: "uses s f = 0" "f \<notin> set (made_by op ?p)"
      using I(5) [of f] f nxt_step [OF p'(1)] made_next [of op ?p] by auto
    then have "f \<notin> set ?copied" using copied_allocated [OF inv ok, of f] by (auto simp: allocated_def)
    with bal [of f] new show ?thesis by (simp add: s2 make_objs_def)
  qed
  with s' hold exits p'(2) I(1) have "ref_inv ?W s'" by (simp add: ref_inv_def)
  with s'(1) ran show ?thesis by auto
qed

text \<open>Pointers outside: a copy and a drop.\<close>

lemma add_ext_sel [simp]:
  "op_pool (add_ext fs s) = op_pool s" "uses (add_ext fs s) = uses s" "ext (add_ext fs s) f = ext s f + count_list fs f"
  "op_pool (sub_ext fs s) = op_pool s" "uses (sub_ext fs s) = uses s" "ext (sub_ext fs s) f = ext s f - count_list fs f"
  by (simp_all add: add_ext_def sub_ext_def)

lemma ref_copy_step:
  assumes inv: "ref_inv W s" and f: "allocated s f"
  shows "\<exists>s'. bindR (copy_ptr f s) (\<lambda>s'. Inr (add_ext [f] s')) = Inr s' \<and> ref_inv W s'"
proof -
  from f have "\<not> nxt (op_pool s) \<le> f" using ref_invD(5) [OF inv, of f] by (auto simp: allocated_def)
  with inv f show ?thesis by (auto simp: copy_ptr_def ref_inv_def holders_def)
qed

lemma ref_drop_step:
  assumes inv: "ref_inv (set ws) s" and f: "ext s f > 0"
  shows "\<exists>s'. drop_ptr ws f (sub_ext [f] s) = Inr s' \<and> ref_inv (set ws) s'"
proof -
  let ?s = "sub_ext [f] s"
  note I = ref_invD [OF inv]
  have h: "holders (set ws) ?s g = (if g = f then holders (set ws) s f - 1 else holders (set ws) s g)" for g
    using f by (auto simp: holders_def)
  have "uses ?s f = Suc (holders (set ws) ?s f)" using f I(4) [of f] by (simp add: h) (simp add: holders_def)
  then have "drop_ptr ws f ?s = Inr (?s\<lparr>uses := (uses ?s)(f := holders (set ws) ?s f)\<rparr>)"
    using I(2,3) by (intro drop_held) auto
  moreover have "holders (set ws) (?s\<lparr>uses := u\<rparr>) = holders (set ws) ?s" for u by (simp add: holders_def fun_eq_iff)
  moreover have "holders (set ws) ?s g = uses s g" if "g \<noteq> f" for g using that I(4) by (simp add: h)
  moreover have "holders (set ws) ?s f = 0" if "nxt (op_pool s) \<le> f" using I(4,5) [of f] that by (simp add: h)
  ultimately show ?thesis using I by (auto simp: ref_inv_def)
qed

lemma ref_step_ok [keeps]:
  assumes inv: "ref_inv (set ws) s" and ok: "ref_ok op s"
  shows "\<exists>s'. ref_do ws op s = Inr s' \<and> ref_inv (set ws) s'"
proof (cases op)
  case (R_Pool po)
  with ref_pool_step [OF inv] ok show ?thesis by simp
next
  case (R_Copy f)
  with ok ref_copy_step [OF inv, of f] allocated_if(3) [OF inv, of f] show ?thesis by simp
next
  case (R_Drop f)
  with ok ref_drop_step [OF inv, of f] show ?thesis by simp
next
  case (R_GetThis w)
  show ?thesis
  proof (cases "wk (op_pool s) w")
    case (W_Run f b)
    with allocated_if(2) [OF inv, of w f] have "allocated s f" by (simp add: has_fiber_def)
    from ref_copy_step [OF inv this] W_Run R_GetThis show ?thesis by simp
  qed (use R_GetThis inv in simp_all)
qed

lemma ref_inv_init: "fresh_sched s \<Longrightarrow> ref_inv (set ws) (owned_init s ws n)"
  by (auto simp: ref_inv_def owned_init_def holders_def crew_refs_def wk_refs_def fresh_sched_def pool_ok_init)
    (auto simp: pool_init_def)

lemma ref_run_inv: "ref_run ws s0 s \<Longrightarrow> ref_inv (set ws) s0 \<Longrightarrow> ref_inv (set ws) s"
  by (induction rule: ref_run.induct) (auto dest: ref_step_ok)


section \<open>A suspended fiber nobody can resume\<close>

lemma unowned_take:
  assumes "run_take w p = Inr p'" "\<not> owned p f"
  shows "\<not> owned p' f \<and> fstate p' f = fstate p f"
proof -
  obtain ft rest tm where pick: "pick w (fstate p) (m_fibers (sch p)) = Inr (ft, rest, tm)"
    using assms(1) by (auto simp: run_take_def)
  have "f \<notin> set (queued rest)" "\<forall>it. ft = Some it \<longrightarrow> ft_fiber it \<noteq> Some f"
    using pick_parts [OF pick] assms(2) by (auto simp: unowned_iff split: option.splits)
  with pick assms show ?thesis
    by (auto simp: run_take_def unowned_iff set_wk_def add_active_def Let_def split: option.splits if_splits)
qed

lemma unowned_dispatch:
  assumes "run_dispatch w it p = Inr p'" "wk p w = W_Took it" "\<not> owned p f" "f < nxt p"
  shows "\<not> owned p' f \<and> fstate p' f = fstate p f"
proof -
  have "wk_fiber (wk p w) \<noteq> Some f" using assms(3) by (simp add: unowned_iff)
  then have it: "ft_fiber it \<noteq> Some f" using assms(2) by simp
  have cb: "\<not> owned p' f \<and> fstate p' f = fstate p f" if "run_cb w it p = Inr p'"
    using that assms(3,4)
    by (auto simp: run_cb_def unowned_iff set_wk_def set_fstate_def add_active_def Let_def split: option.splits if_splits)
  show ?thesis
  proof (cases "run_cb w it p = Inr p'")
    case False
    with assms it show ?thesis
      by (auto simp: run_dispatch_def unowned_iff set_wk_def set_fstate_def split: option.splits if_splits)
  qed (rule cb)
qed

lemma unowned_return:
  assumes "run_return w g b p = Inr p'" "wk p w = W_Back g b" "\<not> owned p f"
  shows "\<not> owned p' f \<and> fstate p' f = fstate p f"
proof -
  have "wk_fiber (wk p w) \<noteq> Some f" using assms(3) by (simp add: unowned_iff)
  with assms show ?thesis
    by (auto simp: run_return_def unowned_iff set_wk_def set_fstate_def add_active_def nonempty_task_def Let_def
        split: if_splits)
qed

text \<open>What nobody has stays as it is until somebody schedules it.\<close>

lemma unowned_keeps:
  assumes run: "pool_do op p = Inr p'" and f: "\<not> owned p f" "f < nxt p"
    and "\<And>by fc thr. op = P_Schedule by fc thr \<Longrightarrow> scheduled_fiber fc \<noteq> Some f"
  shows "\<not> owned p' f \<and> fstate p' f = fstate p f"
proof (cases op)
  case (P_Take w)
  with run f unowned_take [of w p p' f] show ?thesis by (cases "wk p w") auto
next
  case (P_Dispatch w)
  with run f unowned_dispatch [of w _ p p' f] show ?thesis by (cases "wk p w") auto
next
  case (P_Settle w)
  with run f unowned_return [of w _ _ p p' f] show ?thesis by (cases "wk p w") auto
next
  case (P_Leave w st)
  have "wk_fiber (wk p w) \<noteq> Some f" using f(1) by (simp add: unowned_iff)
  with P_Leave run f show ?thesis
    by (cases "wk p w") (auto simp: unowned_iff set_wk_def set_fstate_def split: if_splits)
next
  case (P_Return w)
  have "wk_fiber (wk p w) \<noteq> Some f" using f(1) by (simp add: unowned_iff)
  with P_Return run f show ?thesis
    by (cases "wk p w") (auto simp: unowned_iff set_wk_def add_active_def split: if_splits)
qed (use assms in \<open>auto simp: unowned_iff set_wk_def set_fstate_def add_idle_def nonempty_task_def
  split: wstate.splits if_splits option.splits\<close>)

text \<open>Alive, and nobody but itself has it.\<close>

definition stranded :: "'cb owned_pool \<Rightarrow> nat \<Rightarrow> bool" where
  "stranded s f \<longleftrightarrow> allocated s f \<and> ext s f = 0 \<and> \<not> owned (op_pool s) f"

lemma stranded_self:
  assumes inv: "ref_inv W s" and f: "stranded s f"
  shows "fstate (op_pool s) f \<in> {HOLD, READY}" "uses s f = 2" "f < nxt (op_pool s)"
proof -
  note I = ref_invD [OF inv]
  have no: "f \<notin> set (queued (m_fibers (sch (op_pool s))))" "\<And>w. wk_fiber (wk (op_pool s) w) \<noteq> Some f"
    "\<And>w. cbf (op_pool s) w \<noteq> Some f" and e: "ext s f = 0" using f by (auto simp: stranded_def unowned_iff)
  have "wk_refs (wk (op_pool s) w) (cbf (op_pool s) w) f = 0" for w
    using no(2,3) [of w] by (cases "wk (op_pool s) w") (auto simp: wk_refs_def)
  then have "crew_refs W (op_pool s) f = 0" by (simp add: crew_refs_def)
  with no(1) e I(4) [of f] have self: "uses s f = self_refs (fstate (op_pool s) f)"
    by (simp add: holders_def count_list_0_iff)
  have "fstate (op_pool s) f \<noteq> EXEC"
  proof
    assume "fstate (op_pool s) f = EXEC"
    with I(2) obtain w b where "wk (op_pool s) w = W_Run f b" by (auto simp: pool_ok_def exec_inv_def)
    with no(2) [of w] show False by simp
  qed
  with self f show "fstate (op_pool s) f \<in> {HOLD, READY}" "uses s f = 2"
    by (cases "fstate (op_pool s) f"; simp add: stranded_def allocated_def)+
  then show "f < nxt (op_pool s)" using I(5) [of f] by (cases "nxt (op_pool s) \<le> f") auto
qed

lemma copy_ptr_sel: "copy_ptr f s = Inr s' \<Longrightarrow> op_pool s' = op_pool s \<and> ext s' = ext s"
  by (auto simp: copy_ptr_def split: if_splits)

lemma drop_ptr_sel: "drop_ptr ws f s = Inr s' \<Longrightarrow> op_pool s' = op_pool s \<and> ext s' = ext s"
  by (auto simp: drop_ptr_def split: if_splits)

lemma each_ptr_sel:
  "each_ptr copy_ptr fs s = Inr s' \<Longrightarrow> op_pool s' = op_pool s \<and> ext s' = ext s"
  "each_ptr (drop_ptr ws) fs s = Inr s' \<Longrightarrow> op_pool s' = op_pool s \<and> ext s' = ext s"
  by (induction fs arbitrary: s) (auto dest: copy_ptr_sel drop_ptr_sel)

lemma ref_pool_sel:
  assumes "ref_pool ws op s = Inr s'"
  shows "pool_do op (op_pool s) = Inr (op_pool s')" "ext s' = ext (ext_change op (op_pool s) s)"
proof -
  have "ext (ext_change op p (make_objs m s)) = ext (ext_change op p s)"
    "ext (ext_change op p (s\<lparr>op_pool := q\<rparr>)) = ext (ext_change op p s)" for p q m and s :: "'a owned_pool"
    by (auto simp: ext_change_def add_ext_def sub_ext_def make_objs_def split: pool_op.split)
  with assms show "pool_do op (op_pool s) = Inr (op_pool s')" "ext s' = ext (ext_change op (op_pool s) s)"
    by (auto simp: ref_pool_def Let_def case_prod_unfold make_objs_def dest!: each_ptr_sel split: if_splits)
qed

lemma stranded_step:
  assumes inv: "ref_inv (set ws) s" and f: "stranded s f" and ok: "ref_ok op s" and run: "ref_do ws op s = Inr s'"
  shows "stranded s' f \<and> fstate (op_pool s') f = fstate (op_pool s) f"
proof -
  from ref_step_ok [OF inv ok] run have inv': "ref_inv (set ws) s'" by auto
  note self = stranded_self [OF inv f]
  have "ext s' f = 0 \<and> \<not> owned (op_pool s') f \<and> fstate (op_pool s') f = fstate (op_pool s) f"
  proof (cases op)
    case (R_Pool po)
    with run have po: "pool_do po (op_pool s) = Inr (op_pool s')" "ext s' = ext (ext_change po (op_pool s) s)"
      by (auto dest: ref_pool_sel)
    have "scheduled_fiber fc \<noteq> Some f" if "po = P_Schedule bw fc thr" for bw fc thr
      using that ok R_Pool f by (auto simp: stranded_def)
    then have "\<not> owned (op_pool s') f \<and> fstate (op_pool s') f = fstate (op_pool s) f"
      using f by (intro unowned_keeps [OF po(1) _ self(3)]) (auto simp: stranded_def)
    moreover have "ext s' f = 0" using po(2) f self(3) by (cases po) (auto simp: ext_change_def stranded_def)
    ultimately show ?thesis by blast
  next
    case (R_Copy g)
    with run ok f show ?thesis by (auto simp: stranded_def dest!: copy_ptr_sel)
  next
    case (R_Drop g)
    with run ok f show ?thesis by (auto simp: stranded_def dest!: drop_ptr_sel)
  next
    case (R_GetThis w)
    have "wk_fiber (wk (op_pool s) w) \<noteq> Some f" using f by (simp add: stranded_def unowned_iff)
    with R_GetThis run f show ?thesis by (cases "wk (op_pool s) w") (auto simp: stranded_def dest!: copy_ptr_sel)
  qed
  moreover from this self(1) have "allocated s' f" by (intro allocated_if(4) [OF inv']) auto
  ultimately show ?thesis by (simp add: stranded_def)
qed

text \<open>
  C38. What leaks. A fiber that is alive although the pool and everybody outside have
  dropped it is suspended in a yield, and the two pointers that keep it alive are on its own stack
  (\<^verbatim>\<open>cur\<close> in \<^verbatim>\<open>MainFunc\<close> and in the yield). Whatever happens afterwards, it stays so: it
  is never resumed and never freed, also when the scheduler stops.
\<close>
theorem suspended_fiber_leaks:
  assumes "ref_run ws (owned_init s ws n) st" and "fresh_sched s"
    and "stranded st f" and "ref_run ws st st'"
  shows "fstate (op_pool st) f \<in> {HOLD, READY} \<and> fstate (op_pool st') f = fstate (op_pool st) f \<and>
    stranded st' f \<and> uses st' f = 2"
proof -
  have inv: "ref_inv (set ws) st" using ref_run_inv [OF assms(1) ref_inv_init [OF assms(2)]] .
  have "ref_inv (set ws) st' \<and> stranded st' f \<and> fstate (op_pool st') f = fstate (op_pool st) f"
    using assms(4)
  proof (induction rule: ref_run.induct)
    case (ref_step s1 op s2)
    with stranded_step [of ws s1 f op s2] ref_step_ok [of ws s1 op] show ?case by auto
  qed (use inv assms(3) in simp)
  with stranded_self [OF inv assms(3)] stranded_self(2) show ?thesis by blast
qed

section \<open>Runs that show it\<close>

fun ref_exec :: "int list \<Rightarrow> 'cb ref_op list \<Rightarrow> 'cb owned_pool \<Rightarrow> 'cb owned_pool res" where
  "ref_exec ws [] s = Inr s"
| "ref_exec ws (op # ops) s = (if ref_ok op s then bindR (ref_do ws op s) (ref_exec ws ops) else Inl (Undefined ''pointer''))"

lemma ref_exec_run: "ref_exec ws ops s = Inr s' \<Longrightarrow> ref_run ws s0 s \<Longrightarrow> ref_run ws s0 s'"
  by (induction ops arbitrary: s) (auto split: if_splits intro: ref_step)

lemma ref_exec_append: "ref_exec ws (a @ b) s = bindR (ref_exec ws a s) (ref_exec ws b)"
  by (induction a arbitrary: s) (auto simp: bindR_def split: sum.split)

text \<open>A fiber is started, yields with \<^verbatim>\<open>YieldToHold\<close>, and its maker drops the last pointer outside.\<close>

definition hold_ops :: "'cb ref_op list" where
  "hold_ops = map R_Pool [P_NewFiber, P_Schedule None (FiberPtr (Some 0)) (-1), P_Take 1, P_Dispatch 1,
     P_Leave 1 HOLD, P_Return 1, P_Settle 1] @ [R_Drop 0]"

lemmas ref_defs = ref_pool_def copy_ptr_def drop_ptr_def allocated_def make_objs_def ext_change_def add_ext_def sub_ext_def
  take_ptrs_def dispatch_ptrs_def swapIn_ptrs_def yield_ptrs_def return_ptrs_def

lemma demo_held:
  "\<exists>st. ref_exec [1, 2] hold_ops (owned_init demo_sched [1, 2] 0) = Inr st \<and> stranded st 0"
  by (simp add: hold_ops_def owned_init_def pool_init_def demo_sched_def pool_defs ref_defs stranded_def
      Let_def not_owned_simp idle_wk_fiber)

theorem suspended_fiber_leaks_witness:
  "\<exists>st st'. ref_exec [1, 2] hold_ops (owned_init demo_sched [1, 2] 0) = Inr st \<and>
    ref_exec [1, 2] (map R_Pool (P_Stop # leave_ops 1 @ leave_ops 2)) st = Inr st' \<and>
    m_stopping (sch (op_pool st')) \<and> uses st' 0 = 2"
proof -
  obtain st where st: "ref_exec [1, 2] hold_ops (owned_init demo_sched [1, 2] 0) = Inr st" "stranded st 0"
    using demo_held by blast
  have "\<exists>st'. ref_exec [1, 2] (hold_ops @ map R_Pool (P_Stop # leave_ops 1 @ leave_ops 2))
      (owned_init demo_sched [1, 2] 0) = Inr st' \<and> m_stopping (sch (op_pool st'))"
    by (simp add: hold_ops_def owned_init_def pool_init_def demo_sched_def pool_defs ref_defs
        Let_def not_owned_simp idle_wk_fiber leave_ops_def exit_ptrs_def stopping_def)
  with st(1) have "\<exists>st'. ref_exec [1, 2] (map R_Pool (P_Stop # leave_ops 1 @ leave_ops 2)) st = Inr st' \<and>
      m_stopping (sch (op_pool st'))"
    unfolding ref_exec_append by simp
  then obtain st' where st': "ref_exec [1, 2] (map R_Pool (P_Stop # leave_ops 1 @ leave_ops 2)) st = Inr st'"
    "m_stopping (sch (op_pool st'))" by blast
  have "fresh_sched demo_sched" by (simp add: fresh_sched_def demo_sched_def)
  from suspended_fiber_leaks [OF ref_exec_run [OF st(1) ref_start] this st(2) ref_exec_run [OF st'(1) ref_start]]
  have "uses st' 0 = 2" by simp
  with st(1) st' show ?thesis by blast
qed


end
