(* ===== verification/Std_Containers.thy ===== *)
theory Std_Containers
  imports Vity_Prelude
begin

text \<open>
  The ordered containers of the C++ library as the sources use them. A \<^verbatim>\<open>std::map\<close> is the
  list of its entries in the order of iteration, ascending in the key: \<open>map_put\<close> is
  \<^verbatim>\<open>m[k] = v\<close>, \<open>map_ins\<close> is \<^verbatim>\<open>m.insert(...)\<close> (an entry that exists stays),
  \<open>map_erase\<close> is \<^verbatim>\<open>m.erase(k)\<close> and \<^const>\<open>map_of\<close> is \<^verbatim>\<open>m.find(k)\<close>. A
  \<^verbatim>\<open>std::set\<close> with a comparison \<open>lt\<close> is the list of its elements; two elements of which
  neither is less are the same to it. The locale \<open>ordered_map\<close> is the contract the clients rely on.
\<close>

fun map_put :: "'k::linorder \<Rightarrow> 'v \<Rightarrow> ('k \<times> 'v) list \<Rightarrow> ('k \<times> 'v) list" where
  "map_put k v [] = [(k, v)]"
| "map_put k v ((k', v') # xs) =
     (if k < k' then (k, v) # (k', v') # xs
      else if k = k' then (k, v) # xs
      else (k', v') # map_put k v xs)"

definition map_ins :: "'k::linorder \<Rightarrow> 'v \<Rightarrow> ('k \<times> 'v) list \<Rightarrow> ('k \<times> 'v) list" where
  "map_ins k v xs = (if map_of xs k = None then map_put k v xs else xs)"

definition map_erase :: "'k::linorder \<Rightarrow> ('k \<times> 'v) list \<Rightarrow> ('k \<times> 'v) list" where
  "map_erase k xs = filter (\<lambda>e. fst e \<noteq> k) xs"

definition sorted_keys :: "('k::linorder \<times> 'v) list \<Rightarrow> bool" where
  "sorted_keys xs \<longleftrightarrow> sorted_wrt (<) (map fst xs)"

lemma sorted_keys_simps [simp]:
  "sorted_keys []"
  "sorted_keys ((k, v) # xs) \<longleftrightarrow> (\<forall>k' \<in> fst ` set xs. k < k') \<and> sorted_keys xs"
  by (auto simp: sorted_keys_def)

lemma map_put_keys [simp]: "fst ` set (map_put k v xs) = insert k (fst ` set xs)"
  by (induction k v xs rule: map_put.induct) auto

lemma map_put_sorted: "sorted_keys xs \<Longrightarrow> sorted_keys (map_put k v xs)"
proof (induction k v xs rule: map_put.induct)
  case (2 k v k' v' xs)
  then show ?case by (cases k k' rule: linorder_cases) (auto dest: less_trans)
qed simp

lemma map_of_put: "sorted_keys xs \<Longrightarrow> map_of (map_put k v xs) = (map_of xs)(k \<mapsto> v)"
proof (induction k v xs rule: map_put.induct)
  case (2 k v k' v' xs)
  then show ?case by (cases k k' rule: linorder_cases) (auto simp: fun_eq_iff)
qed simp

lemma map_erase_sorted: "sorted_keys xs \<Longrightarrow> sorted_keys (map_erase k xs)"
  by (induction xs) (auto simp: map_erase_def)

lemma map_of_erase: "map_of (map_erase k xs) = (map_of xs)(k := None)"
  by (induction xs) (auto simp: map_erase_def fun_eq_iff)

lemma map_ins_sorted: "sorted_keys xs \<Longrightarrow> sorted_keys (map_ins k v xs)"
  by (simp add: map_ins_def map_put_sorted)

lemma map_of_ins: "sorted_keys xs \<Longrightarrow> map_of (map_ins k v xs) = (if map_of xs k = None then (map_of xs)(k \<mapsto> v) else map_of xs)"
  by (simp add: map_ins_def map_of_put)

text \<open>An entry that comes last goes to the end; in-order insertion is therefore the identity.\<close>

lemma map_put_end: "\<forall>k' \<in> fst ` set xs. k' < k \<Longrightarrow> map_put k v xs = xs @ [(k, v)]"
  by (induction xs) (auto simp: less_not_sym)

lemma map_ins_end: "\<forall>k' \<in> fst ` set xs. k' < k \<Longrightarrow> map_ins k v xs = xs @ [(k, v)]"
proof -
  assume *: "\<forall>k' \<in> fst ` set xs. k' < k"
  then have "map_of xs k = None" by (auto simp: map_of_eq_None_iff)
  with * show ?thesis by (simp add: map_ins_def map_put_end)
qed

lemma fold_map_ins: "sorted_keys (ys @ xs) \<Longrightarrow> fold (\<lambda>(k, v). map_ins k v) xs ys = ys @ xs"
proof (induction xs arbitrary: ys)
  case (Cons x xs)
  obtain k v where x: "x = (k, v)" by force
  from Cons.prems x have "\<forall>k' \<in> fst ` set ys. k' < k" by (auto simp: sorted_keys_def sorted_wrt_append)
  with Cons.IH [of "ys @ [x]"] Cons.prems x show ?case by (simp add: map_ins_end)
qed simp

section \<open>The contract\<close>

locale ordered_map =
  fixes find :: "'m \<Rightarrow> 'k \<Rightarrow> 'v option"
    and put :: "'k \<Rightarrow> 'v \<Rightarrow> 'm \<Rightarrow> 'm"
    and erase :: "'k \<Rightarrow> 'm \<Rightarrow> 'm"
    and ok :: "'m \<Rightarrow> bool"
  assumes find_put: "ok m \<Longrightarrow> find (put k v m) = (find m)(k \<mapsto> v)"
    and find_erase: "ok m \<Longrightarrow> find (erase k m) = (find m)(k := None)"
    and ok_put: "ok m \<Longrightarrow> ok (put k v m)"
    and ok_erase: "ok m \<Longrightarrow> ok (erase k m)"
begin

lemma put_erase_fresh: "ok m \<Longrightarrow> find m k = None \<Longrightarrow> find (erase k (put k v m)) = find m"
  by (simp add: find_erase find_put ok_put fun_upd_idem)

lemma put_other: "ok m \<Longrightarrow> k \<noteq> k' \<Longrightarrow> find (put k v m) k' = find m k'"
  by (simp add: find_put)

end

interpretation std_map: ordered_map map_of map_put map_erase sorted_keys
  by unfold_locales (auto simp: map_of_put map_of_erase map_put_sorted map_erase_sorted)

section \<open>Sets with a comparison\<close>

fun set_ins :: "('a \<Rightarrow> 'a \<Rightarrow> bool) \<Rightarrow> 'a \<Rightarrow> 'a list \<Rightarrow> 'a list" where
  "set_ins lt x [] = [x]"
| "set_ins lt x (y # ys) =
     (if lt x y then x # y # ys else if lt y x then y # set_ins lt x ys else y # ys)"

text \<open>\<^verbatim>\<open>s.find(x)\<close>: the element equivalent to \<open>x\<close>.\<close>

fun set_find :: "('a \<Rightarrow> 'a \<Rightarrow> bool) \<Rightarrow> 'a \<Rightarrow> 'a list \<Rightarrow> 'a option" where
  "set_find lt x [] = None"
| "set_find lt x (y # ys) = (if \<not> lt x y \<and> \<not> lt y x then Some y else set_find lt x ys)"

lemma set_ins_end: "transp lt \<Longrightarrow> asymp lt \<Longrightarrow> \<forall>y \<in> set ys. lt y x \<Longrightarrow> set_ins lt x ys = ys @ [x]"
  by (induction ys) (auto dest: asympD)

lemma fold_set_ins:
  assumes "transp lt" "asymp lt"
  shows "sorted_wrt lt (ys @ xs) \<Longrightarrow> fold (set_ins lt) xs ys = ys @ xs"
proof (induction xs arbitrary: ys)
  case (Cons x xs)
  from Cons.prems have "\<forall>y \<in> set ys. lt y x" by (auto simp: sorted_wrt_append)
  with Cons.IH [of "ys @ [x]"] Cons.prems assms show ?case by (simp add: set_ins_end)
qed simp

lemma set_find_Some:
  "set_find lt x ys = Some y \<Longrightarrow> y \<in> set ys \<and> \<not> lt x y \<and> \<not> lt y x"
  by (induction ys) (auto split: if_splits)

lemma set_find_None: "set_find lt x ys = None \<longleftrightarrow> (\<forall>y \<in> set ys. lt x y \<or> lt y x)"
  by (induction ys) auto

end
