(* ===== verification/Config_Cast.thy ===== *)
theory Config_Cast
  imports Std_Containers
begin

text \<open>
  The conversions between strings and values of \<^verbatim>\<open>vity/config.h\<close>: \<^verbatim>\<open>LexicalCast\<close> and
  its specialisations for the containers. The parser and the emitter of \<^verbatim>\<open>yaml-cpp\<close> are the
  two fields of \<open>yaml_lib\<close>; a node is one of the five kinds its documentation names. The casts
  of the element type are arguments, as they are template arguments in the source; a failure of any
  of them is an exception of the standard hierarchy.
\<close>

section \<open>YAML nodes\<close>

datatype yaml =
    Y_Undefined
  | Y_Null
  | Y_Scalar string
  | Y_Seq "yaml list"
  | Y_Map "(yaml \<times> yaml) list"

text \<open>
  \<open>yl_null\<close> is what \<^verbatim>\<open>as<std::string>()\<close> makes of a null node, on which the versions of
  the library differ.
\<close>

record yaml_lib =
  yl_load :: "string \<Rightarrow> yaml res"
  yl_emit :: "yaml \<Rightarrow> string"
  yl_null :: "string res"

fun IsDefined :: "yaml \<Rightarrow> bool" where
  "IsDefined Y_Undefined = False"
| "IsDefined _ = True"

fun as_string :: "yaml_lib \<Rightarrow> yaml \<Rightarrow> string res" where
  "as_string L (Y_Scalar s) = Inr s"
| "as_string L Y_Null = yl_null L"
| "as_string L _ = Inl (Thrown (Std_exception ''bad conversion''))"

fun IsScalar :: "yaml \<Rightarrow> bool" where
  "IsScalar (Y_Scalar s) = True"
| "IsScalar _ = False"

text \<open>\<^verbatim>\<open>Scalar()\<close> of a node that is not a scalar is the empty string.\<close>

fun Scalar :: "yaml \<Rightarrow> string" where
  "Scalar (Y_Scalar s) = s"
| "Scalar _ = ''''"

fun node_size :: "yaml \<Rightarrow> nat" where
  "node_size (Y_Seq ns) = length ns"
| "node_size (Y_Map es) = length es"
| "node_size _ = 0"

text \<open>\<^verbatim>\<open>node[i]\<close> with a number: in a map the number is a key.\<close>

fun node_at :: "yaml \<Rightarrow> nat \<Rightarrow> yaml" where
  "node_at (Y_Seq ns) i = (if i < length ns then ns ! i else Y_Undefined)"
| "node_at (Y_Map es) i =
     (case map_of es (Y_Scalar (string_of_nat i)) of Some n \<Rightarrow> n | None \<Rightarrow> Y_Undefined)"
| "node_at _ i = Y_Undefined"

text \<open>
  \<^verbatim>\<open>node[key]\<close> with a string: a scalar has no members and throws; what a sequence or a null
  node has under a name is undefined.
\<close>

fun node_get :: "string \<Rightarrow> yaml \<Rightarrow> yaml res" where
  "node_get key (Y_Scalar s) = Inl (Thrown (Std_exception ''operator[] call on a scalar''))"
| "node_get key (Y_Map es) =
     (case map_of es (Y_Scalar key) of Some n \<Rightarrow> Inr n | None \<Rightarrow> Inr Y_Undefined)"
| "node_get key _ = Inr Y_Undefined"

text \<open>
  Iterating from \<^verbatim>\<open>begin()\<close> to \<^verbatim>\<open>end()\<close> for keys and values: an element of a sequence has
  no key, and asking for the scalar of the missing key throws.
\<close>

fun node_entries :: "yaml \<Rightarrow> (yaml \<times> yaml) list res" where
  "node_entries (Y_Map es) = Inr es"
| "node_entries (Y_Seq (n # ns)) = Inl (Thrown (Std_exception ''invalid node''))"
| "node_entries _ = Inr []"

text \<open>A fresh node, after \<^verbatim>\<open>push_back\<close> or \<^verbatim>\<open>node[key] = ...\<close> of the given things.\<close>

fun seq_node :: "yaml list \<Rightarrow> yaml" where
  "seq_node [] = Y_Null"
| "seq_node ns = Y_Seq ns"

fun map_node :: "(string \<times> yaml) list \<Rightarrow> yaml" where
  "map_node [] = Y_Null"
| "map_node es = Y_Map (map (\<lambda>(k, n). (Y_Scalar k, n)) es)"

section \<open>Strings to containers\<close>

definition cast_items :: "yaml_lib \<Rightarrow> (string \<Rightarrow> 'a res) \<Rightarrow> string \<Rightarrow> 'a list res" where
  "cast_items L f v =
    bindR (yl_load L v) (\<lambda>node. mapR (\<lambda>i. f (yl_emit L (node_at node i))) [0..<node_size node])"

definition LexicalCast_to_vector :: "yaml_lib \<Rightarrow> (string \<Rightarrow> 'a res) \<Rightarrow> string \<Rightarrow> 'a list res" where
  "LexicalCast_to_vector L f v = cast_items L f v"

definition LexicalCast_to_list :: "yaml_lib \<Rightarrow> (string \<Rightarrow> 'a res) \<Rightarrow> string \<Rightarrow> 'a list res" where
  "LexicalCast_to_list L f v = cast_items L f v"

definition LexicalCast_to_set ::
  "yaml_lib \<Rightarrow> ('a \<Rightarrow> 'a \<Rightarrow> bool) \<Rightarrow> (string \<Rightarrow> 'a res) \<Rightarrow> string \<Rightarrow> 'a list res"
where
  "LexicalCast_to_set L lt f v = bindR (cast_items L f v) (\<lambda>xs. Inr (fold (set_ins lt) xs []))"

definition LexicalCast_to_unordered_set :: "yaml_lib \<Rightarrow> (string \<Rightarrow> 'a res) \<Rightarrow> string \<Rightarrow> 'a set res" where
  "LexicalCast_to_unordered_set L f v = bindR (cast_items L f v) (\<lambda>xs. Inr (fold insert xs {}))"

definition cast_entries :: "yaml_lib \<Rightarrow> (string \<Rightarrow> 'a res) \<Rightarrow> string \<Rightarrow> (string \<times> 'a) list res" where
  "cast_entries L f v =
    bindR (yl_load L v) (\<lambda>node. bindR (node_entries node) (\<lambda>es.
      mapR (\<lambda>(k, n). bindR (f (yl_emit L n)) (\<lambda>x. Inr (Scalar k, x))) es))"

definition LexicalCast_to_map :: "yaml_lib \<Rightarrow> (string \<Rightarrow> 'a res) \<Rightarrow> string \<Rightarrow> (string \<times> 'a) list res" where
  "LexicalCast_to_map L f v =
    bindR (cast_entries L f v) (\<lambda>es. Inr (fold (\<lambda>(k, x). map_ins k x) es []))"

definition LexicalCast_to_unordered_map ::
  "yaml_lib \<Rightarrow> (string \<Rightarrow> 'a res) \<Rightarrow> string \<Rightarrow> (string \<rightharpoonup> 'a) res"
where
  "LexicalCast_to_unordered_map L f v =
    bindR (cast_entries L f v) (\<lambda>es.
      Inr (fold (\<lambda>(k, x) m. if m k = None then m(k \<mapsto> x) else m) es (\<lambda>_. None)))"

section \<open>Containers to strings\<close>

definition item_nodes :: "yaml_lib \<Rightarrow> ('a \<Rightarrow> string res) \<Rightarrow> 'a list \<Rightarrow> yaml list res" where
  "item_nodes L g xs = mapR (\<lambda>x. bindR (g x) (yl_load L)) xs"

definition LexicalCast_from_vector :: "yaml_lib \<Rightarrow> ('a \<Rightarrow> string res) \<Rightarrow> 'a list \<Rightarrow> string res" where
  "LexicalCast_from_vector L g v = bindR (item_nodes L g v) (\<lambda>ns. Inr (yl_emit L (seq_node ns)))"

definition LexicalCast_from_list :: "yaml_lib \<Rightarrow> ('a \<Rightarrow> string res) \<Rightarrow> 'a list \<Rightarrow> string res" where
  "LexicalCast_from_list L g v = bindR (item_nodes L g v) (\<lambda>ns. Inr (yl_emit L (seq_node ns)))"

definition LexicalCast_from_set :: "yaml_lib \<Rightarrow> ('a \<Rightarrow> string res) \<Rightarrow> 'a list \<Rightarrow> string res" where
  "LexicalCast_from_set L g v = bindR (item_nodes L g v) (\<lambda>ns. Inr (yl_emit L (seq_node ns)))"

text \<open>\<open>order\<close> is the order in which the unordered container happens to be iterated.\<close>

definition LexicalCast_from_unordered_set ::
  "yaml_lib \<Rightarrow> ('a set \<Rightarrow> 'a list) \<Rightarrow> ('a \<Rightarrow> string res) \<Rightarrow> 'a set \<Rightarrow> string res"
where
  "LexicalCast_from_unordered_set L order g v =
    bindR (item_nodes L g (order v)) (\<lambda>ns. Inr (yl_emit L (seq_node ns)))"

definition entry_nodes :: "yaml_lib \<Rightarrow> ('a \<Rightarrow> string res) \<Rightarrow> (string \<times> 'a) list \<Rightarrow> (string \<times> yaml) list res" where
  "entry_nodes L g es = mapR (\<lambda>(k, x). bindR (bindR (g x) (yl_load L)) (\<lambda>n. Inr (k, n))) es"

definition LexicalCast_from_map :: "yaml_lib \<Rightarrow> ('a \<Rightarrow> string res) \<Rightarrow> (string \<times> 'a) list \<Rightarrow> string res" where
  "LexicalCast_from_map L g v = bindR (entry_nodes L g v) (\<lambda>es. Inr (yl_emit L (map_node es)))"

definition LexicalCast_from_unordered_map ::
  "yaml_lib \<Rightarrow> ((string \<rightharpoonup> 'a) \<Rightarrow> (string \<times> 'a) list) \<Rightarrow> ('a \<Rightarrow> string res) \<Rightarrow> (string \<rightharpoonup> 'a) \<Rightarrow> string res"
where
  "LexicalCast_from_unordered_map L order g v =
    bindR (entry_nodes L g (order v)) (\<lambda>es. Inr (yl_emit L (map_node es)))"

section \<open>Round trips\<close>

text \<open>
  A value survives being written and read back as an element: its text is parsed to a node, and
  the text of that node is cast back to the value.
\<close>

definition cast_ok :: "yaml_lib \<Rightarrow> (string \<Rightarrow> 'a res) \<Rightarrow> ('a \<Rightarrow> string res) \<Rightarrow> 'a \<Rightarrow> bool" where
  "cast_ok L f g x \<longleftrightarrow> bindR (g x) (\<lambda>s. bindR (yl_load L s) (\<lambda>n. f (yl_emit L n))) = Inr x"

text \<open>A node that is parsed back as it was emitted.\<close>

definition stable :: "yaml_lib \<Rightarrow> yaml \<Rightarrow> bool" where
  "stable L n \<longleftrightarrow> yl_load L (yl_emit L n) = Inr n"

lemma item_nodes_ok:
  "\<forall>x \<in> set xs. cast_ok L f g x \<Longrightarrow> \<exists>ns. item_nodes L g xs = Inr ns \<and> mapR (\<lambda>n. f (yl_emit L n)) ns = Inr xs"
proof (induction xs)
  case (Cons x xs)
  then obtain ns where ns: "item_nodes L g xs = Inr ns" "mapR (\<lambda>n. f (yl_emit L n)) ns = Inr xs" by auto
  from Cons.prems obtain s n where "g x = Inr s" "yl_load L s = Inr n" "f (yl_emit L n) = Inr x"
    by (auto simp: cast_ok_def)
  with ns show ?case by (auto simp: item_nodes_def)
qed (simp add: item_nodes_def)

lemma mapR_map: "mapR f (map h xs) = mapR (\<lambda>x. f (h x)) xs"
  by (induction xs) simp_all

lemma cast_items_seq: "stable L (seq_node ns) \<Longrightarrow> cast_items L f (yl_emit L (seq_node ns)) = mapR (\<lambda>n. f (yl_emit L n)) ns"
proof -
  assume "stable L (seq_node ns)"
  moreover have "mapR (\<lambda>i. f (yl_emit L (node_at (seq_node ns) i))) [0..<node_size (seq_node ns)] =
    mapR (\<lambda>n. f (yl_emit L n)) (map (node_at (seq_node ns)) [0..<node_size (seq_node ns)])"
    by (simp add: mapR_map)
  moreover have "map (node_at (seq_node ns)) [0..<node_size (seq_node ns)] = ns"
  proof (rule nth_equalityI)
    have size_eq: "node_size (seq_node ns) = length ns" by (cases ns) simp_all
    then show "length (map (node_at (seq_node ns)) [0..<node_size (seq_node ns)]) = length ns" by simp
    fix i assume i: "i < length (map (node_at (seq_node ns)) [0..<node_size (seq_node ns)])"
    then have "node_at (seq_node ns) i = ns ! i" using size_eq by (cases ns) simp_all
    with i show "map (node_at (seq_node ns)) [0..<node_size (seq_node ns)] ! i = ns ! i" by simp
  qed
  ultimately show ?thesis by (simp add: cast_items_def stable_def)
qed

lemma seq_roundtrip:
  assumes "\<forall>x \<in> set xs. cast_ok L f g x" and "\<forall>ns. item_nodes L g xs = Inr ns \<longrightarrow> stable L (seq_node ns)"
  shows "\<exists>ns. item_nodes L g xs = Inr ns \<and> yl_load L (yl_emit L (seq_node ns)) = Inr (seq_node ns) \<and>
    cast_items L f (yl_emit L (seq_node ns)) = Inr xs"
proof -
  obtain ns where ns: "item_nodes L g xs = Inr ns" "mapR (\<lambda>n. f (yl_emit L n)) ns = Inr xs"
    using item_nodes_ok [OF assms(1)] by blast
  with assms(2) show ?thesis by (auto simp: cast_items_seq stable_def)
qed

text \<open>
  C33. Sequences survive the round trip: if every element does, and the emitted sequence is
  parsed back to the nodes it was built from, then a vector, a list, or a set (in its order)
  written to a string is read back unchanged; a vector then also survives as an element, so the
  statement carries over to vectors of vectors.
\<close>
theorem sequence_cast_roundtrip:
  assumes "\<forall>x \<in> set xs. cast_ok L f g x" and "\<forall>ns. item_nodes L g xs = Inr ns \<longrightarrow> stable L (seq_node ns)"
    and "transp lt" and "asymp lt"
  shows "bindR (LexicalCast_from_vector L g xs) (LexicalCast_to_vector L f) = Inr xs \<and>
    bindR (LexicalCast_from_list L g xs) (LexicalCast_to_list L f) = Inr xs \<and>
    (sorted_wrt lt xs \<longrightarrow> bindR (LexicalCast_from_set L g xs) (LexicalCast_to_set L lt f) = Inr xs) \<and>
    cast_ok L (LexicalCast_to_vector L f) (LexicalCast_from_vector L g) xs"
proof -
  obtain ns where ns: "item_nodes L g xs = Inr ns" "yl_load L (yl_emit L (seq_node ns)) = Inr (seq_node ns)"
    "cast_items L f (yl_emit L (seq_node ns)) = Inr xs"
    using seq_roundtrip [OF assms(1,2)] by blast
  have "sorted_wrt lt xs \<Longrightarrow> fold (set_ins lt) xs [] = xs"
    using fold_set_ins [OF assms(3,4), of "[]" xs] by simp
  with ns show ?thesis
    by (simp add: LexicalCast_from_vector_def LexicalCast_to_vector_def LexicalCast_from_list_def
        LexicalCast_to_list_def LexicalCast_from_set_def LexicalCast_to_set_def cast_ok_def)
qed


text \<open>A small instance of the library: plain scalars, flow sequences and maps of two of them.\<close>

fun demo_emit :: "yaml \<Rightarrow> string" where
  "demo_emit Y_Null = ''~''"
| "demo_emit (Y_Scalar s) = s"
| "demo_emit (Y_Seq [Y_Scalar a, Y_Scalar b]) = ''['' @ a @ '', '' @ b @ '']''"
| "demo_emit (Y_Map [(Y_Scalar j, Y_Scalar a), (Y_Scalar k, Y_Scalar b)]) = j @ '': '' @ a @ '', '' @ k @ '': '' @ b"
| "demo_emit _ = ''?''"

definition demo_load :: "string \<Rightarrow> yaml res" where
  "demo_load s =
    (if s = ''[7, 80]'' then Inr (Y_Seq [Y_Scalar ''7'', Y_Scalar ''80''])
     else if s = ''x: 7, y: 80'' then Inr (Y_Map [(Y_Scalar ''x'', Y_Scalar ''7''), (Y_Scalar ''y'', Y_Scalar ''80'')])
     else Inr (Y_Scalar s))"

definition demo_lib :: yaml_lib where
  "demo_lib = \<lparr>yl_load = demo_load, yl_emit = demo_emit, yl_null = Inr ''null''\<rparr>"

theorem sequence_cast_roundtrip_witness:
  "bindR (LexicalCast_from_vector demo_lib Inr [''7'', ''80'']) (LexicalCast_to_vector demo_lib Inr) = Inr [''7'', ''80''] \<and>
    LexicalCast_from_vector demo_lib Inr [''7'', ''80''] = Inr ''[7, 80]''"
proof -
  have "\<forall>x \<in> set [''7'', ''80'']. cast_ok demo_lib Inr Inr x"
    by (simp add: cast_ok_def demo_lib_def demo_load_def)
  moreover have "\<forall>ns. item_nodes demo_lib Inr [''7'', ''80''] = Inr ns \<longrightarrow> stable demo_lib (seq_node ns)"
    by (simp add: item_nodes_def stable_def demo_lib_def demo_load_def)
  ultimately show ?thesis
    using sequence_cast_roundtrip [of "[''7'', ''80'']" demo_lib Inr Inr "\<lambda>_ _. False"]
    by (simp add: LexicalCast_from_vector_def item_nodes_def demo_lib_def demo_load_def transp_def asymp_on_def)
qed

lemma entry_nodes_ok:
  "\<forall>(k, x) \<in> set es. cast_ok L f g x \<Longrightarrow>
    \<exists>ns. entry_nodes L g es = Inr ns \<and>
      mapR (\<lambda>(k, n). bindR (f (yl_emit L n)) (\<lambda>x. Inr (Scalar k, x))) (map (\<lambda>(k, n). (Y_Scalar k, n)) ns) = Inr es"
proof (induction es)
  case (Cons e es)
  then obtain ns where ns: "entry_nodes L g es = Inr ns"
    "mapR (\<lambda>(k, n). bindR (f (yl_emit L n)) (\<lambda>x. Inr (Scalar k, x))) (map (\<lambda>(k, n). (Y_Scalar k, n)) ns) = Inr es" by auto
  obtain k x where e: "e = (k, x)" by force
  with Cons.prems obtain s n where "g x = Inr s" "yl_load L s = Inr n" "f (yl_emit L n) = Inr x"
    by (auto simp: cast_ok_def)
  with ns e show ?case by (auto simp: entry_nodes_def)
qed (simp add: entry_nodes_def)

text \<open>
  Maps survive the round trip under the same conditions: a \<^verbatim>\<open>std::map\<close> from strings,
  written to a string and read back, has the same entries in the same order; an
  \<^verbatim>\<open>unordered_map\<close>, whatever order it is iterated in, has the same entries.
\<close>
theorem map_cast_roundtrip:
  assumes "\<forall>(k, x) \<in> set es. cast_ok L f g x" and "\<forall>ns. entry_nodes L g es = Inr ns \<longrightarrow> stable L (map_node ns)"
    and "sorted_keys es" and "order (map_of es) = es"
  shows "bindR (LexicalCast_from_map L g es) (LexicalCast_to_map L f) = Inr es \<and>
    bindR (LexicalCast_from_unordered_map L order g (map_of es)) (LexicalCast_to_unordered_map L f) = Inr (map_of es)"
proof -
  obtain ns where ns: "entry_nodes L g es = Inr ns"
    "mapR (\<lambda>(k, n). bindR (f (yl_emit L n)) (\<lambda>x. Inr (Scalar k, x))) (map (\<lambda>(k, n). (Y_Scalar k, n)) ns) = Inr es"
    using entry_nodes_ok [OF assms(1)] by blast
  have load: "yl_load L (yl_emit L (map_node ns)) = Inr (map_node ns)" using assms(2) ns(1) by (simp add: stable_def)
  have ents: "node_entries (map_node ns) = Inr (map (\<lambda>(k, n). (Y_Scalar k, n)) ns)" by (cases ns) simp_all
  have read: "cast_entries L f (yl_emit L (map_node ns)) = Inr es"
    using ns(2) by (simp add: cast_entries_def load ents)
  have fold_map: "fold (\<lambda>(k, x) m. if m k = None then m(k \<mapsto> x) else m) xs m = m ++ map_of xs"
    if "distinct (map fst xs)" "dom m \<inter> fst ` set xs = {}" for xs :: "(string \<times> 'a) list" and m
    using that
  proof (induction xs arbitrary: m)
    case (Cons x xs)
    obtain k v where x: "x = (k, v)" by force
    with Cons.prems have "m k = None" "dom (m(k \<mapsto> v)) \<inter> fst ` set xs = {}" by auto
    moreover have "m(k \<mapsto> v) ++ map_of xs = m ++ map_of (x # xs)"
      using Cons.prems x by (simp add: map_add_upd_left dom_map_of_conv_image_fst)
    ultimately show ?case using Cons x map_add_upd [of m "map_of xs" k v] by (simp add: fun_upd_def)
  qed simp
  have "distinct (map fst es)" using assms(3) by (auto simp: sorted_keys_def strict_sorted_iff)
  then have "fold (\<lambda>(k, x) m. if m k = None then m(k \<mapsto> x) else m) es (\<lambda>_. None) = map_of es"
    using fold_map [of es "\<lambda>_. None"] by (simp add: map_add_def fun_eq_iff split: option.splits)
  moreover have "fold (\<lambda>(k, x). map_ins k x) es [] = es" using fold_map_ins [of "[]" es] assms(3) by simp
  ultimately show ?thesis using ns(1) read assms(4)
    by (simp add: LexicalCast_from_map_def LexicalCast_to_map_def LexicalCast_from_unordered_map_def
        LexicalCast_to_unordered_map_def)
qed

theorem map_cast_roundtrip_witness:
  "bindR (LexicalCast_from_map demo_lib Inr [(''x'', ''7''), (''y'', ''80'')]) (LexicalCast_to_map demo_lib Inr) =
    Inr [(''x'', ''7''), (''y'', ''80'')]"
proof -
  let ?es = "[(''x'', ''7''), (''y'', ''80'')]"
  have "\<forall>(k, x) \<in> set ?es. cast_ok demo_lib Inr Inr x"
    by (simp add: cast_ok_def demo_lib_def demo_load_def)
  moreover have "\<forall>ns. entry_nodes demo_lib Inr ?es = Inr ns \<longrightarrow> stable demo_lib (map_node ns)"
    by (simp add: entry_nodes_def stable_def demo_lib_def demo_load_def)
  moreover have "sorted_keys ?es" by simp
  ultimately show ?thesis using map_cast_roundtrip [of ?es demo_lib Inr Inr "\<lambda>_. ?es"] by simp
qed

text \<open>
  Reading a map from a document in which a key occurs twice keeps the entry that comes
  first (\<^verbatim>\<open>insert\<close> does not overwrite), for both kinds of map.
\<close>
theorem map_cast_first_wins:
  assumes "cast_entries L f v = Inr es"
  shows "\<exists>m. LexicalCast_to_map L f v = Inr m \<and> sorted_keys m \<and> map_of m = map_of es \<and>
    LexicalCast_to_unordered_map L f v = Inr (map_of es)"
proof -
  have "sorted_keys (fold (\<lambda>(k, x). map_ins k x) xs m) \<and> map_of (fold (\<lambda>(k, x). map_ins k x) xs m) = map_of xs ++ map_of m"
    if "sorted_keys m" for xs and m :: "(string \<times> 'a) list"
    using that
  proof (induction xs arbitrary: m)
    case (Cons x xs)
    obtain k v where x: "x = (k, v)" by force
    have "map_of xs ++ map_of (map_ins k v m) = map_of (x # xs) ++ map_of m"
      using Cons.prems x by (auto simp: map_of_ins map_add_def fun_eq_iff split: option.splits)
    with Cons.IH [of "map_ins k v m"] Cons.prems x show ?case by (simp add: map_ins_sorted fun_upd_def)
  qed simp
  from this [of "[]" es] have m: "sorted_keys (fold (\<lambda>(k, x). map_ins k x) es [])"
    "map_of (fold (\<lambda>(k, x). map_ins k x) es []) = map_of es" by (simp_all add: map_add_def)
  have "fold (\<lambda>(k, x) m. if m k = None then m(k \<mapsto> x) else m) xs m = map_of xs ++ m" for xs and m :: "string \<rightharpoonup> 'a"
  proof (induction xs arbitrary: m)
    case (Cons x xs)
    obtain k v where x: "x = (k, v)" by force
    have "map_of xs ++ (if m k = None then m(k \<mapsto> v) else m) = map_of (x # xs) ++ m"
      using x by (auto simp: map_add_def fun_eq_iff split: option.splits)
    with Cons x show ?case by (simp add: fun_upd_def)
  qed simp
  from this [of es "\<lambda>_. None"] show ?thesis using assms m
    by (simp add: LexicalCast_to_map_def LexicalCast_to_unordered_map_def map_add_def)
qed


theorem map_cast_first_wins_witness:
  "\<exists>m. LexicalCast_to_map (demo_lib\<lparr>yl_load := \<lambda>_. Inr (Y_Map [(Y_Scalar ''x'', Y_Scalar ''7''), (Y_Scalar ''x'', Y_Scalar ''80'')])\<rparr>)
    Inr ''x: 7, x: 80'' = Inr m \<and> map_of m ''x'' = Some ''7''"
proof -
  have "cast_entries (demo_lib\<lparr>yl_load := \<lambda>_. Inr (Y_Map [(Y_Scalar ''x'', Y_Scalar ''7''), (Y_Scalar ''x'', Y_Scalar ''80'')])\<rparr>)
    Inr ''x: 7, x: 80'' = Inr [(''x'', ''7''), (''x'', ''80'')]"
    by (simp add: cast_entries_def demo_lib_def)
  from map_cast_first_wins [OF this] show ?thesis by auto
qed

end
