(* ===== verification/Config.thy ===== *)
theory Config
  imports Config_Cast
begin

text \<open>
  \<^verbatim>\<open>ConfigVar\<close> and \<^verbatim>\<open>Config\<close> of \<^verbatim>\<open>vity/config.h\<close>, \<^verbatim>\<open>vity/config.cc\<close>: one
  configuration variable with its conversions and change listeners, the registry of all variables,
  the two \<^verbatim>\<open>Lookup\<close>s, and the loading of a YAML tree. The values of all types live in one
  type \<open>'v\<close>; what a template instance knows about its type (its name, the casts, the equality)
  is the record \<open>config_type\<close>. Listeners act on the rest of the program, a state \<open>'w\<close>.
\<close>

section \<open>A configuration variable\<close>

record 'v config_type =
  ct_name :: string
  ct_fromStr :: "string \<Rightarrow> 'v res"
  ct_toStr :: "'v \<Rightarrow> string res"
  ct_eq :: "'v \<Rightarrow> 'v \<Rightarrow> bool"

text \<open>A listener may throw; what it did before that stays done.\<close>

type_synonym ('v, 'w) listener = "'v \<Rightarrow> 'v \<Rightarrow> 'w \<Rightarrow> fault option \<times> 'w"

record ('v, 'w) config_var =
  cv_name :: string
  cv_description :: string
  cv_type :: "'v config_type"
  cv_val :: 'v
  cv_cbs :: "(64 word \<times> ('v, 'w) listener) list"

text \<open>The base class keeps the name in lower case.\<close>

definition ConfigVarBase_new :: "string \<Rightarrow> string \<Rightarrow> string \<times> string" where
  [simp]: "ConfigVarBase_new name description = (map tolower name, description)"

definition ConfigVar_new :: "'v config_type \<Rightarrow> string \<Rightarrow> 'v \<Rightarrow> string \<Rightarrow> ('v, 'w) config_var" where
  "ConfigVar_new T name default_val description =
    (case ConfigVarBase_new name description of (m_name, m_description) \<Rightarrow>
       \<lparr>cv_name = m_name, cv_description = m_description, cv_type = T, cv_val = default_val, cv_cbs = []\<rparr>)"

text \<open>Both conversions catch what derives from \<^verbatim>\<open>std::exception\<close>, and only that.\<close>

definition ConfigVar_toString :: "('v, 'w) config_var \<Rightarrow> string res" where
  "ConfigVar_toString x =
    (case ct_toStr (cv_type x) (cv_val x) of
       Inr s \<Rightarrow> Inr s
     | Inl (Thrown (Std_exception e)) \<Rightarrow> Inr ''''
     | Inl e \<Rightarrow> Inl e)"

fun notify_all :: "('v, 'w) listener list \<Rightarrow> 'v \<Rightarrow> 'v \<Rightarrow> 'w \<Rightarrow> fault option \<times> 'w" where
  "notify_all [] old new w = (None, w)"
| "notify_all (f # fs) old new w =
     (case f old new w of (Some e, w') \<Rightarrow> (Some e, w') | (None, w') \<Rightarrow> notify_all fs old new w')"

definition ConfigVar_setValue ::
  "'v \<Rightarrow> 'w \<times> ('v, 'w) config_var \<Rightarrow> fault option \<times> 'w \<times> ('v, 'w) config_var"
where
  "ConfigVar_setValue v = (\<lambda>(w, x).
    if ct_eq (cv_type x) v (cv_val x) then (None, w, x)
    else
      (case notify_all (map snd (cv_cbs x)) (cv_val x) v w of
         (Some e, w') \<Rightarrow> (Some e, w', x)
       | (None, w') \<Rightarrow> (None, w', x\<lparr>cv_val := v\<rparr>)))"

definition ConfigVar_getValue :: "('v, 'w) config_var \<Rightarrow> 'v" where
  "ConfigVar_getValue x = cv_val x"

text \<open>The result is the value returned, or what was thrown past the handler.\<close>

definition ConfigVar_fromString ::
  "string \<Rightarrow> 'w \<times> ('v, 'w) config_var \<Rightarrow> bool res \<times> 'w \<times> ('v, 'w) config_var"
where
  "ConfigVar_fromString s = (\<lambda>(w, x).
    (case ct_fromStr (cv_type x) s of
       Inl (Thrown (Std_exception e)) \<Rightarrow> (Inr False, w, x)
     | Inl e \<Rightarrow> (Inl e, w, x)
     | Inr v \<Rightarrow>
         (case ConfigVar_setValue v (w, x) of
            (Some (Thrown (Std_exception e)), w', x') \<Rightarrow> (Inr False, w', x')
          | (Some e, w', x') \<Rightarrow> (Inl e, w', x')
          | (None, w', x') \<Rightarrow> (Inr False, w', x'))))"

text \<open>\<open>s_fun_id\<close> is the static counter, one for all variables of a type.\<close>

definition ConfigVar_addListener ::
  "('v, 'w) listener \<Rightarrow> 64 word \<Rightarrow> ('v, 'w) config_var \<Rightarrow> 64 word \<times> 64 word \<times> ('v, 'w) config_var"
where
  "ConfigVar_addListener cb s_fun_id x =
    (s_fun_id + 1, s_fun_id + 1, x\<lparr>cv_cbs := map_put (s_fun_id + 1) cb (cv_cbs x)\<rparr>)"

definition ConfigVar_delListener :: "64 word \<Rightarrow> ('v, 'w) config_var \<Rightarrow> ('v, 'w) config_var" where
  "ConfigVar_delListener key x = x\<lparr>cv_cbs := map_erase key (cv_cbs x)\<rparr>"

definition ConfigVar_getListener :: "64 word \<Rightarrow> ('v, 'w) config_var \<Rightarrow> ('v, 'w) listener option" where
  "ConfigVar_getListener key x = map_of (cv_cbs x) key"

definition ConfigVar_clearListener :: "('v, 'w) config_var \<Rightarrow> ('v, 'w) config_var" where
  "ConfigVar_clearListener x = x\<lparr>cv_cbs := []\<rparr>"

section \<open>The registry\<close>

text \<open>
  \<open>vars\<close> are the variables by address, \<open>datas\<close> the map from names to pointers. A variable is
  of type \<open>T\<close> if the names of the types agree, which is what \<^verbatim>\<open>dynamic_pointer_cast\<close> decides.
\<close>

record ('v, 'w) config =
  datas :: "(string \<times> nat) list"
  vars :: "('v, 'w) config_var list"

definition config_name_chars :: string where
  "config_name_chars = ''abcdefghijklmnopqrstuvwxyz._0123456789''"

definition valid_name :: "string \<Rightarrow> bool" where
  "valid_name name \<longleftrightarrow> find_first_not_of name config_name_chars = None"

definition has_type :: "'v config_type \<Rightarrow> ('v, 'w) config_var \<Rightarrow> bool" where
  "has_type T x \<longleftrightarrow> ct_name (cv_type x) = ct_name T"

text \<open>
  The first \<^verbatim>\<open>Lookup\<close>. On a mismatch of types the message in the log contains the value as
  text, so that what \<^verbatim>\<open>toString\<close> lets through is thrown here.
\<close>

definition Lookup ::
  "'v config_type \<Rightarrow> string \<Rightarrow> 'v \<Rightarrow> string \<Rightarrow> ('v, 'w) config \<Rightarrow> (nat option \<times> ('v, 'w) config) res"
where
  "Lookup T name default_value description c =
    (case map_of (datas c) name of
       Some a \<Rightarrow>
         if has_type T (vars c ! a) then Inr (Some a, c)
         else bindR (ConfigVar_toString (vars c ! a)) (\<lambda>_. Inr (None, c))
     | None \<Rightarrow>
         if \<not> valid_name name then Inl (Thrown (Std_exception name))
         else
           (let a = length (vars c) in
            Inr (Some a, c\<lparr>datas := map_put name a (datas c),
                           vars := vars c @ [ConfigVar_new T name default_value description]\<rparr>)))"

definition Lookup_existing :: "'v config_type \<Rightarrow> string \<Rightarrow> ('v, 'w) config \<Rightarrow> nat option" where
  "Lookup_existing T name c =
    (case map_of (datas c) name of
       Some a \<Rightarrow> if has_type T (vars c ! a) then Some a else None
     | None \<Rightarrow> None)"

definition LookupBase :: "string \<Rightarrow> ('v, 'w) config \<Rightarrow> nat option" where
  "LookupBase name c = map_of (datas c) name"

definition Config_Visit :: "(('v, 'w) config_var \<Rightarrow> 's \<Rightarrow> 's) \<Rightarrow> ('v, 'w) config \<Rightarrow> 's \<Rightarrow> 's" where
  "Config_Visit cb c s = fold (\<lambda>(name, a). cb (vars c ! a)) (datas c) s"

section \<open>Loading a YAML tree\<close>

definition join_name :: "string \<Rightarrow> string \<Rightarrow> string" where
  "join_name prefix key = (if prefix = [] then key else prefix @ ''.'' @ key)"

text \<open>\<^verbatim>\<open>ListAllMember\<close>, with what it appends to \<^verbatim>\<open>output\<close> as the result.\<close>

function ListAllMember :: "string \<Rightarrow> yaml \<Rightarrow> (string \<times> yaml) list" where
  "ListAllMember prefix node =
    (if \<not> valid_name prefix then []
     else (prefix, node) #
       (case node of
          Y_Map es \<Rightarrow> concat (map (\<lambda>(k, n). ListAllMember (join_name prefix (Scalar k)) n) es)
        | _ \<Rightarrow> []))"
  by pat_completeness auto

termination
proof (relation "measure (\<lambda>(prefix, node). size node)")
  fix prefix :: string and node es and e :: "yaml \<times> yaml" and k n
  assume "node = Y_Map es" "e \<in> set es" "(k, n) = e"
  then have "size n < size_prod size size e" by auto
  also have "size_prod size size e \<le> size_list (size_prod size size) es"
    using \<open>e \<in> set es\<close> by (rule size_list_estimation') simp
  finally show "((join_name prefix (Scalar k), n), prefix, node) \<in> measure (\<lambda>(prefix, node). size node)"
    using \<open>node = Y_Map es\<close> by simp
qed simp

declare ListAllMember.simps [simp del]

text \<open>
  One round of the loop of \<^verbatim>\<open>LoadFromYaml\<close>: only what \<^verbatim>\<open>fromString\<close> lets through ends
  the loop.
\<close>

definition load_member ::
  "yaml_lib \<Rightarrow> string \<times> yaml \<Rightarrow> 'w \<times> ('v, 'w) config \<Rightarrow> fault option \<times> 'w \<times> ('v, 'w) config"
where
  "load_member L i = (\<lambda>(w, c).
    if fst i = [] then (None, w, c)
    else
      (case LookupBase (map tolower (fst i)) c of
         None \<Rightarrow> (None, w, c)
       | Some a \<Rightarrow>
           (case ConfigVar_fromString (if IsScalar (snd i) then Scalar (snd i) else yl_emit L (snd i)) (w, vars c ! a) of
              (Inl e, w', x) \<Rightarrow> (Some e, w', c\<lparr>vars := (vars c)[a := x]\<rparr>)
            | (Inr b, w', x) \<Rightarrow> (None, w', c\<lparr>vars := (vars c)[a := x]\<rparr>))))"

fun load_members ::
  "yaml_lib \<Rightarrow> (string \<times> yaml) list \<Rightarrow> 'w \<times> ('v, 'w) config \<Rightarrow> fault option \<times> 'w \<times> ('v, 'w) config"
where
  "load_members L [] s = (None, s)"
| "load_members L (i # is) s =
     (case load_member L i s of (Some e, s') \<Rightarrow> (Some e, s') | (None, s') \<Rightarrow> load_members L is s')"

definition LoadFromYaml ::
  "yaml_lib \<Rightarrow> yaml \<Rightarrow> 'w \<times> ('v, 'w) config \<Rightarrow> fault option \<times> 'w \<times> ('v, 'w) config"
where
  "LoadFromYaml L root s = load_members L (ListAllMember '''' root) s"

section \<open>What a document names\<close>

text \<open>
  A node is named by the keys on the way to it, joined by dots, as long as every name on the way
  is valid.
\<close>

inductive named :: "yaml \<Rightarrow> string \<Rightarrow> string \<Rightarrow> yaml \<Rightarrow> bool" for root prefix where
  named_root: "valid_name prefix \<Longrightarrow> named root prefix prefix root"
| named_child: "named root prefix p (Y_Map es) \<Longrightarrow> (k, n) \<in> set es \<Longrightarrow> valid_name (join_name p (Scalar k)) \<Longrightarrow>
    named root prefix (join_name p (Scalar k)) n"

lemma ListAllMember_simps:
  "\<not> valid_name prefix \<Longrightarrow> ListAllMember prefix node = []"
  "valid_name prefix \<Longrightarrow> ListAllMember prefix (Y_Map es) =
     (prefix, Y_Map es) # concat (map (\<lambda>(k, n). ListAllMember (join_name prefix (Scalar k)) n) es)"
  "valid_name prefix \<Longrightarrow> (\<And>es. node \<noteq> Y_Map es) \<Longrightarrow> ListAllMember prefix node = [(prefix, node)]"
  by (subst ListAllMember.simps; auto split: yaml.splits)+

lemma named_trans:
  assumes "named m q p n" and "named root prefix q m"
  shows "named root prefix p n"
  using assms by (induction rule: named.induct) (auto intro: named_child)

lemma ListAllMember_sound: "(p, n) \<in> set (ListAllMember prefix root) \<Longrightarrow> named root prefix p n"
proof (induction prefix root arbitrary: p n rule: ListAllMember.induct)
  case (1 prefix root)
  have valid: "valid_name prefix" using 1(2) by (cases "valid_name prefix") (simp_all add: ListAllMember_simps)
  have top: "named root prefix prefix root" using valid by (rule named_root)
  show ?case
  proof (cases root)
    case (Y_Map es)
    with 1(2) valid consider "(p, n) = (prefix, root)"
      | k m where "(k, m) \<in> set es" "(p, n) \<in> set (ListAllMember (join_name prefix (Scalar k)) m)"
      by (auto simp: ListAllMember_simps)
    then show ?thesis
    proof cases
      case 1
      with top show ?thesis by simp
    next
      case (2 k m)
      have sub: "named m (join_name prefix (Scalar k)) p n" using 1(1) valid Y_Map 2 by blast
      have "valid_name (join_name prefix (Scalar k))"
        using 2(2) by (cases "valid_name (join_name prefix (Scalar k))") (simp_all add: ListAllMember_simps)
      with top 2(1) Y_Map have "named root prefix (join_name prefix (Scalar k)) m" by (auto intro: named_child)
      with sub show ?thesis by (rule named_trans)
    qed
  qed (use 1(2) valid top in \<open>simp_all add: ListAllMember_simps\<close>)
qed

lemma ListAllMember_child:
  "(q, Y_Map es) \<in> set (ListAllMember prefix root) \<Longrightarrow> (k, n) \<in> set es \<Longrightarrow>
     valid_name (join_name q (Scalar k)) \<Longrightarrow> (join_name q (Scalar k), n) \<in> set (ListAllMember prefix root)"
proof (induction prefix root rule: ListAllMember.induct)
  case (1 prefix root)
  have valid: "valid_name prefix" using 1(2) by (cases "valid_name prefix") (simp_all add: ListAllMember_simps)
  show ?case
  proof (cases root)
    case (Y_Map es')
    have self: "(join_name q (Scalar k), n) \<in> set (ListAllMember (join_name q (Scalar k)) n)"
      using 1(4) by (subst ListAllMember.simps) simp
    from 1(2) valid Y_Map consider "q = prefix" "es' = es"
      | k' m where "(k', m) \<in> set es'" "(q, Y_Map es) \<in> set (ListAllMember (join_name prefix (Scalar k')) m)"
      by (auto simp: ListAllMember_simps)
    then show ?thesis
    proof cases
      case 1
      with self \<open>(k, n) \<in> set es\<close> valid Y_Map show ?thesis by (force simp: ListAllMember_simps)
    next
      case (2 k' m)
      have "(join_name q (Scalar k), n) \<in> set (ListAllMember (join_name prefix (Scalar k')) m)"
        using 1(1) valid Y_Map 2 1(3,4) by blast
      with 2(1) valid Y_Map show ?thesis by (force simp: ListAllMember_simps)
    qed
  qed (use 1(2) valid in \<open>simp_all add: ListAllMember_simps\<close>)
qed

text \<open>
  C23. \<^verbatim>\<open>ListAllMember\<close> terminates on every tree and lists exactly the nodes a document
  names: those reached over keys whose joined names are all valid. Below a key with another
  character (an upper-case letter, a dash) nothing is listed, whatever the names there.
\<close>
theorem ListAllMember_exact: "(p, n) \<in> set (ListAllMember prefix root) \<longleftrightarrow> named root prefix p n"
proof
  show "named root prefix p n \<Longrightarrow> (p, n) \<in> set (ListAllMember prefix root)"
  proof (induction rule: named.induct)
    case named_root
    then show ?case by (subst ListAllMember.simps) simp
  qed (rule ListAllMember_child)
qed (rule ListAllMember_sound)

section \<open>Changing a variable\<close>

lemma setValue_frame:
  "ConfigVar_setValue v (w, x) = (e, w', x') \<Longrightarrow>
     cv_name x' = cv_name x \<and> cv_type x' = cv_type x \<and> cv_cbs x' = cv_cbs x"
  by (auto simp: ConfigVar_setValue_def split: if_splits prod.splits option.splits)

lemma fromString_frame:
  "ConfigVar_fromString s (w, x) = (r, w', x') \<Longrightarrow>
     cv_name x' = cv_name x \<and> cv_type x' = cv_type x \<and> cv_cbs x' = cv_cbs x"
  by (auto simp: ConfigVar_fromString_def dest: setValue_frame
      split: sum.splits fault.splits exn.splits prod.splits option.splits)

text \<open>A listener that records its call and, for some values, throws afterwards.\<close>

definition recorder :: "nat \<Rightarrow> ('v \<Rightarrow> bool) \<Rightarrow> ('v, (nat \<times> 'v \<times> 'v) list) listener" where
  "recorder i bad old new w =
    (if bad new then Some (Thrown (Std_exception ''listener'')) else None, w @ [(i, old, new)])"

text \<open>
  \<^verbatim>\<open>fromString\<close> never returns true. Whatever happens, the text was converted and stored,
  or was equal, or could not be converted, or a listener threw, the result is false or an exception
  outside the standard hierarchy; and the value is the old one or the converted one.
\<close>
theorem fromString_never_true:
  "case ConfigVar_fromString s (w, x) of (r, w', x') \<Rightarrow> r \<noteq> Inr True \<and>
    (cv_val x' = cv_val x \<or> ct_fromStr (cv_type x) s = Inr (cv_val x'))"
  by (auto simp: ConfigVar_fromString_def ConfigVar_setValue_def
      split: sum.splits fault.splits exn.splits prod.splits option.splits if_splits)

section \<open>Runs of the registry\<close>

text \<open>The registry with the counters of the listener ids, by type name, and the outside.\<close>

record ('v, 'w) cfg_state =
  cs_ids :: "string \<Rightarrow> 64 word"
  cs_world :: 'w
  cs_cfg :: "('v, 'w) config"

datatype ('v, 'w) cfg_op =
    G_Lookup "'v config_type" string 'v string
  | G_Set nat 'v
  | G_From nat string
  | G_Load yaml_lib yaml
  | G_Add nat "('v, 'w) listener"
  | G_Del nat "64 word"
  | G_Clear nat

definition set_var :: "nat \<Rightarrow> ('v, 'w) config_var \<Rightarrow> ('v, 'w) config \<Rightarrow> ('v, 'w) config" where
  "set_var a x c = c\<lparr>vars := (vars c)[a := x]\<rparr>"

text \<open>What an operation leaves behind, also when it throws.\<close>

fun cfg_do :: "('v, 'w) cfg_op \<Rightarrow> ('v, 'w) cfg_state \<Rightarrow> ('v, 'w) cfg_state" where
  "cfg_do (G_Lookup T name def desc) s =
     (case Lookup T name def desc (cs_cfg s) of Inl e \<Rightarrow> s | Inr (r, c) \<Rightarrow> s\<lparr>cs_cfg := c\<rparr>)"
| "cfg_do (G_Set a v) s =
     (case ConfigVar_setValue v (cs_world s, vars (cs_cfg s) ! a) of
        (e, w, x) \<Rightarrow> s\<lparr>cs_world := w, cs_cfg := set_var a x (cs_cfg s)\<rparr>)"
| "cfg_do (G_From a t) s =
     (case ConfigVar_fromString t (cs_world s, vars (cs_cfg s) ! a) of
        (r, w, x) \<Rightarrow> s\<lparr>cs_world := w, cs_cfg := set_var a x (cs_cfg s)\<rparr>)"
| "cfg_do (G_Load L root) s =
     (case LoadFromYaml L root (cs_world s, cs_cfg s) of (e, w, c) \<Rightarrow> s\<lparr>cs_world := w, cs_cfg := c\<rparr>)"
| "cfg_do (G_Add a cb) s =
     (let x = vars (cs_cfg s) ! a; T = ct_name (cv_type x) in
      case ConfigVar_addListener cb (cs_ids s T) x of
        (r, n, x') \<Rightarrow> s\<lparr>cs_ids := (cs_ids s)(T := n), cs_cfg := set_var a x' (cs_cfg s)\<rparr>)"
| "cfg_do (G_Del a key) s = s\<lparr>cs_cfg := set_var a (ConfigVar_delListener key (vars (cs_cfg s) ! a)) (cs_cfg s)\<rparr>"
| "cfg_do (G_Clear a) s = s\<lparr>cs_cfg := set_var a (ConfigVar_clearListener (vars (cs_cfg s) ! a)) (cs_cfg s)\<rparr>"

text \<open>Pointers to variables come from a lookup; the id counters do not run over.\<close>

fun cfg_allowed :: "('v, 'w) cfg_op \<Rightarrow> ('v, 'w) cfg_state \<Rightarrow> bool" where
  "cfg_allowed (G_Set a v) s = (a < length (vars (cs_cfg s)))"
| "cfg_allowed (G_From a t) s = (a < length (vars (cs_cfg s)))"
| "cfg_allowed (G_Add a cb) s =
     (a < length (vars (cs_cfg s)) \<and> cs_ids s (ct_name (cv_type (vars (cs_cfg s) ! a))) \<noteq> - 1)"
| "cfg_allowed (G_Del a key) s = (a < length (vars (cs_cfg s)))"
| "cfg_allowed (G_Clear a) s = (a < length (vars (cs_cfg s)))"
| "cfg_allowed op s = True"

definition cfg_empty :: "'w \<Rightarrow> ('v, 'w) cfg_state" where
  "cfg_empty w = \<lparr>cs_ids = (\<lambda>_. 0), cs_world = w, cs_cfg = \<lparr>datas = [], vars = []\<rparr>\<rparr>"

inductive cfg_run :: "'w \<Rightarrow> ('v, 'w) cfg_state \<Rightarrow> bool" for w where
  cfg_start: "cfg_run w (cfg_empty w)"
| cfg_step: "cfg_run w s \<Longrightarrow> cfg_allowed op s \<Longrightarrow> cfg_run w (cfg_do op s)"

text \<open>The registry maps distinct valid names to distinct variables of that name.\<close>

definition reg_ok :: "('v, 'w) config \<Rightarrow> bool" where
  "reg_ok c \<longleftrightarrow> sorted_keys (datas c) \<and>
     (\<forall>name a. map_of (datas c) name = Some a \<longrightarrow> a < length (vars c) \<and> cv_name (vars c ! a) = name \<and> valid_name name)"

lemma valid_name_lower: "valid_name name \<Longrightarrow> map tolower name = name"
proof -
  assume "valid_name name"
  then have sub: "set name \<subseteq> set config_name_chars" by (simp add: valid_name_def find_first_not_of_None)
  have "\<forall>c \<in> set config_name_chars. c \<notin> set alphabet_upper"
    by (simp add: config_name_chars_def alphabet_upper_def)
  with sub have "\<forall>c \<in> set name. tolower c = c" by (auto intro: tolower_not_upper)
  then show ?thesis by (induction name) auto
qed

lemma reg_ok_Lookup [keeps]:
  assumes ok: "reg_ok c" and step: "Lookup T name def desc c = Inr (r, c')"
  shows "reg_ok c'"
proof (cases "map_of (datas c) name")
  case None
  with step have valid: "valid_name name"
    and c': "c' = c\<lparr>datas := map_put name (length (vars c)) (datas c), vars := vars c @ [ConfigVar_new T name def desc]\<rparr>"
    by (auto simp: Lookup_def Let_def split: if_splits)
  have "sorted_keys (datas c)" using ok by (simp add: reg_ok_def)
  note find = std_map.find_put [OF this] and sorted = std_map.ok_put [OF this]
  show ?thesis
    using ok valid by (auto simp: reg_ok_def c' find sorted nth_append ConfigVar_new_def valid_name_lower less_SucI split: if_splits)
next
  case (Some a)
  with step ok show ?thesis by (auto simp: Lookup_def split: if_splits)
qed

lemma reg_ok_set_var [keeps]: "reg_ok c \<Longrightarrow> cv_name x = cv_name (vars c ! a) \<Longrightarrow> reg_ok (set_var a x c)"
  by (cases "a < length (vars c)") (auto simp: reg_ok_def set_var_def nth_list_update list_update_beyond linorder_not_less)

lemma load_member_set_var:
  assumes "load_member L i (w, c) = (e, w', c')"
  shows "c' = c \<or> (\<exists>a x. LookupBase (map tolower (fst i)) c = Some a \<and> c' = set_var a x c \<and>
    cv_name x = cv_name (vars c ! a) \<and> cv_type x = cv_type (vars c ! a) \<and> cv_cbs x = cv_cbs (vars c ! a))"
  using assms by (auto simp: load_member_def set_var_def dest!: fromString_frame split: if_splits option.splits prod.splits sum.splits)

lemma load_members_invariant:
  assumes "load_members L is (w, c) = (e, w', c')" and "I c"
    and "\<And>c a x. I c \<Longrightarrow> cv_name x = cv_name (vars c ! a) \<Longrightarrow> cv_type x = cv_type (vars c ! a) \<Longrightarrow>
      cv_cbs x = cv_cbs (vars c ! a) \<Longrightarrow> I (set_var a x c)"
  shows "I c'"
  using assms(1,2)
proof (induction "is" arbitrary: w c)
  case (Cons i "is")
  obtain e1 w1 c1 where step: "load_member L i (w, c) = (e1, w1, c1)" by (metis prod_cases3)
  with load_member_set_var [OF step] Cons.prems(2) assms(3) have "I c1" by blast
  with Cons step show ?case by (auto split: option.splits)
qed simp

lemma reg_ok_do [keeps]: "reg_ok (cs_cfg s) \<Longrightarrow> reg_ok (cs_cfg (cfg_do op s))"
proof (cases op)
  case (G_Load L root)
  assume ok: "reg_ok (cs_cfg s)"
  obtain e w c where l: "LoadFromYaml L root (cs_world s, cs_cfg s) = (e, w, c)" by (metis prod_cases3)
  then have "reg_ok c" using ok reg_ok_set_var by (auto simp: LoadFromYaml_def intro: load_members_invariant)
  with G_Load l show ?thesis by simp
qed (auto simp: ConfigVar_addListener_def ConfigVar_delListener_def ConfigVar_clearListener_def Let_def
    dest!: setValue_frame fromString_frame intro: reg_ok_Lookup reg_ok_set_var split: sum.splits prod.splits)

lemma cfg_run_reg_ok: "cfg_run w s \<Longrightarrow> reg_ok (cs_cfg s)"
proof (induction rule: cfg_run.induct)
  case cfg_start
  then show ?case by (simp add: cfg_empty_def reg_ok_def)
qed (rule reg_ok_do)

text \<open>
  C19. The registry is a map from valid names to variables that never moves: after any sequence
  of lookups, assignments, loads and listener changes, a name that was found once is found for ever
  at the same pointer, the variable there bears exactly that name, which is valid, no two names
  share a variable, and a further \<^verbatim>\<open>Lookup\<close> with the same type returns the same pointer and
  changes nothing (its default is ignored).
\<close>
theorem registry_sound:
  assumes "cfg_run w s" and "LookupBase name (cs_cfg s) = Some a"
  shows "a < length (vars (cs_cfg s)) \<and> cv_name (vars (cs_cfg s) ! a) = name \<and> valid_name name \<and>
    (\<forall>n. LookupBase n (cs_cfg s) = Some a \<longrightarrow> n = name) \<and>
    LookupBase name (cs_cfg (cfg_do op s)) = Some a \<and>
    (has_type T (vars (cs_cfg s) ! a) \<longrightarrow> Lookup T name def desc (cs_cfg s) = Inr (Some a, cs_cfg s))"
proof -
  have ok: "reg_ok (cs_cfg s)" using assms(1) by (rule cfg_run_reg_ok)
  have same: "datas (set_var i x c) = datas c" for i x and c :: "('b, 'a) config" by (simp add: set_var_def)
  have "map_of (datas (cs_cfg (cfg_do op s))) name = Some a"
  proof (cases op)
    case (G_Lookup T' name' def' desc')
    have "sorted_keys (datas (cs_cfg s))" using ok by (simp add: reg_ok_def)
    note find = std_map.find_put [OF this]
    show ?thesis using G_Lookup assms(2)
      by (auto simp: Lookup_def LookupBase_def find Let_def split: sum.splits option.splits if_splits)
  next
    case (G_Load L root)
    obtain e w' c where l: "LoadFromYaml L root (cs_world s, cs_cfg s) = (e, w', c)" by (metis prod_cases3)
    have "datas c = datas (cs_cfg s)"
      using load_members_invariant [OF l [unfolded LoadFromYaml_def], of "\<lambda>c. datas c = datas (cs_cfg s)"] by (simp add: same)
    with G_Load l assms(2) show ?thesis by (simp add: LookupBase_def)
  qed (use assms(2) in \<open>auto simp: LookupBase_def same Let_def split: prod.splits\<close>)
  with ok assms(2) show ?thesis by (auto simp: reg_ok_def LookupBase_def Lookup_def)
qed

text \<open>
  The four outcomes of \<^verbatim>\<open>Lookup\<close>. A registered name with the type asked for gives the
  existing variable; with another type, null; a new valid name creates a variable of that name
  holding the default, which is then found, and disturbs no other name; a new name with any other
  character throws \<^verbatim>\<open>invalid_argument\<close>.
\<close>
theorem Lookup_outcomes:
  assumes "cfg_run w s" and "LookupBase name (cs_cfg s) = None"
  shows "if valid_name name then
      (\<exists>c a. Lookup T name def desc (cs_cfg s) = Inr (Some a, c) \<and> LookupBase name c = Some a \<and>
        vars c ! a = \<lparr>cv_name = name, cv_description = desc, cv_type = T, cv_val = def, cv_cbs = []\<rparr> \<and>
        Lookup_existing T name c = Some a \<and>
        (\<forall>n. n \<noteq> name \<longrightarrow> LookupBase n c = LookupBase n (cs_cfg s)) \<and>
        (\<forall>i < length (vars (cs_cfg s)). vars c ! i = vars (cs_cfg s) ! i) \<and>
        (\<forall>T'. ct_name T' \<noteq> ct_name T \<longrightarrow> Lookup_existing T' name c = None))
    else Lookup T name def desc (cs_cfg s) = Inl (Thrown (Std_exception name))"
proof -
  have ok: "reg_ok (cs_cfg s)" using assms(1) by (rule cfg_run_reg_ok)
  then have "sorted_keys (datas (cs_cfg s))" by (simp add: reg_ok_def)
  note find = std_map.find_put [OF this] std_map.put_other [OF this]
  show ?thesis
    using assms(2)
    by (auto simp: Lookup_def LookupBase_def Lookup_existing_def find has_type_def ConfigVar_new_def
        valid_name_lower nth_append Let_def)
qed

text \<open>A small program: two variables of text, one with a listener.\<close>

definition text_type :: "string config_type" where
  "text_type = \<lparr>ct_name = ''string'', ct_fromStr = Inr, ct_toStr = Inr, ct_eq = (=)\<rparr>"

definition demo_cfg :: "(string, (nat \<times> string \<times> string) list) cfg_state" where
  "demo_cfg = cfg_do (G_Lookup text_type ''system.port'' ''8080'' ''port'') (cfg_empty [])"

lemma demo_cfg_run: "cfg_run [] demo_cfg"
  unfolding demo_cfg_def by (intro cfg_step cfg_start) simp

lemma demo_cfg_eq: "demo_cfg = \<lparr>cs_ids = (\<lambda>_. 0), cs_world = [],
  cs_cfg = \<lparr>datas = [(''system.port'', 0)],
    vars = [\<lparr>cv_name = ''system.port'', cv_description = ''port'', cv_type = text_type, cv_val = ''8080'', cv_cbs = []\<rparr>]\<rparr>\<rparr>"
proof -
  have "valid_name ''system.port''" by (simp add: valid_name_def config_name_chars_def)
  then show ?thesis
    using valid_name_lower [of "''system.port''"]
    by (simp add: demo_cfg_def cfg_empty_def Lookup_def ConfigVar_new_def Let_def)
qed

theorem registry_sound_witness:
  "valid_name ''system.port'' \<and> LookupBase ''system.port'' (cs_cfg (cfg_do (G_Set 0 ''80'') demo_cfg)) = Some 0"
proof -
  have "LookupBase ''system.port'' (cs_cfg demo_cfg) = Some 0" by (simp add: demo_cfg_eq LookupBase_def)
  from registry_sound [OF demo_cfg_run this, of "G_Set 0 ''80''"] show ?thesis by blast
qed

theorem Lookup_outcomes_witness:
  "Lookup text_type ''System'' ''x'' ''d'' (cs_cfg demo_cfg) = Inl (Thrown (Std_exception ''System''))"
proof -
  have "LookupBase ''System'' (cs_cfg demo_cfg) = None" by (simp add: demo_cfg_eq LookupBase_def)
  from Lookup_outcomes [OF demo_cfg_run this, of text_type "''x''" "''d''"]
  show ?thesis by (simp add: valid_name_def config_name_chars_def)
qed

section \<open>What loading does to a variable\<close>

text \<open>The texts a document assigns to a name, in document order.\<close>

definition texts :: "yaml_lib \<Rightarrow> string \<Rightarrow> yaml \<Rightarrow> string list" where
  "texts L name root =
    map (\<lambda>(p, n). if IsScalar n then Scalar n else yl_emit L n) (filter (\<lambda>(p, n). p = name) (ListAllMember '''' root))"

text \<open>One assignment that no listener objects to, and a listener that throws nothing the caller would swallow.\<close>

definition assign :: "'v config_type \<Rightarrow> string \<Rightarrow> 'v \<Rightarrow> 'v" where
  "assign T t v = (case ct_fromStr T t of Inr u \<Rightarrow> if ct_eq T u v then v else u | Inl e \<Rightarrow> v)"

definition willing :: "('v, 'w) listener \<Rightarrow> bool" where
  "willing f \<longleftrightarrow> (\<forall>old new w e. fst (f old new w) \<noteq> Some (Thrown (Std_exception e)))"

lemma notify_all_willing:
  "\<forall>f \<in> set fs. willing f \<Longrightarrow> fst (notify_all fs old new w) \<noteq> Some (Thrown (Std_exception e))"
proof (induction fs arbitrary: w)
  case (Cons f fs)
  then have "fst (f old new w) \<noteq> Some (Thrown (Std_exception e))" by (simp add: willing_def)
  with Cons show ?case by (auto split: prod.split option.split)
qed simp

lemma fromString_assign:
  assumes step: "ConfigVar_fromString t (w, x) = (r, w', x')"
  shows "x' = x \<or> x' = x\<lparr>cv_val := assign (cv_type x) t (cv_val x)\<rparr>"
    and "\<forall>f \<in> snd ` set (cv_cbs x). willing f \<Longrightarrow> r = Inr b \<Longrightarrow> x' = x\<lparr>cv_val := assign (cv_type x) t (cv_val x)\<rparr>"
proof -
  show "x' = x \<or> x' = x\<lparr>cv_val := assign (cv_type x) t (cv_val x)\<rparr>"
    using step by (auto simp: ConfigVar_fromString_def ConfigVar_setValue_def assign_def
        split: sum.splits fault.splits exn.splits if_splits prod.splits option.splits)
next
  assume willing: "\<forall>f \<in> snd ` set (cv_cbs x). willing f" and r: "r = Inr b"
  have "fst (notify_all (map snd (cv_cbs x)) old new w) \<noteq> Some (Thrown (Std_exception e))" for old new e
    using willing by (intro notify_all_willing) auto
  then have told: "e2 \<noteq> Some (Thrown (Std_exception m))" if "notify_all (map snd (cv_cbs x)) old new w = (e2, w2)" for old new e2 w2 m
    using that by (metis fst_conv)
  show "x' = x\<lparr>cv_val := assign (cv_type x) t (cv_val x)\<rparr>"
  proof (cases "ct_fromStr (cv_type x) t")
    case (Inl g)
    with step r have "x' = x" by (auto simp: ConfigVar_fromString_def split: fault.splits exn.splits)
    with Inl show ?thesis by (simp add: assign_def)
  next
    case (Inr u)
    show ?thesis
    proof (cases "ct_eq (cv_type x) u (cv_val x)")
      case True
      with Inr step show ?thesis by (simp add: ConfigVar_fromString_def ConfigVar_setValue_def assign_def)
    next
      case False
      obtain e2 w2 where n: "notify_all (map snd (cv_cbs x)) (cv_val x) u w = (e2, w2)" by force
      have "e2 = None"
      proof (rule ccontr)
        assume "e2 \<noteq> None"
        then obtain g where g: "e2 = Some g" by blast
        with Inr False n step r told [OF n] show False
          by (cases g) (auto simp: ConfigVar_fromString_def ConfigVar_setValue_def split: exn.splits)
      qed
      with Inr False n step show ?thesis by (simp add: ConfigVar_fromString_def ConfigVar_setValue_def assign_def)
    qed
  qed
qed

text \<open>Some of a list, in its order.\<close>

definition some_of :: "'a list \<Rightarrow> 'a list \<Rightarrow> bool" where
  "some_of ts xs \<longleftrightarrow> (\<exists>I. ts = nths xs I)"

lemma some_of_intros: "some_of [] xs" "some_of ts xs \<Longrightarrow> some_of ts (x # xs)" "some_of ts xs \<Longrightarrow> some_of (x # ts) (x # xs)"
proof -
  show "some_of [] xs" by (metis nths_empty some_of_def)
  show "some_of ts xs \<Longrightarrow> some_of ts (x # xs)"
  proof -
    assume "some_of ts xs"
    then obtain I where "ts = nths xs I" by (auto simp: some_of_def)
    then have "ts = nths (x # xs) (Suc ` I)" by (simp add: nths_Cons image_iff)
    then show ?thesis by (auto simp: some_of_def)
  qed
  show "some_of ts xs \<Longrightarrow> some_of (x # ts) (x # xs)"
  proof -
    assume "some_of ts xs"
    then obtain I where "ts = nths xs I" by (auto simp: some_of_def)
    then have "x # ts = nths (x # xs) (insert 0 (Suc ` I))" by (simp add: nths_Cons image_iff)
    then show ?thesis unfolding some_of_def by blast
  qed
qed

definition member_text :: "yaml_lib \<Rightarrow> yaml \<Rightarrow> string" where
  "member_text L n = (if IsScalar n then Scalar n else yl_emit L n)"

lemma texts_members: "texts L name root = map (\<lambda>(p, n). member_text L n) (filter (\<lambda>(p, n). p = name) (ListAllMember '''' root))"
  by (simp add: texts_def member_text_def)

text \<open>One round of the loop, as one variable sees it.\<close>

lemma load_member_var:
  assumes step: "load_member L (p, n) (w, c) = (e, w1, c1)" and ok: "reg_ok c" and at: "LookupBase name c = Some a" "name \<noteq> []"
    and p: "valid_name p"
  shows "reg_ok c1 \<and> datas c1 = datas c \<and>
    (vars c1 ! a = vars c ! a \<or>
       p = name \<and> vars c1 ! a = (vars c ! a)\<lparr>cv_val := assign (cv_type (vars c ! a)) (member_text L n) (cv_val (vars c ! a))\<rparr>) \<and>
    (p = name \<longrightarrow> e = None \<longrightarrow> (\<forall>f \<in> snd ` set (cv_cbs (vars c ! a)). willing f) \<longrightarrow>
       vars c1 ! a = (vars c ! a)\<lparr>cv_val := assign (cv_type (vars c ! a)) (member_text L n) (cv_val (vars c ! a))\<rparr>)"
proof -
  have reg: "reg_ok c1" "datas c1 = datas c"
    using load_member_set_var [OF step] ok by (auto simp: set_var_def intro: reg_ok_set_var [unfolded set_var_def])
  have lower: "map tolower p = p" using p by (rule valid_name_lower)
  have a: "a < length (vars c)" using ok at(1) by (simp add: reg_ok_def LookupBase_def)
  show ?thesis
  proof (cases "p = name")
    case True
    obtain r w2 x where x: "ConfigVar_fromString (member_text L n) (w, vars c ! a) = (r, w2, x)" by (metis prod_cases3)
    with True step lower at have "c1 = c\<lparr>vars := (vars c)[a := x]\<rparr>" "e = None \<longleftrightarrow> (\<exists>b. r = Inr b)"
      by (auto simp: load_member_def member_text_def split: sum.splits if_splits)
    with fromString_assign [OF x] True a reg show ?thesis by auto
  next
    case False
    have "LookupBase p c \<noteq> Some a" using False ok at(1) by (auto simp: reg_ok_def LookupBase_def)
    with step lower False have "vars c1 ! a = vars c ! a"
      by (auto simp: load_member_def split: if_splits option.splits prod.splits sum.splits)
    with False reg show ?thesis by simp
  qed
qed

text \<open>
  Loading assigns some of the texts the document gives to the variable, in their order, and all of them
  if it ends without an exception and the listeners of the variable are willing.
\<close>

lemma load_members_value:
  assumes "load_members L is (w, c) = (e, w', c')" and "reg_ok c" and "LookupBase name c = Some a" and "name \<noteq> []"
    and "\<forall>(p, n) \<in> set is. valid_name p"
  shows "\<exists>ts. some_of ts (map (\<lambda>(p, n). member_text L n) (filter (\<lambda>(p, n). p = name) is)) \<and>
    vars c' ! a = (vars c ! a)\<lparr>cv_val := fold (assign (cv_type (vars c ! a))) ts (cv_val (vars c ! a))\<rparr> \<and>
    (e = None \<and> (\<forall>f \<in> snd ` set (cv_cbs (vars c ! a)). willing f) \<longrightarrow>
       ts = map (\<lambda>(p, n). member_text L n) (filter (\<lambda>(p, n). p = name) is))"
  using assms
proof (induction "is" arbitrary: w c)
  case (Cons i "is")
  obtain p n where i: "i = (p, n)" by force
  obtain e1 w1 c1 where step: "load_member L (p, n) (w, c) = (e1, w1, c1)" by (metis prod_cases3)
  note m = load_member_var [OF step Cons.prems(2,3,4)]
  have valid: "valid_name p" using Cons.prems(5) i by simp
  let ?all = "\<lambda>is. map (\<lambda>(p, n). member_text L n) (filter (\<lambda>(p, n). p = name) is)" and ?T = "cv_type (vars c ! a)"
  let ?willing = "\<forall>f \<in> snd ` set (cv_cbs (vars c ! a)). willing f"
  let ?t = "member_text L n" and ?v = "cv_val (vars c ! a)"
  define took where "took \<longleftrightarrow> p = name \<and> vars c1 ! a = (vars c ! a)\<lparr>cv_val := assign ?T ?t ?v\<rparr>"
  have kept: "vars c1 ! a = vars c ! a" if "\<not> took" using m [OF valid] that by (auto simp: took_def)
  have v1: "vars c1 ! a = (vars c ! a)\<lparr>cv_val := (if took then assign ?T ?t ?v else ?v)\<rparr>"
    using kept by (cases took) (simp_all add: took_def)
  show ?case
  proof (cases e1)
    case (Some g)
    then have "e = Some g" "c' = c1" using Cons.prems(1) i step by simp_all
    then show ?thesis using v1 i
      by (intro exI [of _ "if took then [?t] else []"]) (auto simp: took_def intro: some_of_intros)
  next
    case None
    have at: "LookupBase name c1 = Some a" using m [OF valid] Cons.prems(3) by (simp add: LookupBase_def)
    have rest: "load_members L is (w1, c1) = (e, w', c')" using Cons.prems(1) i step None by simp
    have valid': "\<forall>(p, n) \<in> set is. valid_name p" using Cons.prems(5) by simp
    have same: "cv_type (vars c1 ! a) = ?T" "cv_cbs (vars c1 ! a) = cv_cbs (vars c ! a)" by (simp_all add: v1)
    from Cons.IH [OF rest conjunct1 [OF m [OF valid]] at Cons.prems(4) valid'] obtain ts where
      "some_of ts (?all is) \<and> vars c' ! a = (vars c1 ! a)\<lparr>cv_val := fold (assign ?T) ts (cv_val (vars c1 ! a))\<rparr> \<and>
        (e = None \<and> ?willing \<longrightarrow> ts = ?all is)" unfolding same by (elim exE)
    then have ts: "some_of ts (?all is)"
      "vars c' ! a = (vars c1 ! a)\<lparr>cv_val := fold (assign ?T) ts (cv_val (vars c1 ! a))\<rparr>"
      "e = None \<and> ?willing \<longrightarrow> ts = ?all is" by blast+
    have "p = name \<Longrightarrow> ?willing \<Longrightarrow> took" using m [OF valid] None by (simp add: took_def)
    then have all: "?willing \<Longrightarrow> e = None \<Longrightarrow> (if took then ?t # ts else ts) = ?all (i # is)"
      using ts(3) i by (cases "p = name") (simp_all add: took_def)
    have "some_of (if took then ?t # ts else ts) (?all (i # is))"
      using ts(1) i by (cases "p = name") (auto simp: took_def intro: some_of_intros)
    moreover have "vars c' ! a = (vars c ! a)\<lparr>cv_val := fold (assign ?T) (if took then ?t # ts else ts) ?v\<rparr>"
      by (simp add: ts(2) v1)
    ultimately show ?thesis using all by blast
  qed
qed (auto intro!: exI [of _ "[]"] some_of_intros)

lemma members_valid: "\<forall>(p, n) \<in> set (ListAllMember '''' root). valid_name p"
proof -
  have "valid_name p" if "named root '''' p n" for p n
    using that by (induction rule: named.induct) simp_all
  then show ?thesis using ListAllMember_sound by fastforce
qed

lemma LoadFromYaml_var:
  assumes "LoadFromYaml L root (w, c) = (e, w', c')" and "reg_ok c" and "LookupBase name c = Some a" and "name \<noteq> []"
  shows "\<exists>ts. some_of ts (texts L name root) \<and>
    vars c' ! a = (vars c ! a)\<lparr>cv_val := fold (assign (cv_type (vars c ! a))) ts (cv_val (vars c ! a))\<rparr> \<and>
    (e = None \<and> (\<forall>f \<in> snd ` set (cv_cbs (vars c ! a)). willing f) \<longrightarrow> ts = texts L name root)"
  using load_members_value [OF assms(1) [unfolded LoadFromYaml_def] assms(2-4) members_valid] by (simp add: texts_members)

lemma LoadFromYaml_assigns:
  assumes "LoadFromYaml L root (w, c) = (None, w', c')" and "reg_ok c" and "LookupBase name c = Some a" and "name \<noteq> []"
    and "cv_cbs (vars c ! a) = []"
  shows "cv_val (vars c' ! a) = fold (assign (cv_type (vars c ! a))) (texts L name root) (cv_val (vars c ! a))"
  using LoadFromYaml_var [OF assms(1-4)] assms(5) by auto


text \<open>A variable with a listener, and a document with its name.\<close>

definition demo_heard :: "(string, (nat \<times> string \<times> string) list) cfg_state" where
  "demo_heard = cfg_do (G_Add 0 (recorder 2 (\<lambda>_. False))) (cfg_do (G_Add 0 (recorder 1 (\<lambda>_. False))) demo_cfg)"

lemma demo_heard_eq: "demo_heard = \<lparr>cs_ids = (\<lambda>_. 0)(''string'' := 2), cs_world = [],
  cs_cfg = \<lparr>datas = [(''system.port'', 0)],
    vars = [\<lparr>cv_name = ''system.port'', cv_description = ''port'', cv_type = text_type, cv_val = ''8080'',
      cv_cbs = [(1, recorder 1 (\<lambda>_. False)), (2, recorder 2 (\<lambda>_. False))]\<rparr>]\<rparr>\<rparr>"
  by (simp add: demo_heard_def demo_cfg_eq ConfigVar_addListener_def set_var_def text_type_def Let_def)

lemma demo_heard_run: "cfg_run [] demo_heard"
  unfolding demo_heard_def by (intro cfg_step demo_cfg_run) (simp_all add: demo_cfg_eq ConfigVar_addListener_def set_var_def Let_def)


section \<open>Listener ids\<close>

text \<open>
  The ids of a variable's listeners ascend and never exceed the counter of its type.
\<close>

definition ids_ok :: "(string \<Rightarrow> 64 word) \<Rightarrow> ('v, 'w) config_var \<Rightarrow> bool" where
  "ids_ok n x \<longleftrightarrow> sorted_keys (cv_cbs x) \<and> (\<forall>k \<in> fst ` set (cv_cbs x). k \<le> n (ct_name (cv_type x)))"

lemma word_less_plus1: "(n :: 64 word) \<noteq> -1 \<Longrightarrow> n < n + 1"
proof -
  assume "n \<noteq> -1"
  then have "unat n \<noteq> unat (- 1 :: 64 word)" by (simp add: word_unat_eq_iff)
  moreover have "unat n < 2 ^ LENGTH(64)" by (rule unsigned_less)
  ultimately have "Suc (unat n) < 2 ^ 64" by (simp add: unsigned_minus_1_eq_mask mask_eq_exp_minus_1)
  then show ?thesis by (simp add: word_less_nat_alt unat_word_ariths)
qed

lemma ids_ok_bump: "ids_ok n x \<Longrightarrow> n T \<noteq> -1 \<Longrightarrow> ids_ok (n(T := n T + 1)) x"
  using word_less_plus1 [of "n T"] by (fastforce simp: ids_ok_def)

lemma addListener_end:
  assumes "ids_ok n x" "n (ct_name (cv_type x)) \<noteq> -1"
  shows "map_put (n (ct_name (cv_type x)) + 1) cb (cv_cbs x) = cv_cbs x @ [(n (ct_name (cv_type x)) + 1, cb)]"
  by (rule map_put_end) (use assms word_less_plus1 in \<open>fastforce simp: ids_ok_def\<close>)

lemma ids_ok_frame: "ids_ok n x \<Longrightarrow> cv_type y = cv_type x \<Longrightarrow> cv_cbs y = cv_cbs x \<Longrightarrow> ids_ok n y"
  by (simp add: ids_ok_def)

lemma ids_ok_vars: "\<forall>x \<in> set (vars c). ids_ok n x \<Longrightarrow> ids_ok n y \<Longrightarrow> \<forall>x \<in> set (vars (set_var a y c)). ids_ok n x"
  by (auto simp: set_var_def dest!: set_update_subset_insert [THEN subsetD])

lemma ids_ok_load:
  fixes c :: "('v, 'w) config"
  assumes "LoadFromYaml L root (w, c) = (e, w', c')" and "\<forall>x \<in> set (vars c). ids_ok n x"
  shows "\<forall>x \<in> set (vars c'). ids_ok n x"
proof (rule load_members_invariant [OF assms(1) [unfolded LoadFromYaml_def], where I = "\<lambda>c. \<forall>x \<in> set (vars c). ids_ok n x", OF assms(2)])
  fix c :: "('v, 'w) config" and a and x :: "('v, 'w) config_var"
  assume *: "\<forall>x \<in> set (vars c). ids_ok n x" "cv_type x = cv_type (vars c ! a)" "cv_cbs x = cv_cbs (vars c ! a)"
  show "\<forall>x \<in> set (vars (set_var a x c)). ids_ok n x"
  proof (cases "a < length (vars c)")
    case True
    with * have "ids_ok n x" by (auto intro: ids_ok_frame)
    with *(1) show ?thesis by (rule ids_ok_vars)
  qed (use * in \<open>simp add: set_var_def list_update_beyond\<close>)
qed

lemma ids_ok_do:
  assumes inv: "\<forall>x \<in> set (vars (cs_cfg s)). ids_ok (cs_ids s) x" and ok: "cfg_allowed op s"
  shows "\<forall>x \<in> set (vars (cs_cfg (cfg_do op s))). ids_ok (cs_ids (cfg_do op s)) x"
proof (cases op)
  case (G_Lookup T name def desc)
  with inv show ?thesis
    by (auto simp: Lookup_def ConfigVar_new_def ids_ok_def Let_def split: sum.splits option.splits if_splits)
next
  case (G_Set a v)
  obtain e w x where st: "ConfigVar_setValue v (cs_world s, vars (cs_cfg s) ! a) = (e, w, x)" by (metis prod_cases3)
  have "ids_ok (cs_ids s) x" using inv ok G_Set setValue_frame [OF st] by (auto intro: ids_ok_frame)
  with G_Set st show ?thesis using ids_ok_vars [OF inv] by simp
next
  case (G_From a t)
  obtain e w x where st: "ConfigVar_fromString t (cs_world s, vars (cs_cfg s) ! a) = (e, w, x)" by (metis prod_cases3)
  have "ids_ok (cs_ids s) x" using inv ok G_From fromString_frame [OF st] by (auto intro: ids_ok_frame)
  with G_From st show ?thesis using ids_ok_vars [OF inv] by simp
next
  case (G_Load L root)
  obtain e w c where l: "LoadFromYaml L root (cs_world s, cs_cfg s) = (e, w, c)" by (metis prod_cases3)
  from ids_ok_load [OF l inv] G_Load l show ?thesis by simp
next
  case (G_Add a cb)
  let ?x = "vars (cs_cfg s) ! a" let ?T = "ct_name (cv_type ?x)" let ?n = "(cs_ids s)(?T := cs_ids s ?T + 1)"
  have a: "a < length (vars (cs_cfg s))" "cs_ids s ?T \<noteq> -1" using ok G_Add by auto
  have x: "ids_ok (cs_ids s) ?x" using inv a by simp
  have all: "\<forall>x \<in> set (vars (cs_cfg s)). ids_ok ?n x" using inv a(2) ids_ok_bump by blast
  have "ids_ok ?n (?x\<lparr>cv_cbs := map_put (cs_ids s ?T + 1) cb (cv_cbs ?x)\<rparr>)"
    using ids_ok_bump [OF x a(2)] by (auto simp: ids_ok_def intro: std_map.ok_put)
  with G_Add ids_ok_vars [OF all] show ?thesis by (simp add: ConfigVar_addListener_def Let_def)
next
  case (G_Del a key)
  have "ids_ok (cs_ids s) (ConfigVar_delListener key (vars (cs_cfg s) ! a))"
    using inv ok G_Del by (fastforce simp: ids_ok_def ConfigVar_delListener_def map_erase_def intro: std_map.ok_erase [unfolded map_erase_def])
  with G_Del ids_ok_vars [OF inv] show ?thesis by simp
next
  case (G_Clear a)
  have "ids_ok (cs_ids s) (ConfigVar_clearListener (vars (cs_cfg s) ! a))"
    by (simp add: ids_ok_def ConfigVar_clearListener_def)
  with G_Clear ids_ok_vars [OF inv] show ?thesis by simp
qed

lemma cfg_run_ids: "cfg_run w s \<Longrightarrow> \<forall>x \<in> set (vars (cs_cfg s)). ids_ok (cs_ids s) x"
proof (induction rule: cfg_run.induct)
  case cfg_start
  then show ?case by (simp add: cfg_empty_def)
qed (rule ids_ok_do)

text \<open>
  A new listener gets an id no variable of the type uses, comes after all listeners the
  variable has, is found under its id, and deleting the id restores the variable exactly.
\<close>
theorem listener_ids_fresh:
  assumes "cfg_run w s" and "a < length (vars (cs_cfg s))"
    and "T = ct_name (cv_type (vars (cs_cfg s) ! a))" and "cs_ids s T \<noteq> -1"
    and "ConfigVar_addListener cb (cs_ids s T) (vars (cs_cfg s) ! a) = (key, n, x)"
  shows "cv_cbs x = cv_cbs (vars (cs_cfg s) ! a) @ [(key, cb)] \<and>
    ConfigVar_getListener key x = Some cb \<and> ConfigVar_delListener key x = vars (cs_cfg s) ! a \<and>
    (\<forall>y \<in> set (vars (cs_cfg s)). ct_name (cv_type y) = T \<longrightarrow> ConfigVar_getListener key y = None)"
proof -
  let ?x = "vars (cs_cfg s) ! a"
  have inv: "\<forall>x \<in> set (vars (cs_cfg s)). ids_ok (cs_ids s) x" using assms(1) by (rule cfg_run_ids)
  have key: "key = cs_ids s T + 1" and x: "x = ?x\<lparr>cv_cbs := map_put key cb (cv_cbs ?x)\<rparr>"
    using assms(5) by (auto simp: ConfigVar_addListener_def)
  have free: "key \<notin> fst ` set (cv_cbs y)" if "y \<in> set (vars (cs_cfg s))" "ct_name (cv_type y) = T" for y
    using inv that word_less_plus1 [OF assms(4)] by (force simp: ids_ok_def key)
  have ids: "ids_ok (cs_ids s) ?x" using inv assms(2) by simp
  have cbs: "cv_cbs x = cv_cbs ?x @ [(key, cb)]"
    using addListener_end [OF ids] assms(3,4) by (simp add: x key)
  have nokey: "key \<notin> fst ` set (cv_cbs ?x)" using free assms(2,3) by simp
  then have "map_erase key (cv_cbs x) = cv_cbs ?x" unfolding cbs map_erase_def by (auto simp: filter_id_conv)
  moreover have "map_of (cv_cbs x) key = Some cb"
    using nokey unfolding cbs by (auto simp: map_add_Some_iff map_of_eq_None_iff)
  moreover have "\<forall>y \<in> set (vars (cs_cfg s)). ct_name (cv_type y) = T \<longrightarrow> map_of (cv_cbs y) key = None"
    using free by (auto simp: map_of_eq_None_iff)
  ultimately show ?thesis using cbs by (simp add: ConfigVar_getListener_def ConfigVar_delListener_def x)
qed

theorem listener_ids_fresh_witness:
  "\<exists>x. ConfigVar_addListener (recorder 3 (\<lambda>_. False)) 0 (vars (cs_cfg demo_cfg) ! 0) = (1, 1, x) \<and>
    cv_cbs x = [(1, recorder 3 (\<lambda>_. False))]"
proof -
  obtain x where x: "ConfigVar_addListener (recorder 3 (\<lambda>_. False)) (cs_ids demo_cfg ''string'') (vars (cs_cfg demo_cfg) ! 0) = (1, 1, x)"
    by (simp add: ConfigVar_addListener_def demo_cfg_eq)
  have "0 < length (vars (cs_cfg demo_cfg))" "''string'' = ct_name (cv_type (vars (cs_cfg demo_cfg) ! 0))"
    "cs_ids demo_cfg ''string'' \<noteq> -1" "cv_cbs (vars (cs_cfg demo_cfg) ! 0) = []"
    by (simp_all add: demo_cfg_eq text_type_def)
  with listener_ids_fresh [OF demo_cfg_run this(1,2,3) x] x show ?thesis by (simp add: demo_cfg_eq)
qed

section \<open>Who is told\<close>

text \<open>The states the outside goes through while the listeners are called one after the other.\<close>

lemma notify_all_trace:
  "\<exists>k ws. k \<le> length fs \<and> length ws = Suc k \<and> ws ! 0 = w \<and>
    (\<forall>i < k. (fs ! i) old new (ws ! i) = (None, ws ! Suc i)) \<and>
    (k = length fs \<and> notify_all fs old new w = (None, ws ! k) \<or>
     k < length fs \<and> (\<exists>e w'. (fs ! k) old new (ws ! k) = (Some e, w') \<and> notify_all fs old new w = (Some e, w')))"
proof (induction fs arbitrary: w)
  case Nil
  show ?case by (intro exI [of _ 0] exI [of _ "[w]"]) simp
next
  case (Cons f fs)
  obtain r w1 where f: "f old new w = (r, w1)" by force
  show ?case
  proof (cases r)
    case (Some e)
    with f show ?thesis by (intro exI [of _ 0] exI [of _ "[w]"]) simp
  next
    case None
    obtain k ws where k: "k \<le> length fs" "length ws = Suc k" "ws ! 0 = w1"
      "\<forall>i < k. (fs ! i) old new (ws ! i) = (None, ws ! Suc i)"
      "k = length fs \<and> notify_all fs old new w1 = (None, ws ! k) \<or>
       k < length fs \<and> (\<exists>e w'. (fs ! k) old new (ws ! k) = (Some e, w') \<and> notify_all fs old new w1 = (Some e, w'))"
      using Cons.IH [of w1] by blast
    have "((f # fs) ! i) old new ((w # ws) ! i) = (None, (w # ws) ! Suc i)" if "i < Suc k" for i
      using k(3,4) f None that by (cases i) simp_all
    with k(1,2,5) f None show ?thesis by (intro exI [of _ "Suc k"] exI [of _ "w # ws"]) auto
  qed
qed

text \<open>
  C31. Who is told of a new value. In every state of the registry the ids of a variable's listeners, whatever these do, ascend
  strictly, and setting the variable calls the listeners in this order, each once, with the old and the new value, each in the state
  the one before it left. If all return, the new value is stored; if one throws, this is what
  \<^verbatim>\<open>setValue\<close> throws, those after it are not called and the value stays the old one. If the value
  is equal to the old one by the type's equality, nobody is called and nothing is stored.
\<close>
theorem setValue_notifies:
  assumes "cfg_run w0 s" and "a < length (vars (cs_cfg s))" and "x = vars (cs_cfg s) ! a"
  shows "sorted_wrt (<) (map fst (cv_cbs x)) \<and>
    (if ct_eq (cv_type x) v (cv_val x) then ConfigVar_setValue v (w, x) = (None, w, x)
     else \<exists>k ws. k \<le> length (cv_cbs x) \<and> length ws = Suc k \<and> ws ! 0 = w \<and>
       (\<forall>i < k. snd (cv_cbs x ! i) (cv_val x) v (ws ! i) = (None, ws ! Suc i)) \<and>
       (k = length (cv_cbs x) \<and> ConfigVar_setValue v (w, x) = (None, ws ! k, x\<lparr>cv_val := v\<rparr>) \<or>
        k < length (cv_cbs x) \<and> (\<exists>e w'. snd (cv_cbs x ! k) (cv_val x) v (ws ! k) = (Some e, w') \<and>
          ConfigVar_setValue v (w, x) = (Some e, w', x))))"
proof (intro conjI)
  show "sorted_wrt (<) (map fst (cv_cbs x))"
    using cfg_run_ids [OF assms(1)] assms(2,3) by (simp add: ids_ok_def sorted_keys_def)
next
  let ?fs = "map snd (cv_cbs x)"
  from notify_all_trace [of ?fs w "cv_val x" v] obtain k ws where
    "k \<le> length ?fs \<and> length ws = Suc k \<and> ws ! 0 = w \<and>
      (\<forall>i < k. (?fs ! i) (cv_val x) v (ws ! i) = (None, ws ! Suc i)) \<and>
      (k = length ?fs \<and> notify_all ?fs (cv_val x) v w = (None, ws ! k) \<or>
       k < length ?fs \<and> (\<exists>e w'. (?fs ! k) (cv_val x) v (ws ! k) = (Some e, w') \<and> notify_all ?fs (cv_val x) v w = (Some e, w')))"
    by (elim exE)
  then have k: "k \<le> length ?fs" "length ws = Suc k" "ws ! 0 = w"
    "\<forall>i < k. (?fs ! i) (cv_val x) v (ws ! i) = (None, ws ! Suc i)"
    "k = length ?fs \<and> notify_all ?fs (cv_val x) v w = (None, ws ! k) \<or>
     k < length ?fs \<and> (\<exists>e w'. (?fs ! k) (cv_val x) v (ws ! k) = (Some e, w') \<and> notify_all ?fs (cv_val x) v w = (Some e, w'))"
    by blast+
  then have told: "\<forall>i < k. snd (cv_cbs x ! i) (cv_val x) v (ws ! i) = (None, ws ! Suc i)"
    and last: "k < length (cv_cbs x) \<Longrightarrow> ?fs ! k = snd (cv_cbs x ! k)" by simp_all
  show "if ct_eq (cv_type x) v (cv_val x) then ConfigVar_setValue v (w, x) = (None, w, x)
     else \<exists>k ws. k \<le> length (cv_cbs x) \<and> length ws = Suc k \<and> ws ! 0 = w \<and>
       (\<forall>i < k. snd (cv_cbs x ! i) (cv_val x) v (ws ! i) = (None, ws ! Suc i)) \<and>
       (k = length (cv_cbs x) \<and> ConfigVar_setValue v (w, x) = (None, ws ! k, x\<lparr>cv_val := v\<rparr>) \<or>
        k < length (cv_cbs x) \<and> (\<exists>e w'. snd (cv_cbs x ! k) (cv_val x) v (ws ! k) = (Some e, w') \<and>
          ConfigVar_setValue v (w, x) = (Some e, w', x)))"
  proof (cases "ct_eq (cv_type x) v (cv_val x)")
    case False
    have "k = length (cv_cbs x) \<and> ConfigVar_setValue v (w, x) = (None, ws ! k, x\<lparr>cv_val := v\<rparr>) \<or>
        k < length (cv_cbs x) \<and> (\<exists>e w'. snd (cv_cbs x ! k) (cv_val x) v (ws ! k) = (Some e, w') \<and>
          ConfigVar_setValue v (w, x) = (Some e, w', x))"
      using k(5) last False by (elim disjE) (auto simp: ConfigVar_setValue_def)
    with False k(1,2,3) told show ?thesis by (simp only: if_False length_map) blast
  qed (simp add: ConfigVar_setValue_def)
qed

theorem setValue_notifies_witness:
  "ConfigVar_setValue ''80'' ([], vars (cs_cfg demo_heard) ! 0) =
    (None, [(1, ''8080'', ''80''), (2, ''8080'', ''80'')], (vars (cs_cfg demo_heard) ! 0)\<lparr>cv_val := ''80''\<rparr>)"
proof -
  let ?x = "vars (cs_cfg demo_heard) ! 0"
  have x: "cv_val ?x = ''8080''" "length (cv_cbs ?x) = 2" "snd (cv_cbs ?x ! 0) = recorder 1 (\<lambda>_. False)"
    "snd (cv_cbs ?x ! Suc 0) = recorder 2 (\<lambda>_. False)" "\<not> ct_eq (cv_type ?x) ''80'' (cv_val ?x)"
    by (simp_all add: demo_heard_eq text_type_def)
  have "0 < length (vars (cs_cfg demo_heard))" by (simp add: demo_heard_eq)
  from setValue_notifies [OF demo_heard_run this refl, of "''80''" "[]"] x(5)
  obtain k ws where k: "k \<le> 2" "ws ! 0 = []" "\<forall>i < k. snd (cv_cbs ?x ! i) ''8080'' ''80'' (ws ! i) = (None, ws ! Suc i)"
    "k = 2 \<and> ConfigVar_setValue ''80'' ([], ?x) = (None, ws ! k, ?x\<lparr>cv_val := ''80''\<rparr>) \<or>
     k < 2 \<and> (\<exists>e w'. snd (cv_cbs ?x ! k) ''8080'' ''80'' (ws ! k) = (Some e, w'))"
    unfolding x(1,2) by auto
  have "\<not> k < 2" using k(4) x(3,4) by (auto simp: less_2_cases_iff recorder_def)
  then have "k = 2" using k(1) by simp
  moreover from this have "ws ! Suc 0 = ws ! 0 @ [(1, ''8080'', ''80'')]" "ws ! Suc (Suc 0) = ws ! Suc 0 @ [(2, ''8080'', ''80'')]"
    using k(3) x(3,4) by (auto simp: numeral_2_eq_2 All_less_Suc recorder_def)
  ultimately show ?thesis using k(2,4) by (simp add: numeral_2_eq_2)
qed

section \<open>Values have the type of their variable\<close>

text \<open>
  \<open>ty\<close> tells the C++ type of a value by its name. A program is well typed if the default it gives
  to \<^verbatim>\<open>Lookup<T>\<close> and what it assigns through a \<^verbatim>\<open>ConfigVar<T>\<close> are of type \<^verbatim>\<open>T\<close>,
  and the cast to \<^verbatim>\<open>T\<close> yields a \<^verbatim>\<open>T\<close>; the compiler sees to that. What it cannot see, because
  the registry forgets the types, is that a pointer found under a name leads to a value of the type
  asked for.
\<close>

definition cast_typed :: "('v \<Rightarrow> string) \<Rightarrow> 'v config_type \<Rightarrow> bool" where
  "cast_typed ty T \<longleftrightarrow> (\<forall>s v. ct_fromStr T s = Inr v \<longrightarrow> ty v = ct_name T)"

fun op_typed :: "('v \<Rightarrow> string) \<Rightarrow> ('v, 'w) cfg_op \<Rightarrow> ('v, 'w) cfg_state \<Rightarrow> bool" where
  "op_typed ty (G_Lookup T name def desc) s = (ty def = ct_name T \<and> cast_typed ty T)"
| "op_typed ty (G_Set a v) s = (ty v = ct_name (cv_type (vars (cs_cfg s) ! a)))"
| "op_typed ty op s = True"

inductive cfg_typed_run :: "('v \<Rightarrow> string) \<Rightarrow> 'w \<Rightarrow> ('v, 'w) cfg_state \<Rightarrow> bool" for ty w where
  typed_start: "cfg_typed_run ty w (cfg_empty w)"
| typed_step: "cfg_typed_run ty w s \<Longrightarrow> cfg_allowed op s \<Longrightarrow> op_typed ty op s \<Longrightarrow> cfg_typed_run ty w (cfg_do op s)"

definition var_typed :: "('v \<Rightarrow> string) \<Rightarrow> ('v, 'w) config_var \<Rightarrow> bool" where
  "var_typed ty x \<longleftrightarrow> ty (cv_val x) = ct_name (cv_type x) \<and> cast_typed ty (cv_type x)"

definition cfg_typed :: "('v \<Rightarrow> string) \<Rightarrow> ('v, 'w) config \<Rightarrow> bool" where
  "cfg_typed ty c \<longleftrightarrow> (\<forall>x \<in> set (vars c). var_typed ty x)"

lemma setValue_typed:
  assumes "ConfigVar_setValue v (w, x) = (e, w', x')" "var_typed ty x" "ty v = ct_name (cv_type x)"
  shows "var_typed ty x'"
  using assms by (auto simp: ConfigVar_setValue_def var_typed_def split: if_splits prod.splits option.splits)

lemma fromString_typed:
  assumes "ConfigVar_fromString t (w, x) = (r, w', x')" "var_typed ty x"
  shows "var_typed ty x'"
proof (cases "ct_fromStr (cv_type x) t")
  case (Inl e)
  with assms show ?thesis by (auto simp: ConfigVar_fromString_def split: fault.splits exn.splits)
next
  case (Inr v)
  then have "ty v = ct_name (cv_type x)" using assms(2) by (auto simp: var_typed_def cast_typed_def)
  obtain e w1 x1 where set: "ConfigVar_setValue v (w, x) = (e, w1, x1)" by (metis prod_cases3)
  have "x' = x1"
  proof (cases e)
    case None
    with set Inr assms(1) show ?thesis by (simp add: ConfigVar_fromString_def)
  next
    case (Some f)
    with set Inr assms(1) show ?thesis by (cases f) (auto simp: ConfigVar_fromString_def split: exn.splits)
  qed
  with setValue_typed [OF set assms(2) \<open>ty v = ct_name (cv_type x)\<close>] show ?thesis by simp
qed

lemma var_typed_cbs: "var_typed ty (x\<lparr>cv_cbs := k\<rparr>) = var_typed ty x"
  by (simp add: var_typed_def)

lemma set_var_typed: "cfg_typed ty c \<Longrightarrow> (a < length (vars c) \<Longrightarrow> var_typed ty x) \<Longrightarrow> cfg_typed ty (set_var a x c)"
  by (cases "a < length (vars c)")
    (auto simp: cfg_typed_def set_var_def list_update_beyond linorder_not_less dest!: set_update_subset_insert [THEN subsetD])

lemma load_member_typed:
  assumes "load_member L i (w, c) = (e, w', c')" "cfg_typed ty c"
  shows "cfg_typed ty c'"
proof (cases "fst i = [] \<or> LookupBase (map tolower (fst i)) c = None")
  case False
  then obtain a where a: "fst i \<noteq> []" "LookupBase (map tolower (fst i)) c = Some a" by auto
  let ?t = "if IsScalar (snd i) then Scalar (snd i) else yl_emit L (snd i)"
  obtain r w1 x where x: "ConfigVar_fromString ?t (w, vars c ! a) = (r, w1, x)" by (metis prod_cases3)
  with a assms(1) have "c' = set_var a x c" by (auto simp: load_member_def set_var_def split: sum.splits)
  moreover have "var_typed ty x" if "a < length (vars c)"
    using fromString_typed [OF x] assms(2) that by (simp add: cfg_typed_def)
  ultimately show ?thesis using set_var_typed [OF assms(2)] by simp
qed (use assms in \<open>auto simp: load_member_def split: if_splits\<close>)

lemma load_members_typed:
  "load_members L is (w, c) = (e, w', c') \<Longrightarrow> cfg_typed ty c \<Longrightarrow> cfg_typed ty c'"
proof (induction "is" arbitrary: w c)
  case (Cons i "is")
  obtain e1 w1 c1 where step: "load_member L i (w, c) = (e1, w1, c1)" by (metis prod_cases3)
  have "cfg_typed ty c1" using load_member_typed [OF step Cons.prems(2)] .
  with Cons.IH [of w1 c1] Cons.prems(1) step show ?case by (cases e1) simp_all
qed simp

lemma cfg_do_typed:
  assumes typed: "cfg_typed ty (cs_cfg s)" and ok: "cfg_allowed op s" and op: "op_typed ty op s"
  shows "cfg_typed ty (cs_cfg (cfg_do op s))"
proof (cases op)
  case (G_Lookup T name def desc)
  with typed op show ?thesis
    by (auto simp: Lookup_def ConfigVar_new_def cfg_typed_def var_typed_def Let_def split: sum.splits option.splits if_splits)
next
  case (G_Set a v)
  obtain e w x where st: "ConfigVar_setValue v (cs_world s, vars (cs_cfg s) ! a) = (e, w, x)" by (metis prod_cases3)
  have "var_typed ty x" using setValue_typed [OF st] typed op ok G_Set by (simp add: cfg_typed_def)
  with G_Set st show ?thesis using set_var_typed [OF typed] by simp
next
  case (G_From a t)
  obtain e w x where st: "ConfigVar_fromString t (cs_world s, vars (cs_cfg s) ! a) = (e, w, x)" by (metis prod_cases3)
  have "var_typed ty x" using fromString_typed [OF st] typed ok G_From by (simp add: cfg_typed_def)
  with G_From st show ?thesis using set_var_typed [OF typed] by simp
next
  case (G_Load L root)
  obtain e w c where l: "LoadFromYaml L root (cs_world s, cs_cfg s) = (e, w, c)" by (metis prod_cases3)
  from load_members_typed [OF l [unfolded LoadFromYaml_def] typed] G_Load l show ?thesis by simp
next
  case (G_Add a cb)
  have "var_typed ty (vars (cs_cfg s) ! a)" using typed ok G_Add by (simp add: cfg_typed_def)
  with G_Add set_var_typed [OF typed] show ?thesis by (simp add: var_typed_cbs ConfigVar_addListener_def Let_def)
next
  case (G_Del a key)
  have "var_typed ty (vars (cs_cfg s) ! a)" using typed ok G_Del by (simp add: cfg_typed_def)
  with G_Del set_var_typed [OF typed] show ?thesis by (simp add: var_typed_cbs ConfigVar_delListener_def)
next
  case (G_Clear a)
  have "var_typed ty (vars (cs_cfg s) ! a)" using typed ok G_Clear by (simp add: cfg_typed_def)
  with G_Clear set_var_typed [OF typed] show ?thesis by (simp add: var_typed_cbs ConfigVar_clearListener_def)
qed

text \<open>
  C27. The registry keeps types apart. In every run of a well-typed program, however documents
  are loaded and listeners come and go, each variable holds a value of its own type; so what
  \<^verbatim>\<open>Lookup<T>\<close> returns, from a name registered long ago or just now, leads to a value of type
  \<^verbatim>\<open>T\<close>, and a name registered under another type gives null.
\<close>
theorem config_well_typed:
  assumes "cfg_typed_run ty w s" and "ty def = ct_name T" and "cast_typed ty T"
    and "Lookup T name def desc (cs_cfg s) = Inr (r, c)"
  shows "(\<forall>x \<in> set (vars (cs_cfg s)). ty (ConfigVar_getValue x) = ct_name (cv_type x)) \<and>
    (case r of Some a \<Rightarrow> ty (ConfigVar_getValue (vars c ! a)) = ct_name T
     | None \<Rightarrow> \<exists>a. LookupBase name (cs_cfg s) = Some a \<and> ct_name (cv_type (vars (cs_cfg s) ! a)) \<noteq> ct_name T)"
proof -
  have run: "cfg_run w s \<and> cfg_typed ty (cs_cfg s)" using assms(1)
  proof (induction rule: cfg_typed_run.induct)
    case typed_start
    show ?case using cfg_start by (auto simp: cfg_typed_def cfg_empty_def)
  next
    case (typed_step s op)
    then show ?case using cfg_do_typed by (blast intro: cfg_step)
  qed
  then have typed: "\<forall>x \<in> set (vars (cs_cfg s)). ty (cv_val x) = ct_name (cv_type x)"
    by (simp add: cfg_typed_def var_typed_def)
  have "reg_ok (cs_cfg s)" by (rule cfg_run_reg_ok [OF conjunct1 [OF run]])
  then have inside: "map_of (datas (cs_cfg s)) name = Some a \<Longrightarrow> a < length (vars (cs_cfg s))" for a
    by (simp add: reg_ok_def)
  show ?thesis
  proof (cases "map_of (datas (cs_cfg s)) name")
    case None
    with assms(2,4) typed show ?thesis
      by (auto simp: Lookup_def ConfigVar_getValue_def ConfigVar_new_def Let_def split: if_splits)
  next
    case (Some a)
    have "r = (if has_type T (vars (cs_cfg s) ! a) then Some a else None)" "c = cs_cfg s"
      using assms(4) by (auto simp: Lookup_def Some split: if_splits)
    with typed inside [OF Some] Some show ?thesis
      by (simp add: LookupBase_def has_type_def ConfigVar_getValue_def)
  qed
qed

theorem config_well_typed_witness:
  "\<exists>a c. Lookup text_type ''system.port'' ''1'' ''p'' (cs_cfg demo_cfg) = Inr (Some a, c) \<and>
    (\<lambda>v. ''string'') (ConfigVar_getValue (vars c ! a)) = ct_name text_type"
proof -
  have "cfg_typed_run (\<lambda>v. ''string'') [] demo_cfg"
    unfolding demo_cfg_def by (intro typed_step typed_start) (simp_all add: text_type_def cast_typed_def)
  moreover have "cast_typed (\<lambda>v. ''string'') text_type" "(\<lambda>v. ''string'') ''1'' = ct_name text_type"
    by (simp_all add: cast_typed_def text_type_def)
  moreover have look: "Lookup text_type ''system.port'' ''1'' ''p'' (cs_cfg demo_cfg) = Inr (Some 0, cs_cfg demo_cfg)"
    by (simp add: demo_cfg_eq Lookup_def has_type_def)
  ultimately show ?thesis using config_well_typed [OF _ _ _ look] by fastforce
qed

end
