(* ===== verification/Fiber_Config.thy ===== *)
theory Fiber_Config
  imports Config Fibers
begin

text \<open>
  The stack of a new fiber (\<^verbatim>\<open>fiber.cc\<close>): the variable \<^verbatim>\<open>fiber.stack_size\<close> of the
  registry of \<open>Config\<close>, registered by a static initialiser, read by the constructor of \<open>Fibers\<close>
  whenever no size is asked for, and handed to the stack allocator.
\<close>

section \<open>The variable and the allocator\<close>

text \<open>
  \<^verbatim>\<open>uint32_t\<close> as the type of a variable; the two conversions are those of
  \<^verbatim>\<open>boost::lexical_cast\<close>.
\<close>

definition uint32_type :: "(string \<Rightarrow> 32 word res) \<Rightarrow> (32 word \<Rightarrow> string res) \<Rightarrow> 32 word config_type" where
  "uint32_type of_str to_str = \<lparr>ct_name = ''uint32_t'', ct_fromStr = of_str, ct_toStr = to_str, ct_eq = (=)\<rparr>"

definition g_fiber_stack_size ::
  "32 word config_type \<Rightarrow> (32 word, 'w) config \<Rightarrow> (nat option \<times> (32 word, 'w) config) res"
where
  "g_fiber_stack_size T c = Lookup T ''fiber.stack_size'' (1024 * 1024) ''fiber stack size'' c"

text \<open>\<^verbatim>\<open>malloc\<close> by its result: the block it returns for a size, or null.\<close>

definition Alloc :: "(64 word \<Rightarrow> nat option) \<Rightarrow> 64 word \<Rightarrow> nat option" where
  "Alloc malloc sz = malloc sz"

text \<open>\<^verbatim>\<open>new Fiber(cb, stacksize, use_caller)\<close> with the variable at address \<open>v\<close>.\<close>

definition new_fiber ::
  "(64 word \<Rightarrow> nat option) \<Rightarrow> nat \<Rightarrow> (32 word, 'w) config \<Rightarrow> 'cb \<Rightarrow> 64 word \<Rightarrow> bool \<Rightarrow> 'cb fiber_sys \<Rightarrow> nat \<times> 'cb fiber_sys"
where
  "new_fiber malloc v c cb stacksize use_caller st =
    (let cfg = ConfigVar_getValue (vars c ! v);
         m_stacksize = ucast (if stacksize \<noteq> 0 then stacksize else ucast cfg) :: 32 word
     in Fiber_new cfg (Alloc malloc (ucast m_stacksize)) cb stacksize use_caller st)"

lemma widen_narrow: "(ucast (ucast x :: 64 word) :: 32 word) = x" for x :: "32 word"
  by transfer (simp add: take_bit_take_bit)

lemma new_fiber_stack:
  assumes "fibers (snd (new_fiber malloc v c cb sz uc st)) (next_addr st) = Some f"
  shows "fb_stacksize f = (if sz = 0 then cv_val (vars c ! v) else ucast sz)"
    "fb_stack f = malloc (ucast (fb_stacksize f))"
  using assms
  by (auto simp: new_fiber_def Fiber_new_def put_fiber_def Alloc_def ConfigVar_getValue_def widen_narrow Let_def)

lemma registered:
  assumes "g_fiber_stack_size T c0 = Inr (Some v, c1)" "reg_ok c0" "map_of (datas c0) ''fiber.stack_size'' = None"
  shows "reg_ok c1 \<and> LookupBase ''fiber.stack_size'' c1 = Some v \<and> cv_val (vars c1 ! v) = 1048576 \<and>
    cv_type (vars c1 ! v) = T \<and> cv_cbs (vars c1 ! v) = []"
proof -
  have "v = length (vars c0)" "datas c1 = map_put ''fiber.stack_size'' v (datas c0)"
    "vars c1 ! v = ConfigVar_new T ''fiber.stack_size'' 1048576 ''fiber stack size''"
    using assms(1,3) by (auto simp: g_fiber_stack_size_def Lookup_def Let_def split: if_splits)
  moreover have "reg_ok c1" using assms(1,2) reg_ok_Lookup by (auto simp: g_fiber_stack_size_def)
  moreover have "sorted_keys (datas c0)" using assms(2) by (simp add: reg_ok_def)
  ultimately show ?thesis by (simp add: LookupBase_def std_map.find_put ConfigVar_new_def)
qed

text \<open>
  C22. The stack of a fiber follows the configuration. After the static initialiser and the
  loading of a document, a fiber made without a size gets a stack of exactly the size the document
  gives last under \<^verbatim>\<open>fiber.stack_size\<close> in a text that converts, and of 1 MiB if there is none; a
  size that is asked for goes before, cut to 32 bits; and the stack allocated is of the size
  recorded.
\<close>
theorem stack_size_configured:
  assumes "g_fiber_stack_size T c0 = Inr (Some v, c1)" and "reg_ok c0" and "map_of (datas c0) ''fiber.stack_size'' = None"
    and "LoadFromYaml L root (w, c1) = (None, w', c2)"
    and "fibers (snd (new_fiber malloc v c2 cb sz uc st)) (next_addr st) = Some f"
  shows "fb_stacksize f = (if sz = 0 then fold (assign T) (texts L ''fiber.stack_size'' root) 1048576 else ucast sz) \<and>
    fb_stack f = malloc (ucast (fb_stacksize f))"
  using new_fiber_stack [OF assms(5)] registered [OF assms(1-3)]
    LoadFromYaml_assigns [OF assms(4), of "''fiber.stack_size''" v]
  by simp

text \<open>A conversion that knows one number, a document with it, and a thread without fibers.\<close>

definition sizes :: "string \<Rightarrow> 32 word res" where
  "sizes t = (if t = ''65536'' then Inr 65536 else Inl (Thrown (Std_exception ''bad lexical cast'')))"

definition size_document :: yaml where
  "size_document = Y_Map [(Y_Scalar ''fiber'', Y_Map [(Y_Scalar ''stack_size'', Y_Scalar ''65536'')])]"

definition no_fibers :: "unit fiber_sys" where
  "no_fibers = \<lparr>fibers = Map.empty, next_addr = 0, s_fiber_id = 0, s_fiber_count = 0, t_fiber = None,
     t_threadFiber = None, main_fiber = None, running = Native\<rparr>"

lemma size_names: "valid_name ''''" "valid_name ''fiber''" "valid_name ''fiber.stack_size''"
  by (simp_all add: valid_name_def config_name_chars_def)

lemma size_members:
  "ListAllMember '''' size_document = [('''', size_document),
     (''fiber'', Y_Map [(Y_Scalar ''stack_size'', Y_Scalar ''65536'')]), (''fiber.stack_size'', Y_Scalar ''65536'')]"
  using size_names by (simp add: size_document_def ListAllMember_simps join_name_def)

theorem stack_size_configured_witness:
  "\<exists>c1 w' c2 f. g_fiber_stack_size (uint32_type sizes (\<lambda>_. Inr '''')) \<lparr>datas = [], vars = []\<rparr> = Inr (Some 0, c1) \<and>
    LoadFromYaml demo_lib size_document ((), c1) = (None, w', c2) \<and>
    fibers (snd (new_fiber (\<lambda>_. Some 7) 0 c2 () 0 False no_fibers)) 0 = Some f \<and>
    fb_stacksize f = 65536 \<and> fb_stack f = Some 7"
proof -
  let ?T = "uint32_type sizes (\<lambda>_. Inr '''')" and ?c0 = "\<lparr>datas = [], vars = []\<rparr> :: (32 word, unit) config"
  obtain c1 where c1: "g_fiber_stack_size ?T ?c0 = Inr (Some 0, c1)"
    using size_names by (simp add: g_fiber_stack_size_def Lookup_def)
  have low: "map tolower ''fiber'' = ''fiber''" "map tolower ''fiber.stack_size'' = ''fiber.stack_size''"
    by (rule valid_name_lower, rule size_names)+
  have "\<exists>w' c2. LoadFromYaml demo_lib size_document ((), c1) = (None, w', c2)"
    using c1 size_names low
    by (auto simp: g_fiber_stack_size_def Lookup_def LoadFromYaml_def size_members load_member_def LookupBase_def
        ConfigVar_fromString_def ConfigVar_setValue_def ConfigVar_new_def uint32_type_def sizes_def)
  then obtain w' c2 where c2: "LoadFromYaml demo_lib size_document ((), c1) = (None, w', c2)" by blast
  obtain f where f: "fibers (snd (new_fiber (\<lambda>_. Some 7) 0 c2 () 0 False no_fibers)) (next_addr no_fibers) = Some f"
    by (simp add: new_fiber_def Fiber_new_def put_fiber_def no_fibers_def Let_def)
  have "texts demo_lib ''fiber.stack_size'' size_document = [''65536'']" by (simp add: texts_def size_members)
  then have "fb_stacksize f = 65536 \<and> fb_stack f = Some 7"
    using stack_size_configured [OF c1 _ _ c2 f] by (simp add: reg_ok_def assign_def uint32_type_def sizes_def)
  with c1 c2 f show ?thesis by (auto simp: no_fibers_def)
qed

end
