(* ===== verification/Lock_Order.thy ===== *)
theory Lock_Order
  imports Locks "HOL-Library.Product_Lexorder"
begin

text \<open>
  The locks of the whole library together. Each function is reduced to its locking skeleton: which
  locks it takes around what, with its conditions and loops left open. Any number of threads then
  run any operations of the library. The locks are ordered (registry, variable, event table,
  descriptor, scheduler, log manager, logger, root logger, appender), every function takes
  them in ascending order, and so no set of threads ever waits for each other, under either policy
  of a reader-writer lock. The two callbacks the library calls under a lock are parameters:
  listeners of a configuration variable and the visitor of the registry.
\<close>

section \<open>Skeletons\<close>

datatype lock =
    L_Config
  | L_Var nat
  | L_Table nat
  | L_Fd nat nat
  | L_Sched nat
  | L_LogMgr
  | L_Logger nat
  | L_Appender nat

text \<open>
  Sequence, an open condition, an open choice of an object, a loop of open length, and a guard:
  \<open>Locked x l s\<close> holds \<open>l\<close> (for writing or alone, if \<open>x\<close>; else for reading) around \<open>s\<close>.
\<close>

datatype skel =
    Skip
  | Seq skel skel
  | Choice skel skel
  | Any "nat \<Rightarrow> skel"
  | Many skel
  | Locked bool lock skel

abbreviation Maybe :: "skel \<Rightarrow> skel" where
  "Maybe s \<equiv> Choice Skip s"

text \<open>What a thread still has to do: statements, and guards to leave.\<close>

datatype frame = Do skel | Release bool lock

type_synonym threads = "frame list list"

text \<open>
  The state of a lock, in terms of the model of \<^verbatim>\<open>RWMutex\<close>; for a plain mutex only the
  exclusive mode is used. A reader-writer lock may let waiting writers go before new readers
  (\<open>wfirst\<close>), which POSIX leaves to the implementation.
\<close>

definition holds :: "bool \<Rightarrow> lock \<Rightarrow> frame list \<Rightarrow> bool" where
  "holds x l t \<longleftrightarrow> Release x l \<in> set t"

definition rw_of :: "threads \<Rightarrow> lock \<Rightarrow> rwmutex" where
  "rw_of c l = \<lparr>rw_writer = list_ex (holds True l) c, rw_readers = length (filter (holds False l) c)\<rparr>"

fun wants :: "frame list \<Rightarrow> (bool \<times> lock) option" where
  "wants (Do (Locked x l s) # k) = Some (x, l)"
| "wants _ = None"

definition takes :: "bool \<Rightarrow> bool \<Rightarrow> lock \<Rightarrow> threads \<Rightarrow> bool" where
  "takes wfirst x l c \<longleftrightarrow>
    (if x then RWMutex_wrlock (rw_of c l) \<noteq> None
     else RWMutex_rdlock (rw_of c l) \<noteq> None \<and> \<not> (wfirst \<and> Some (True, l) \<in> wants ` set c))"

inductive tstep :: "(bool \<Rightarrow> lock \<Rightarrow> bool) \<Rightarrow> frame list \<Rightarrow> frame list \<Rightarrow> bool" for free where
  t_skip: "tstep free (Do Skip # k) k"
| t_seq: "tstep free (Do (Seq a b) # k) (Do a # Do b # k)"
| t_left: "tstep free (Do (Choice a b) # k) (Do a # k)"
| t_right: "tstep free (Do (Choice a b) # k) (Do b # k)"
| t_any: "tstep free (Do (Any f) # k) (Do (f i) # k)"
| t_stop: "tstep free (Do (Many s) # k) k"
| t_again: "tstep free (Do (Many s) # k) (Do s # Do (Many s) # k)"
| t_lock: "free x l \<Longrightarrow> tstep free (Do (Locked x l s) # k) (Do s # Release x l # k)"
| t_unlock: "tstep free (Release x l # k) k"

inductive_cases tstep_skip: "tstep free (Do Skip # k) t"
inductive_cases tstep_locked: "tstep free (Do (Locked x l s) # k) t"

inductive lstep :: "bool \<Rightarrow> threads \<Rightarrow> threads \<Rightarrow> bool" for wfirst where
  l_step: "i < length c \<Longrightarrow> tstep (\<lambda>x l. takes wfirst x l c) (c ! i) t \<Longrightarrow> lstep wfirst c (c[i := t])"

inductive lreach :: "bool \<Rightarrow> threads \<Rightarrow> threads \<Rightarrow> bool" for wfirst c0 where
  l_start: "lreach wfirst c0 c0"
| l_more: "lreach wfirst c0 c \<Longrightarrow> lstep wfirst c c' \<Longrightarrow> lreach wfirst c0 c'"

text \<open>
  Thread \<open>i\<close> waits for thread \<open>j\<close>: \<open>j\<close> holds the lock \<open>i\<close> wants, or is the writer in
  front of it. A deadlock is a set of threads each of which waits for one of them.
\<close>

definition waits_for :: "bool \<Rightarrow> threads \<Rightarrow> nat \<Rightarrow> nat \<Rightarrow> bool" where
  "waits_for wfirst c i j \<longleftrightarrow> (\<exists>x l. wants (c ! i) = Some (x, l) \<and>
     (holds True l (c ! j) \<or> x \<and> holds False l (c ! j) \<or> wfirst \<and> \<not> x \<and> wants (c ! j) = Some (True, l)))"

definition deadlocked :: "bool \<Rightarrow> threads \<Rightarrow> nat set \<Rightarrow> bool" where
  "deadlocked wfirst c D \<longleftrightarrow> D \<noteq> {} \<and> D \<subseteq> {..< length c} \<and> (\<forall>i \<in> D. \<exists>j \<in> D. waits_for wfirst c i j)"

section \<open>The order of the locks\<close>

fun rank :: "lock \<Rightarrow> nat \<times> nat" where
  "rank L_Config = (0, 0)"
| "rank (L_Var v) = (1, v)"
| "rank (L_Table m) = (2, 0)"
| "rank (L_Fd m fd) = (3, 0)"
| "rank (L_Sched m) = (4, 0)"
| "rank L_LogMgr = (5, 0)"
| "rank (L_Logger n) = (6, if n = 0 then 1 else 0)"
| "rank (L_Appender a) = (7, 0)"

definition above :: "(nat \<times> nat) option \<Rightarrow> lock \<Rightarrow> bool" where
  "above b l \<longleftrightarrow> (case b of None \<Rightarrow> True | Some r \<Rightarrow> r < rank l)"

text \<open>Every lock a skeleton takes is above those it holds, the bound \<open>b\<close> included.\<close>

primrec ascending :: "(nat \<times> nat) option \<Rightarrow> skel \<Rightarrow> bool" where
  "ascending b Skip = True"
| "ascending b (Seq s t) = (ascending b s \<and> ascending b t)"
| "ascending b (Choice s t) = (ascending b s \<and> ascending b t)"
| "ascending b (Any f) = (\<forall>i. ascending b (f i))"
| "ascending b (Many s) = ascending b s"
| "ascending b (Locked x l s) = (above b l \<and> ascending (Some (rank l)) s)"

fun bound :: "frame list \<Rightarrow> (nat \<times> nat) option" where
  "bound [] = None"
| "bound (Do s # k) = bound k"
| "bound (Release x l # k) = Some (rank l)"

fun tok :: "frame list \<Rightarrow> bool" where
  "tok [] = True"
| "tok (Do s # k) = (ascending (bound k) s \<and> tok k)"
| "tok (Release x l # k) = (above (bound k) l \<and> tok k)"

lemma tok_step: "tstep free t t' \<Longrightarrow> tok t \<Longrightarrow> tok t'"
  by (induction rule: tstep.induct) auto

lemma tok_reach:
  assumes "lreach wfirst c0 c" "list_all tok c0"
  shows "list_all tok c"
  using assms
proof (induction rule: lreach.induct)
  case (l_more c c')
  from l_more.hyps(2) obtain i t where "i < length c" "tstep (\<lambda>x l. takes wfirst x l c) (c ! i) t" "c' = c[i := t]"
    by (auto elim: lstep.cases)
  with l_more.IH [OF l_more.prems] show ?case
    by (auto simp: list_all_length nth_list_update intro: tok_step)
qed

lemma tok_holds: "tok t \<Longrightarrow> holds x l t \<Longrightarrow> \<exists>r. bound t = Some r \<and> rank l \<le> r"
proof (induction t rule: tok.induct)
  case (3 y m k)
  show ?case
  proof (cases "l = m")
    case False
    with 3 obtain r where "bound k = Some r" "rank l \<le> r" by (auto simp: holds_def)
    with 3(2) show ?thesis by (auto simp: above_def intro: order.trans less_imp_le)
  qed simp
qed (auto simp: holds_def)

text \<open>A thread that holds one lock and wants another wants a higher one.\<close>

lemma wants_higher:
  assumes "tok t" "wants t = Some (x, l)" "holds y m t"
  shows "rank m < rank l"
proof -
  from assms(2) obtain s k where t: "t = Do (Locked x l s) # k" by (cases t rule: wants.cases) auto
  with tok_holds [of k y m] assms obtain r where "bound k = Some r" "rank m \<le> r" by (auto simp: holds_def)
  with t assms(1) show ?thesis by (auto simp: above_def)
qed

definition goal :: "frame list \<Rightarrow> (nat \<times> nat) \<times> bool" where
  "goal t = (case wants t of Some (x, l) \<Rightarrow> (rank l, x) | None \<Rightarrow> ((0, 0), False))"

text \<open>Along a chain of waiting threads the wanted locks ascend.\<close>

lemma waits_for_ascends:
  assumes "tok (c ! j)" "waits_for wfirst c i j" "wants (c ! j) = Some (y, m)"
  shows "goal (c ! i) < goal (c ! j)"
proof -
  from assms(2) obtain x l where w: "wants (c ! i) = Some (x, l)"
    "holds True l (c ! j) \<or> x \<and> holds False l (c ! j) \<or> \<not> x \<and> wants (c ! j) = Some (True, l)"
    by (auto simp: waits_for_def)
  with wants_higher [OF assms(1,3)] assms(3) show ?thesis by (auto simp: goal_def)
qed

lemma no_deadlock:
  assumes "list_all tok c"
  shows "\<not> deadlocked wfirst c D"
proof
  assume D: "deadlocked wfirst c D"
  then have fin: "finite D" and ne: "D \<noteq> {}" by (auto simp: deadlocked_def intro: finite_subset)
  define r where "r i = goal (c ! i)" for i
  have "Max (r ` D) \<in> r ` D" using fin ne by (intro Max_in) auto
  then obtain i where i: "i \<in> D" "r i = Max (r ` D)" by auto
  with D obtain j where j: "j \<in> D" "waits_for wfirst c i j" by (auto simp: deadlocked_def)
  with D obtain k where "waits_for wfirst c j k" by (auto simp: deadlocked_def)
  then obtain y m where "wants (c ! j) = Some (y, m)" by (auto simp: waits_for_def)
  moreover have "tok (c ! j)" using assms D j(1) by (auto simp: deadlocked_def list_all_length)
  ultimately have "r i < r j" using j(2) by (simp add: r_def waits_for_ascends)
  moreover have "r j \<le> Max (r ` D)" using fin j(1) by simp
  ultimately show False using i(2) by simp
qed

text \<open>A thread that cannot go on waits for another one.\<close>

lemma blocked_waits:
  assumes "i < length c" "c ! i \<noteq> []" "\<not> (\<exists>c'. lstep wfirst c c')"
  shows "\<exists>j < length c. waits_for wfirst c i j"
proof -
  have no: "\<not> tstep (\<lambda>x l. takes wfirst x l c) (c ! i) t" for t using assms(1,3) l_step by blast
  obtain a k where a: "c ! i = a # k" using assms(2) by (cases "c ! i") auto
  have "\<exists>x l s. a = Do (Locked x l s)"
  proof (cases a)
    case (Do s)
    with no a show ?thesis by (cases s) (auto intro: tstep.intros)
  qed (use no a in \<open>auto intro: tstep.intros\<close>)
  then obtain x l s where s: "c ! i = Do (Locked x l s) # k" using a by auto
  then have "\<not> takes wfirst x l c" using no t_lock [of "\<lambda>x l. takes wfirst x l c" x l s k] by auto
  then have "(\<exists>t \<in> set c. holds True l t \<or> x \<and> holds False l t) \<or> wfirst \<and> \<not> x \<and> (\<exists>t \<in> set c. wants t = Some (True, l))"
    by (auto simp: takes_def rw_of_def RWMutex_wrlock_def RWMutex_rdlock_def list_ex_iff filter_empty_conv
        split: if_splits)
  then show ?thesis using s by (auto simp: waits_for_def in_set_conv_nth)
qed

lemma wants_nonempty: "waits_for wfirst c i j \<Longrightarrow> c ! j \<noteq> []"
  by (auto simp: waits_for_def holds_def)

text \<open>Where nobody can be deadlocked, somebody can go on, unless everybody is done.\<close>

lemma progress:
  assumes "list_all tok c"
  shows "list_all (\<lambda>t. t = []) c \<or> (\<exists>c'. lstep wfirst c c')"
proof (rule ccontr)
  assume no: "\<not> ?thesis"
  let ?D = "{i. i < length c \<and> c ! i \<noteq> []}"
  have "?D \<noteq> {}" using no by (auto simp: list_all_length)
  moreover have "\<exists>j \<in> ?D. waits_for wfirst c i j" if "i \<in> ?D" for i
    using that no blocked_waits [of i c wfirst] wants_nonempty by blast
  ultimately have "deadlocked wfirst c ?D" by (auto simp: deadlocked_def)
  with no_deadlock [OF assms] show False by blast
qed


section \<open>Logging\<close>

text \<open>
  Appenders and loggers by number; logger 0 is the root logger, the only one without a root.
  A condition on data (a level, an empty list) is a \<open>Choice\<close>.
\<close>

definition sk_LogAppender_setFormatter :: "nat \<Rightarrow> skel" where
  "sk_LogAppender_setFormatter a = Locked True (L_Appender a) Skip"

definition sk_LogAppender_getFormatter :: "nat \<Rightarrow> skel" where
  "sk_LogAppender_getFormatter a = Locked True (L_Appender a) Skip"

definition sk_StdoutLogAppender_log :: "nat \<Rightarrow> skel" where
  "sk_StdoutLogAppender_log a = Maybe (Locked True (L_Appender a) Skip)"

definition sk_reopen :: "nat \<Rightarrow> skel" where
  "sk_reopen a = Locked True (L_Appender a) Skip"

text \<open>The file appender reopens its file under the lock, then takes the lock again to write.\<close>

definition sk_FileLogAppender_log :: "nat \<Rightarrow> skel" where
  "sk_FileLogAppender_log a = Maybe (Seq (Maybe (sk_reopen a)) (Locked True (L_Appender a) Skip))"

definition sk_StdoutLogAppender_toYamlString :: "nat \<Rightarrow> skel" where
  "sk_StdoutLogAppender_toYamlString a = Locked True (L_Appender a) Skip"

definition sk_FileLogAppender_toYamlString :: "nat \<Rightarrow> skel" where
  "sk_FileLogAppender_toYamlString a = Locked True (L_Appender a) Skip"

definition sk_appender_log :: "nat \<Rightarrow> skel" where
  "sk_appender_log a = Choice (sk_StdoutLogAppender_log a) (sk_FileLogAppender_log a)"

definition sk_appender_yaml :: "nat \<Rightarrow> skel" where
  "sk_appender_yaml a = Choice (sk_StdoutLogAppender_toYamlString a) (sk_FileLogAppender_toYamlString a)"

text \<open>
  \<^verbatim>\<open>Logger::log\<close> holds the logger's lock while it calls the appenders, or the root logger.
\<close>

definition sk_root_log :: skel where
  "sk_root_log = Maybe (Locked True (L_Logger 0) (Many (Any sk_appender_log)))"

definition sk_Logger_log :: "nat \<Rightarrow> skel" where
  "sk_Logger_log g =
    (if g = 0 then sk_root_log
     else Maybe (Locked True (L_Logger g) (Choice (Many (Any sk_appender_log)) (Maybe sk_root_log))))"

definition sk_Logger_addAppender :: "nat \<Rightarrow> skel" where
  "sk_Logger_addAppender g = Locked True (L_Logger g)
     (Any (\<lambda>a. Seq (sk_LogAppender_getFormatter a) (Maybe (sk_LogAppender_setFormatter a))))"

definition sk_Logger_delAppender :: "nat \<Rightarrow> skel" where
  "sk_Logger_delAppender g = Locked True (L_Logger g) Skip"

definition sk_Logger_clearAppenders :: "nat \<Rightarrow> skel" where
  "sk_Logger_clearAppenders g = Locked True (L_Logger g) Skip"

definition sk_Logger_setFormatter :: "nat \<Rightarrow> skel" where
  "sk_Logger_setFormatter g = Locked True (L_Logger g) (Many (Any (\<lambda>a. Locked True (L_Appender a) Skip)))"

definition sk_Logger_setFormatter_text :: "nat \<Rightarrow> skel" where
  "sk_Logger_setFormatter_text g = Maybe (sk_Logger_setFormatter g)"

definition sk_Logger_toYamlString :: "nat \<Rightarrow> skel" where
  "sk_Logger_toYamlString g = Locked True (L_Logger g) (Many (Any sk_appender_yaml))"

definition sk_Logger_getFormatter :: "nat \<Rightarrow> skel" where
  "sk_Logger_getFormatter g = Locked True (L_Logger g) Skip"

definition sk_LogManager_getLogger :: skel where
  "sk_LogManager_getLogger = Locked True L_LogMgr Skip"

definition sk_LogManager_toYamlString :: skel where
  "sk_LogManager_toYamlString = Locked True L_LogMgr (Many (Any sk_Logger_toYamlString))"

text \<open>
  A statement of a logging macro, whose wrapper logs when it is destroyed; the same for the named
  logger of a file (\<^verbatim>\<open>g_logger\<close>); and \<^verbatim>\<open>VITY_ASSERT\<close>, where taking the
  backtrace may log an error of its own.
\<close>

definition sk_VITY_LOG :: "nat \<Rightarrow> skel" where
  "sk_VITY_LOG g = Maybe (sk_Logger_log g)"

definition sk_system_log :: skel where
  "sk_system_log = Any sk_VITY_LOG"

definition sk_BacktraceToString :: skel where
  "sk_BacktraceToString = Maybe sk_system_log"

definition sk_VITY_ASSERT :: skel where
  "sk_VITY_ASSERT = Maybe (Seq sk_BacktraceToString (sk_VITY_LOG 0))"

section \<open>Configuration\<close>

text \<open>
  \<open>L v\<close> is what a listener of variable \<open>v\<close> does with locks. An exception leaves the guards
  of \<^verbatim>\<open>toString\<close> and \<^verbatim>\<open>fromString\<close> before it is logged.
\<close>

definition sk_ConfigVar_toString :: "nat \<Rightarrow> skel" where
  "sk_ConfigVar_toString v = Seq (Locked False (L_Var v) Skip) (Maybe (sk_VITY_LOG 0))"

definition sk_ConfigVar_getValue :: "nat \<Rightarrow> skel" where
  "sk_ConfigVar_getValue v = Locked False (L_Var v) Skip"

definition sk_ConfigVar_setValue :: "(nat \<Rightarrow> skel) \<Rightarrow> nat \<Rightarrow> skel" where
  "sk_ConfigVar_setValue L v =
     Seq (Locked False (L_Var v) (Maybe (Many (L v)))) (Maybe (Locked True (L_Var v) Skip))"

definition sk_ConfigVar_fromString :: "(nat \<Rightarrow> skel) \<Rightarrow> nat \<Rightarrow> skel" where
  "sk_ConfigVar_fromString L v = Seq (Maybe (sk_ConfigVar_setValue L v)) (Maybe (sk_VITY_LOG 0))"

definition sk_ConfigVar_addListener :: "nat \<Rightarrow> skel" where
  "sk_ConfigVar_addListener v = Locked True (L_Var v) Skip"

definition sk_ConfigVar_delListener :: "nat \<Rightarrow> skel" where
  "sk_ConfigVar_delListener v = Locked True (L_Var v) Skip"

definition sk_ConfigVar_getListener :: "nat \<Rightarrow> skel" where
  "sk_ConfigVar_getListener v = Locked False (L_Var v) Skip"

definition sk_ConfigVar_clearListener :: "nat \<Rightarrow> skel" where
  "sk_ConfigVar_clearListener v = Locked True (L_Var v) Skip"

text \<open>The creating lookup logs under the lock of the registry, and prints the variable it found.\<close>

definition sk_Lookup :: skel where
  "sk_Lookup = Locked True L_Config
     (Choice (sk_VITY_LOG 0) (Maybe (Seq (Any sk_ConfigVar_toString) (sk_VITY_LOG 0))))"

definition sk_Lookup_find :: skel where
  "sk_Lookup_find = Locked False L_Config Skip"

definition sk_LookupBase :: skel where
  "sk_LookupBase = Locked False L_Config Skip"

definition sk_ListAllMember :: skel where
  "sk_ListAllMember = Many (sk_VITY_LOG 0)"

definition sk_LoadFromYaml :: "(nat \<Rightarrow> skel) \<Rightarrow> skel" where
  "sk_LoadFromYaml L = Seq sk_ListAllMember (Many (Seq sk_LookupBase (Maybe (Any (sk_ConfigVar_fromString L)))))"

definition sk_Visit :: "skel \<Rightarrow> skel" where
  "sk_Visit V = Locked False L_Config (Many V)"

text \<open>The library's own listener, of the variable \<^verbatim>\<open>logs\<close>.\<close>

definition sk_new_appender :: "nat \<Rightarrow> skel" where
  "sk_new_appender g =
    Seq (Any (\<lambda>a. Seq (Maybe (sk_reopen a)) (Maybe (sk_LogAppender_setFormatter a)))) (sk_Logger_addAppender g)"

definition sk_on_logger_conf_changed :: skel where
  "sk_on_logger_conf_changed =
    Seq (sk_VITY_LOG 0)
      (Seq
        (Many (Any (\<lambda>g. Seq (Maybe sk_LogManager_getLogger)
           (Seq (Maybe (sk_Logger_setFormatter_text g))
             (Seq (sk_Logger_clearAppenders g) (Many (sk_new_appender g)))))))
        (Many (Any (\<lambda>g. Maybe (Seq sk_LogManager_getLogger (sk_Logger_clearAppenders g))))))"

section \<open>Fibers, threads, scheduler, events\<close>

text \<open>A fiber's constructor reads the variable \<^verbatim>\<open>fiber.stack_size\<close>.\<close>

definition sk_Fiber_new :: skel where
  "sk_Fiber_new = Seq (Maybe (Any sk_ConfigVar_getValue)) (Seq sk_VITY_ASSERT sk_system_log)"

definition sk_Fiber_delete :: skel where
  "sk_Fiber_delete = Seq (Many sk_VITY_ASSERT) sk_system_log"

definition sk_Fiber_GetThis :: skel where
  "sk_Fiber_GetThis = Maybe (Seq (Seq sk_VITY_ASSERT sk_system_log) sk_VITY_ASSERT)"

definition sk_Thread_new :: skel where
  "sk_Thread_new = Maybe sk_system_log"

definition sk_tickle :: skel where
  "sk_tickle = Choice sk_system_log sk_VITY_ASSERT"

definition sk_schedule :: "nat \<Rightarrow> skel" where
  "sk_schedule m = Seq (Locked True (L_Sched m) Skip) (Maybe sk_tickle)"

definition sk_stopping :: "nat \<Rightarrow> skel" where
  "sk_stopping m = Maybe (Locked True (L_Sched m) Skip)"

definition sk_start :: "nat \<Rightarrow> skel" where
  "sk_start m = Locked True (L_Sched m) (Maybe (Seq sk_VITY_ASSERT (Many sk_Thread_new)))"

definition sk_stop :: "nat \<Rightarrow> skel" where
  "sk_stop m = Seq (Maybe (Seq sk_system_log (sk_stopping m)))
     (Maybe (Seq sk_VITY_ASSERT (Seq (Many sk_tickle) (Seq (Maybe (sk_stopping m))
        (Seq (Locked True (L_Sched m) Skip) (Many (Maybe sk_system_log)))))))"

text \<open>One round of the loop \<^verbatim>\<open>run\<close> up to the switch, and what follows the switch.\<close>

definition sk_run_take :: "nat \<Rightarrow> skel" where
  "sk_run_take m = Seq (Locked True (L_Sched m) (Many sk_VITY_ASSERT)) (Maybe sk_tickle)"

definition sk_run_finish :: "nat \<Rightarrow> skel" where
  "sk_run_finish m = Seq (Maybe sk_Fiber_new) (Seq (Many sk_VITY_ASSERT)
     (Seq (Maybe (sk_schedule m)) (Seq (Maybe sk_Fiber_delete) (Maybe sk_system_log))))"

definition sk_triggerEvent :: skel where
  "sk_triggerEvent = Seq sk_VITY_ASSERT (Seq sk_VITY_ASSERT (Any sk_schedule))"

definition sk_resetContext :: skel where
  "sk_resetContext = Maybe sk_Fiber_delete"

definition sk_addEvent :: "nat \<Rightarrow> skel" where
  "sk_addEvent m = Seq (Locked False (L_Table m) Skip) (Seq (Maybe (Locked True (L_Table m) Skip))
     (Any (\<lambda>fd. Locked True (L_Fd m fd)
        (Seq (Maybe (Seq sk_system_log sk_VITY_ASSERT))
          (Choice sk_system_log (Seq sk_VITY_ASSERT (Seq sk_VITY_ASSERT (Maybe (Seq sk_Fiber_GetThis sk_VITY_ASSERT)))))))))"

definition sk_delEvent :: "nat \<Rightarrow> skel" where
  "sk_delEvent m = Seq (Locked False (L_Table m) Skip)
     (Maybe (Any (\<lambda>fd. Locked True (L_Fd m fd) (Maybe (Choice sk_system_log (Seq sk_VITY_ASSERT sk_resetContext))))))"

definition sk_cancelEvent :: "nat \<Rightarrow> skel" where
  "sk_cancelEvent m = Seq (Locked False (L_Table m) Skip)
     (Maybe (Any (\<lambda>fd. Locked True (L_Fd m fd) (Maybe (Choice sk_system_log sk_triggerEvent)))))"

definition sk_cancelAll :: "nat \<Rightarrow> skel" where
  "sk_cancelAll m = Seq (Locked False (L_Table m) Skip)
     (Maybe (Any (\<lambda>fd. Locked True (L_Fd m fd)
        (Maybe (Choice sk_system_log (Seq (Maybe sk_triggerEvent) (Seq (Maybe sk_triggerEvent) sk_VITY_ASSERT)))))))"

text \<open>The two idle loops; that of the IO manager waits in epoll, with no lock held.\<close>

definition sk_Scheduler_idle :: "nat \<Rightarrow> skel" where
  "sk_Scheduler_idle m = Seq sk_system_log (Many (Seq (sk_stopping m) (Maybe sk_Fiber_GetThis)))"

definition sk_idle :: "nat \<Rightarrow> skel" where
  "sk_idle m = Many (Seq (sk_stopping m) (Choice sk_system_log (Seq
     (Many (Any (\<lambda>fd. Locked True (L_Fd m fd)
        (Maybe (Choice sk_system_log (Seq (Maybe sk_triggerEvent) (Maybe sk_triggerEvent)))))))
     sk_Fiber_GetThis)))"

section \<open>No deadlock\<close>

fun any_of :: "skel list \<Rightarrow> skel" where
  "any_of [] = Skip"
| "any_of (s # ss) = Choice s (any_of ss)"

definition logging_entries :: "skel list" where
  "logging_entries = [Any sk_VITY_LOG, Any sk_Logger_log, Any sk_Logger_addAppender, Any sk_Logger_delAppender,
     Any sk_Logger_clearAppenders, Any sk_Logger_setFormatter, Any sk_Logger_setFormatter_text,
     Any sk_Logger_toYamlString, Any sk_Logger_getFormatter, Any sk_LogAppender_setFormatter,
     Any sk_LogAppender_getFormatter, Any sk_appender_log, Any sk_appender_yaml, Any sk_reopen,
     sk_LogManager_getLogger, sk_LogManager_toYamlString, sk_VITY_ASSERT]"

definition config_entries :: "(nat \<Rightarrow> skel) \<Rightarrow> skel \<Rightarrow> skel list" where
  "config_entries L V = [Any sk_ConfigVar_toString, Any sk_ConfigVar_getValue, Any (sk_ConfigVar_setValue L),
     Any (sk_ConfigVar_fromString L), Any sk_ConfigVar_addListener, Any sk_ConfigVar_delListener,
     Any sk_ConfigVar_getListener, Any sk_ConfigVar_clearListener, sk_Lookup, sk_Lookup_find, sk_LookupBase,
     sk_LoadFromYaml L, sk_Visit V]"

definition scheduler_entries :: "skel list" where
  "scheduler_entries = [sk_Fiber_new, sk_Fiber_delete, sk_Fiber_GetThis, sk_Thread_new, Any sk_schedule,
     Any sk_stopping, Any sk_start, Any sk_stop, Any sk_run_take, Any sk_run_finish, Any sk_addEvent,
     Any sk_delEvent, Any sk_cancelEvent, Any sk_cancelAll, Any sk_Scheduler_idle, Any sk_idle]"

text \<open>Any operations, in any order.\<close>

definition client :: "(nat \<Rightarrow> skel) \<Rightarrow> skel \<Rightarrow> skel" where
  "client L V = Many (any_of (logging_entries @ config_entries L V @ scheduler_entries))"

lemma ascending_any_of: "ascending b (any_of ss) = list_all (ascending b) ss"
  by (induction ss) auto

lemma above_simps [simp]: "above None l" "above (Some r) l = (r < rank l)"
  by (simp_all add: above_def)

lemmas logging_sk = sk_LogAppender_setFormatter_def sk_LogAppender_getFormatter_def sk_StdoutLogAppender_log_def
  sk_reopen_def sk_FileLogAppender_log_def sk_StdoutLogAppender_toYamlString_def sk_FileLogAppender_toYamlString_def
  sk_appender_log_def sk_appender_yaml_def sk_root_log_def sk_Logger_log_def sk_Logger_addAppender_def
  sk_Logger_delAppender_def sk_Logger_clearAppenders_def sk_Logger_setFormatter_def sk_Logger_setFormatter_text_def
  sk_Logger_toYamlString_def sk_Logger_getFormatter_def sk_LogManager_getLogger_def sk_LogManager_toYamlString_def
  sk_VITY_LOG_def sk_system_log_def sk_BacktraceToString_def sk_VITY_ASSERT_def

text \<open>Logging may happen under every lock below those of the loggers.\<close>

definition low :: "(nat \<times> nat) option \<Rightarrow> bool" where
  "low b \<longleftrightarrow> (case b of None \<Rightarrow> True | Some r \<Rightarrow> fst r < 6)"

lemma ascending_log [simp]: "low b \<Longrightarrow> ascending b (sk_VITY_LOG g)" "low b \<Longrightarrow> ascending b sk_VITY_ASSERT"
  "low b \<Longrightarrow> ascending b sk_system_log"
  by (auto simp: low_def above_def logging_sk less_prod_def' split: option.splits)


lemma ascending_logging: "list_all (ascending None) logging_entries"
  by (simp add: logging_entries_def logging_sk)

lemmas config_sk = sk_ConfigVar_toString_def sk_ConfigVar_getValue_def sk_ConfigVar_setValue_def
  sk_ConfigVar_fromString_def sk_ConfigVar_addListener_def sk_ConfigVar_delListener_def sk_ConfigVar_getListener_def
  sk_ConfigVar_clearListener_def sk_Lookup_def sk_Lookup_find_def sk_LookupBase_def sk_ListAllMember_def
  sk_LoadFromYaml_def sk_Visit_def

lemma low_simps [simp]: "low None" "low (Some r) = (fst r < 6)"
  by (simp_all add: low_def)

lemma ascending_config:
  assumes "\<And>v. ascending (Some (rank (L_Var v))) (L v)" "ascending (Some (rank L_Config)) V"
  shows "list_all (ascending None) (config_entries L V)"
  using assms by (simp add: config_entries_def config_sk)

lemmas scheduler_sk = sk_Fiber_new_def sk_Fiber_delete_def sk_Fiber_GetThis_def sk_Thread_new_def sk_tickle_def
  sk_schedule_def sk_stopping_def sk_start_def sk_stop_def sk_run_take_def sk_run_finish_def sk_triggerEvent_def
  sk_resetContext_def sk_addEvent_def sk_delEvent_def sk_cancelEvent_def sk_cancelAll_def sk_Scheduler_idle_def sk_idle_def
  sk_ConfigVar_getValue_def

lemma ascending_scheduler: "list_all (ascending None) scheduler_entries"
  by (simp add: scheduler_entries_def scheduler_sk)

text \<open>
  C17. The library does not deadlock. Any number of threads run any operations of the library
  in any order and interleaving; listeners and visitors take only locks above the one they are
  called under. Then no set of threads ever waits for one another, and as long as some thread
  is not done, some thread can go on.
\<close>
theorem library_deadlock_free:
  assumes "\<And>v. ascending (Some (rank (L_Var v))) (L v)" and "ascending (Some (rank L_Config)) V"
    and "lreach wfirst (replicate n [Do (client L V)]) c"
  shows "\<not> deadlocked wfirst c D \<and> (list_all (\<lambda>t. t = []) c \<or> (\<exists>c'. lstep wfirst c c'))"
proof -
  have "ascending None (client L V)"
    using ascending_logging ascending_config [OF assms(1,2)] ascending_scheduler
    by (simp add: client_def ascending_any_of)
  then have "list_all tok (replicate n [Do (client L V)])" by (simp add: list_all_length)
  with assms(3) have "list_all tok c" by (rule tok_reach)
  with no_deadlock progress show ?thesis by blast
qed

text \<open>The library's own listener is such a listener.\<close>

lemma logs_listener_ascending: "ascending (Some (rank (L_Var v))) sk_on_logger_conf_changed"
  by (simp add: sk_on_logger_conf_changed_def sk_new_appender_def logging_sk)

text \<open>Two threads that log to the same logger: one is inside, the other waits for it.\<close>

definition demo_client :: skel where
  "demo_client = client (\<lambda>_. sk_on_logger_conf_changed) (Any sk_ConfigVar_toString)"

definition demo_logging :: skel where
  "demo_logging = Choice (Many (Any sk_appender_log)) (Maybe sk_root_log)"

lemma thread_goes:
  assumes "lreach wfirst c0 (c[i := t])" "i < length c" "tstep (\<lambda>x l. takes wfirst x l (c[i := t])) t t'"
  shows "lreach wfirst c0 (c[i := t'])"
proof -
  have "lstep wfirst (c[i := t]) ((c[i := t])[i := t'])" using assms(2,3) by (intro l_step) simp_all
  with l_more [OF assms(1)] show ?thesis by simp
qed

lemma demo_enters:
  assumes "lreach wfirst c0 (c[i := [Do demo_client]])" "i < length c"
  shows "lreach wfirst c0 (c[i := [Do (Locked True (L_Logger 5) demo_logging), Do demo_client]])"
proof -
  note go = thread_goes [OF _ assms(2)]
  obtain rest where client: "demo_client = Many (Choice (Any sk_VITY_LOG) rest)"
    by (simp add: demo_client_def client_def logging_entries_def)
  have log: "sk_Logger_log 5 = Maybe (Locked True (L_Logger 5) demo_logging)"
    by (simp add: sk_Logger_log_def demo_logging_def)
  from assms(1) have "lreach wfirst c0 (c[i := [Do (Choice (Any sk_VITY_LOG) rest), Do demo_client]])"
    by (rule go) (simp add: client t_again)
  then have "lreach wfirst c0 (c[i := [Do (Any sk_VITY_LOG), Do demo_client]])" by (rule go) (rule t_left)
  then have "lreach wfirst c0 (c[i := [Do (sk_VITY_LOG 5), Do demo_client]])" by (rule go) (rule t_any)
  then have "lreach wfirst c0 (c[i := [Do (sk_Logger_log 5), Do demo_client]])"
    by (rule go) (simp add: sk_VITY_LOG_def t_right)
  then show ?thesis by (rule go) (simp add: log t_right)
qed

theorem library_deadlock_free_witness:
  "\<exists>c. lreach True (replicate 2 [Do demo_client]) c \<and> waits_for True c 1 0 \<and> \<not> deadlocked True c {0, 1}"
proof -
  let ?c0 = "replicate 2 [Do demo_client]" and ?l = "Do (Locked True (L_Logger 5) demo_logging)"
  let ?in = "[Do demo_logging, Release True (L_Logger 5), Do demo_client]"
  have two: "?c0 = [[Do demo_client], [Do demo_client]]" by (simp add: numeral_2_eq_2)
  have "lreach True ?c0 (?c0[0 := [Do demo_client]])" by (simp add: two l_start)
  then have "lreach True ?c0 (?c0[0 := [?l, Do demo_client]])" by (rule demo_enters) simp
  then have "lreach True ?c0 (?c0[0 := ?in])"
    by (rule thread_goes) (simp_all add: two t_lock takes_def rw_of_def RWMutex_wrlock_def holds_def)
  then have "lreach True ?c0 ([?in, [Do demo_client]][1 := [Do demo_client]])" by (simp add: two)
  then have "lreach True ?c0 ([?in, [Do demo_client]][1 := [?l, Do demo_client]])" by (rule demo_enters) simp
  then have c: "lreach True ?c0 [?in, [?l, Do demo_client]]" by simp
  have "ascending (Some (rank L_Config)) (Any sk_ConfigVar_toString)" by (simp add: sk_ConfigVar_toString_def)
  from library_deadlock_free [OF logs_listener_ascending this c [unfolded demo_client_def]]
  have "\<not> deadlocked True [?in, [?l, Do demo_client]] {0, 1}" unfolding demo_client_def by blast
  moreover have "waits_for True [?in, [?l, Do demo_client]] 1 0" 
    unfolding waits_for_def by (intro exI [of _ True] exI [of _ "L_Logger 5"]) (simp add: holds_def)
  ultimately show ?thesis using c by blast
qed

section \<open>A listener that sets its own variable\<close>

lemma lreach_alone:
  "lreach wfirst c0 [t] \<Longrightarrow> tstep (\<lambda>x l. takes wfirst x l [t]) t t' \<Longrightarrow> lreach wfirst c0 [t']"
  using l_more [of wfirst c0 "[t]" "[t']"] l_step [of 0 "[t]" wfirst t'] by simp

text \<open>A thread that waits for itself waits for ever.\<close>

lemma self_wait_stays:
  assumes "waits_for wfirst c i i" "i < length c" "lstep wfirst c c'"
  shows "c' ! i = c ! i \<and> length c' = length c"
proof -
  obtain x l where w: "wants (c ! i) = Some (x, l)" "holds True l (c ! i) \<or> x \<and> holds False l (c ! i)"
    using assms(1) by (auto simp: waits_for_def)
  obtain s k where s: "c ! i = Do (Locked x l s) # k" using w(1) by (cases "c ! i" rule: wants.cases) auto
  have "\<exists>t \<in> set c. holds True l t \<or> x \<and> holds False l t" using w(2) assms(2) nth_mem by blast
  then have "\<not> takes wfirst x l c"
    by (auto simp: takes_def rw_of_def RWMutex_wrlock_def RWMutex_rdlock_def list_ex_iff filter_empty_conv)
  then have "\<not> tstep (\<lambda>x l. takes wfirst x l c) (c ! i) t" for t using s by (auto elim: tstep_locked)
  with assms(3) show ?thesis by (auto elim!: lstep.cases simp: nth_list_update)
qed

definition setting_listener :: "nat \<Rightarrow> skel" where
  "setting_listener v = sk_ConfigVar_setValue (\<lambda>_. Skip) v"

definition stuck_thread :: "nat \<Rightarrow> frame list" where
  "stuck_thread v = [Do (Locked True (L_Var v) Skip), Do (Many (setting_listener v)), Release False (L_Var v),
     Do (Maybe (Locked True (L_Var v) Skip))]"

lemma reaches_stuck_thread:
  "lreach wfirst [[Do (sk_ConfigVar_setValue setting_listener v)]] [stuck_thread v]"
proof -
  let ?l = "L_Var v" and ?set = "setting_listener v" and ?w = "Do (Maybe (Locked True (L_Var v) Skip))"
  let ?r = "Do (Many (setting_listener v)) # Release False (L_Var v) # [Do (Maybe (Locked True (L_Var v) Skip))]"
  note go = lreach_alone
  have "lreach wfirst [[Do (sk_ConfigVar_setValue setting_listener v)]] [[Do (sk_ConfigVar_setValue setting_listener v)]]"
    by (rule l_start)
  then have "lreach wfirst [[Do (sk_ConfigVar_setValue setting_listener v)]] [[Do (Locked False ?l (Maybe (Many ?set))), ?w]]"
    by (rule go) (simp add: sk_ConfigVar_setValue_def t_seq)
  then have "lreach wfirst [[Do (sk_ConfigVar_setValue setting_listener v)]] [[Do (Maybe (Many ?set)), Release False ?l, ?w]]"
    by (rule go) (rule t_lock, simp add: takes_def rw_of_def RWMutex_rdlock_def holds_def)
  then have "lreach wfirst [[Do (sk_ConfigVar_setValue setting_listener v)]] [Do (Many ?set) # Release False ?l # [?w]]"
    by (rule go) (rule t_right)
  then have "lreach wfirst [[Do (sk_ConfigVar_setValue setting_listener v)]] [Do ?set # ?r]"
    by (rule go) (rule t_again)
  then have "lreach wfirst [[Do (sk_ConfigVar_setValue setting_listener v)]] [Do (Locked False ?l (Maybe (Many Skip))) # ?w # ?r]"
    by (rule go) (simp only: setting_listener_def sk_ConfigVar_setValue_def, rule t_seq)
  then have "lreach wfirst [[Do (sk_ConfigVar_setValue setting_listener v)]] [Do (Maybe (Many Skip)) # Release False ?l # ?w # ?r]"
    by (rule go) (rule t_lock, simp add: takes_def rw_of_def RWMutex_rdlock_def holds_def)
  then have "lreach wfirst [[Do (sk_ConfigVar_setValue setting_listener v)]] [Do Skip # Release False ?l # ?w # ?r]"
    by (rule go) (rule t_left)
  then have "lreach wfirst [[Do (sk_ConfigVar_setValue setting_listener v)]] [Release False ?l # ?w # ?r]"
    by (rule go) (rule t_skip)
  then have "lreach wfirst [[Do (sk_ConfigVar_setValue setting_listener v)]] [?w # ?r]"
    by (rule go) (rule t_unlock)
  then show ?thesis
    by (rule go) (simp add: stuck_thread_def t_right)
qed

text \<open>
  A listener that assigns its own variable again, with a value that differs, stops its thread for
  ever: the inner \<^verbatim>\<open>setValue\<close> waits for the write lock while the outer one holds the read
  lock. Whatever the other threads do, the thread never moves again.
\<close>
theorem listener_sets_own_variable:
  "\<exists>c. lreach wfirst [[Do (sk_ConfigVar_setValue setting_listener v)]] c \<and> deadlocked wfirst c {0} \<and>
     (\<forall>others c'. lreach wfirst (c @ others) c' \<longrightarrow> c' ! 0 = c ! 0)"
proof (intro exI conjI allI impI)
  show "lreach wfirst [[Do (sk_ConfigVar_setValue setting_listener v)]] [stuck_thread v]" by (rule reaches_stuck_thread)
  have self: "waits_for wfirst c 0 0" if "c ! 0 = stuck_thread v" for c
    unfolding waits_for_def using that by (intro exI [of _ True]) (simp add: stuck_thread_def holds_def)
  then show "deadlocked wfirst [stuck_thread v] {0}" by (simp add: deadlocked_def)
  fix others c' assume "lreach wfirst ([stuck_thread v] @ others) c'"
  then have "c' ! 0 = stuck_thread v \<and> 0 < length c'"
  proof (induction rule: lreach.induct)
    case (l_more c c')
    from l_more.IH have "c ! 0 = stuck_thread v" "0 < length c" by blast+
    with self_wait_stays [OF self _ l_more.hyps(2)] show ?case by metis
  qed simp
  then show "c' ! 0 = [stuck_thread v] ! 0" by simp
qed

theorem listener_sets_own_variable_witness:
  "\<exists>c. lreach True [[Do (sk_ConfigVar_setValue setting_listener 3)]] c \<and> deadlocked True c {0} \<and>
     lreach True (c @ [[Do Skip]]) (c @ [[]]) \<and> (c @ [[]]) ! 0 = c ! 0"
proof -
  obtain c where c: "lreach True [[Do (sk_ConfigVar_setValue setting_listener 3)]] c" "deadlocked True c {0}"
    "\<forall>others c'. lreach True (c @ others) c' \<longrightarrow> c' ! 0 = c ! 0"
    using listener_sets_own_variable [of True 3] by blast
  have "lstep True (c @ [[Do Skip]]) ((c @ [[Do Skip]])[length c := []])" by (rule l_step) (simp_all add: t_skip)
  then have "lreach True (c @ [[Do Skip]]) (c @ [[]])" using l_more [OF l_start] by simp
  with c show ?thesis by blast
qed

end
