(* ===== verification/Config_Race.thy ===== *)
theory Config_Race
  imports Config Locks
begin

text \<open>
  \<^verbatim>\<open>ConfigVar::setValue\<close> and \<^verbatim>\<open>addListener\<close> of \<^verbatim>\<open>vity/config.h\<close>, called by
  several threads on one variable: each cut at the points where another thread can act, over the
  reader-writer lock of \<open>Locks\<close>. A thread alone does what \<open>ConfigVar_setValue\<close> says; several keep
  listeners and stores apart, but the check and the notification are one critical section and the
  store is another, so the last value told need not be the value stored. The counter of the listener
  ids is shared by all variables of a type while each holds only its own lock.
\<close>

section \<open>Assignments by several threads\<close>

text \<open>
  Where a thread stands in \<^verbatim>\<open>setValue\<close>: outside; with the read lock, before the comparison;
  with listeners left to tell; between the two locks; with the write lock. A listener that throws
  leaves the function.
\<close>

datatype ('v, 'w) set_pc =
    Set_Out
  | Set_Check 'v
  | Set_Tell 'v "('v, 'w) listener list"
  | Set_Between 'v
  | Set_Store 'v

record ('v, 'w) set_sys =
  ss_lock :: rwmutex
  ss_world :: 'w
  ss_var :: "('v, 'w) config_var"
  ss_pc :: "nat \<Rightarrow> ('v, 'w) set_pc"

datatype 'v set_op = Set_Call nat 'v | Set_Go nat

definition set_at :: "nat \<Rightarrow> ('v, 'w) set_pc \<Rightarrow> ('v, 'w) set_sys \<Rightarrow> ('v, 'w) set_sys" where
  "set_at t pc s = s\<lparr>ss_pc := (ss_pc s)(t := pc)\<rparr>"

definition set_release :: "('v, 'w) set_sys \<Rightarrow> ('v, 'w) set_sys" where
  "set_release s = s\<lparr>ss_lock := RWMutex_unlock (ss_lock s)\<rparr>"

text \<open>One piece of a thread's call; a thread that has to wait for the lock stays where it is.\<close>

fun set_go :: "nat \<Rightarrow> ('v, 'w) set_pc \<Rightarrow> ('v, 'w) set_sys \<Rightarrow> ('v, 'w) set_sys" where
  "set_go t Set_Out s = s"
| "set_go t (Set_Check v) s =
    (if ct_eq (cv_type (ss_var s)) v (cv_val (ss_var s)) then set_at t Set_Out (set_release s)
     else set_at t (Set_Tell v (map snd (cv_cbs (ss_var s)))) s)"
| "set_go t (Set_Tell v (cb # cbs)) s =
    (case cb (cv_val (ss_var s)) v (ss_world s) of
       (None, w) \<Rightarrow> set_at t (Set_Tell v cbs) (s\<lparr>ss_world := w\<rparr>)
     | (Some e, w) \<Rightarrow> set_at t Set_Out (set_release (s\<lparr>ss_world := w\<rparr>)))"
| "set_go t (Set_Tell v []) s = set_at t (Set_Between v) (set_release s)"
| "set_go t (Set_Between v) s =
    (case RWMutex_wrlock (ss_lock s) of
       Some m \<Rightarrow> set_at t (Set_Store v) (s\<lparr>ss_lock := m\<rparr>)
     | None \<Rightarrow> s)"
| "set_go t (Set_Store v) s = set_at t Set_Out (set_release (s\<lparr>ss_var := (ss_var s)\<lparr>cv_val := v\<rparr>\<rparr>))"

fun set_do :: "'v set_op \<Rightarrow> ('v, 'w) set_sys \<Rightarrow> ('v, 'w) set_sys" where
  "set_do (Set_Call t v) s =
    (case (ss_pc s t, RWMutex_rdlock (ss_lock s)) of
       (Set_Out, Some m) \<Rightarrow> set_at t (Set_Check v) (s\<lparr>ss_lock := m\<rparr>)
     | _ \<Rightarrow> s)"
| "set_do (Set_Go t) s = set_go t (ss_pc s t) s"

definition set_init :: "'w \<Rightarrow> ('v, 'w) config_var \<Rightarrow> ('v, 'w) set_sys" where
  "set_init w x = \<lparr>ss_lock = RWMutex_new, ss_world = w, ss_var = x, ss_pc = (\<lambda>_. Set_Out)\<rparr>"

definition set_run :: "'v set_op list \<Rightarrow> ('v, 'w) set_sys \<Rightarrow> ('v, 'w) set_sys" where
  "set_run ops s = fold set_do ops s"

section \<open>One thread alone\<close>

lemma set_run_simps [simp]: "set_run [] s = s" "set_run (op # ops) s = set_run ops (set_do op s)"
  "set_run (a @ b) s = set_run b (set_run a s)"
  by (simp_all add: set_run_def)

text \<open>The steps of one call: the lock and the check, one per listener, the two locks, the store.\<close>

definition set_alone :: "nat \<Rightarrow> 'v \<Rightarrow> nat \<Rightarrow> 'v set_op list" where
  "set_alone t v n = Set_Call t v # replicate (n + 4) (Set_Go t)"

lemma set_out_stays: "ss_pc s t = Set_Out \<Longrightarrow> set_run (replicate n (Set_Go t)) s = s"
  by (induction n) auto

lemma set_tell_alone:
  assumes "ss_pc s t = Set_Tell v cbs" "ss_lock s = \<lparr>rw_writer = False, rw_readers = Suc 0\<rparr>"
  shows "set_run (replicate (Suc (Suc (Suc (length cbs)))) (Set_Go t)) s =
    (case notify_all cbs (cv_val (ss_var s)) v (ss_world s) of
       (Some e, w') \<Rightarrow> s\<lparr>ss_lock := RWMutex_new, ss_world := w', ss_pc := (ss_pc s)(t := Set_Out)\<rparr>
     | (None, w') \<Rightarrow> s\<lparr>ss_lock := RWMutex_new, ss_world := w', ss_var := (ss_var s)\<lparr>cv_val := v\<rparr>, ss_pc := (ss_pc s)(t := Set_Out)\<rparr>)"
  using assms
proof (induction cbs arbitrary: s)
  case Nil
  then show ?case
    by (simp add: set_at_def set_release_def RWMutex_unlock_def RWMutex_wrlock_def RWMutex_new_def)
next
  case (Cons cb cbs)
  obtain r w where r: "cb (cv_val (ss_var s)) v (ss_world s) = (r, w)" by (cases "cb (cv_val (ss_var s)) v (ss_world s)")
  show ?case
  proof (cases r)
    case None
    let ?s = "set_at t (Set_Tell v cbs) (s\<lparr>ss_world := w\<rparr>)"
    have "ss_pc ?s t = Set_Tell v cbs" "ss_lock ?s = \<lparr>rw_writer = False, rw_readers = Suc 0\<rparr>"
      using Cons.prems by (simp_all add: set_at_def)
    note Cons.IH [OF this]
    moreover have "set_do (Set_Go t) s = ?s" using Cons.prems r None by simp
    ultimately show ?thesis
      using r None by (simp add: set_at_def del: set_do.simps split: option.split prod.split)
  next
    case (Some e)
    let ?s = "set_at t Set_Out (set_release (s\<lparr>ss_world := w\<rparr>))"
    have "set_run (replicate n (Set_Go t)) ?s = ?s" for n
      by (rule set_out_stays) (simp add: set_at_def)
    from this [of "Suc (Suc (Suc (length cbs)))"] Cons.prems r Some show ?thesis
      by (simp add: set_at_def set_release_def RWMutex_unlock_def RWMutex_new_def)
  qed
qed

text \<open>
  With the lock free, a thread alone does what \<open>ConfigVar_setValue\<close> says, and leaves the lock free.
\<close>

lemma setValue_alone:
  assumes out: "ss_pc s t = Set_Out" and lock: "ss_lock s = RWMutex_new"
  shows "set_run (set_alone t v (length (cv_cbs (ss_var s)))) s =
    (case ConfigVar_setValue v (ss_world s, ss_var s) of (e, w, x) \<Rightarrow> s\<lparr>ss_world := w, ss_var := x\<rparr>)"
proof -
  let ?x = "ss_var s" and ?n = "length (cv_cbs (ss_var s))"
  let ?s1 = "set_at t (Set_Check v) (s\<lparr>ss_lock := \<lparr>rw_writer = False, rw_readers = Suc 0\<rparr>\<rparr>)"
  have ops: "set_alone t v ?n = Set_Call t v # Set_Go t # replicate (Suc (Suc (Suc ?n))) (Set_Go t)"
    by (simp add: set_alone_def eval_nat_numeral)
  have call: "set_do (Set_Call t v) s = ?s1" using assms by (simp add: RWMutex_rdlock_def RWMutex_new_def)
  show ?thesis
  proof (cases "ct_eq (cv_type ?x) v (cv_val ?x)")
    case True
    let ?s2 = "set_at t Set_Out (set_release ?s1)"
    have "set_do (Set_Go t) ?s1 = ?s2" using True by (simp add: set_at_def)
    moreover have "set_run (replicate (Suc (Suc (Suc ?n))) (Set_Go t)) ?s2 = ?s2"
      by (rule set_out_stays) (simp add: set_at_def)
    moreover have "?s2 = s" using assms
      by (cases s) (simp add: set_at_def set_release_def RWMutex_unlock_def RWMutex_new_def fun_upd_idem)
    ultimately show ?thesis using True by (simp add: ops call ConfigVar_setValue_def del: set_do.simps replicate.simps)
  next
    case False
    let ?s2 = "set_at t (Set_Tell v (map snd (cv_cbs ?x))) ?s1"
    have go: "set_do (Set_Go t) ?s1 = ?s2" using False by (simp add: set_at_def)
    have "ss_pc ?s2 t = Set_Tell v (map snd (cv_cbs ?x))" "ss_lock ?s2 = \<lparr>rw_writer = False, rw_readers = Suc 0\<rparr>"
      by (simp_all add: set_at_def)
    from set_tell_alone [OF this]
    have "set_run (set_alone t v ?n) s = (case notify_all (map snd (cv_cbs ?x)) (cv_val (ss_var ?s2)) v (ss_world ?s2) of
       (Some e, w') \<Rightarrow> ?s2\<lparr>ss_lock := RWMutex_new, ss_world := w', ss_pc := (ss_pc ?s2)(t := Set_Out)\<rparr>
     | (None, w') \<Rightarrow> ?s2\<lparr>ss_lock := RWMutex_new, ss_world := w', ss_var := (ss_var ?s2)\<lparr>cv_val := v\<rparr>, ss_pc := (ss_pc ?s2)(t := Set_Out)\<rparr>)"
      by (simp only: ops set_run_simps call go length_map)
    with False assms show ?thesis
      by (cases s) (simp add: set_at_def ConfigVar_setValue_def fun_upd_idem split: option.split prod.split)
  qed
qed

section \<open>Several threads\<close>

text \<open>Who holds the lock, as the readers and writers of \<open>Locks\<close>.\<close>

fun reading :: "('v, 'w) set_pc \<Rightarrow> bool" where
  "reading (Set_Check v) = True"
| "reading (Set_Tell v cbs) = True"
| "reading _ = False"

fun storing :: "('v, 'w) set_pc \<Rightarrow> bool" where
  "storing (Set_Store v) = True"
| "storing _ = False"

definition rw_view :: "('v, 'w) set_sys \<Rightarrow> rw_sys" where
  "rw_view s = \<lparr>rw_lock = ss_lock s, rw_reading = {t. reading (ss_pc s t)}, rw_writing = {t. storing (ss_pc s t)}\<rparr>"

lemma rw_view_at:
  "rw_view (set_at t pc s) = \<lparr>rw_lock = ss_lock s,
     rw_reading = (if reading pc then insert t (rw_reading (rw_view s)) else rw_reading (rw_view s) - {t}),
     rw_writing = (if storing pc then insert t (rw_writing (rw_view s)) else rw_writing (rw_view s) - {t})\<rparr>"
  by (auto simp: rw_view_def set_at_def)

lemma rw_view_sel [simp]: "rw_lock (rw_view s) = ss_lock s" "t \<in> rw_reading (rw_view s) = reading (ss_pc s t)"
  "t \<in> rw_writing (rw_view s) = storing (ss_pc s t)"
  by (simp_all add: rw_view_def)

lemma rw_view_release: "rw_view (set_release s) = (rw_view s)\<lparr>rw_lock := RWMutex_unlock (ss_lock s)\<rparr>"
  "rw_view (s\<lparr>ss_world := w\<rparr>) = rw_view s" "rw_view (s\<lparr>ss_var := x\<rparr>) = rw_view s"
  "rw_view (s\<lparr>ss_lock := m\<rparr>) = (rw_view s)\<lparr>rw_lock := m\<rparr>"
  by (simp_all add: rw_view_def set_release_def)

lemma lock_release [simp]: "ss_lock (set_release s) = RWMutex_unlock (ss_lock s)"
  by (simp add: set_release_def)

text \<open>Every piece of a call is one operation on the lock, or none.\<close>

lemma rw_same: "rw_lock a = rw_lock b \<Longrightarrow> rw_reading a = rw_reading b \<Longrightarrow> rw_writing a = rw_writing b \<Longrightarrow> a = (b :: rw_sys)"
  by (cases a; cases b) simp

lemma set_go_rw:
  assumes pc: "ss_pc s t = pc"
  shows "rw_view (set_go t pc s) = rw_view s \<or> rw_step (rw_view s) (rw_view (set_go t pc s))"
proof -
  have unread: "rw_step (rw_view s) (rw_view (set_at t pc' (set_release (s'))))"
    if "reading pc" "\<not> reading pc'" "\<not> storing pc'" "rw_view s' = rw_view s" "ss_lock s' = ss_lock s" for pc' s'
  proof -
    have nw: "rw_writing (rw_view s) - {t} = rw_writing (rw_view s)" using that(1) pc by (cases pc) auto
    have "rw_view (set_at t pc' (set_release s')) =
      (rw_view s)\<lparr>rw_lock := RWMutex_unlock (rw_lock (rw_view s)), rw_reading := rw_reading (rw_view s) - {t}\<rparr>"
      using that nw by (intro rw_same) (simp_all add: rw_view_at rw_view_release)
    with rw_unlock_rd [of t "rw_view s"] that(1) pc show ?thesis by simp
  qed
  have keep: "rw_view (set_at t pc' s') = rw_view s" if "reading pc" "reading pc'" "\<not> storing pc'" "rw_view s' = rw_view s" for pc' s'
  proof -
    have "\<not> storing pc" using that(1) by (cases pc) auto
    moreover have "ss_lock s' = ss_lock s" using that(4) rw_view_sel(1) by metis
    ultimately show ?thesis using that pc by (intro rw_same) (auto simp: rw_view_at insert_absorb)
  qed
  show ?thesis
  proof (cases pc)
    case (Set_Check v)
    then show ?thesis using unread [of Set_Out s] keep [of "Set_Tell v (map snd (cv_cbs (ss_var s)))" s] by simp
  next
    case (Set_Tell v cbs)
    then show ?thesis
      using unread [of "Set_Between v" s] unread [of Set_Out "s\<lparr>ss_world := w\<rparr>" for w] keep [of "Set_Tell v (tl cbs)" "s\<lparr>ss_world := w\<rparr>" for w]
      by (cases cbs) (auto simp: rw_view_release split: prod.split option.split)
  next
    case (Set_Between v)
    show ?thesis
    proof (cases "RWMutex_wrlock (ss_lock s)")
      case (Some m)
      have "rw_view (set_at t (Set_Store v) (s\<lparr>ss_lock := m\<rparr>)) =
        (rw_view s)\<lparr>rw_lock := m, rw_writing := insert t (rw_writing (rw_view s))\<rparr>"
        using Set_Between pc by (intro rw_same) (auto simp: rw_view_at rw_view_release)
      with rw_wrlock [of "rw_view s" m t] Some Set_Between show ?thesis by simp
    qed (simp add: Set_Between)
  next
    case (Set_Store v)
    let ?s = "s\<lparr>ss_var := (ss_var s)\<lparr>cv_val := v\<rparr>\<rparr>"
    have "rw_view (set_at t Set_Out (set_release ?s)) =
      (rw_view s)\<lparr>rw_lock := RWMutex_unlock (rw_lock (rw_view s)), rw_writing := rw_writing (rw_view s) - {t}\<rparr>"
      using Set_Store pc by (intro rw_same) (auto simp: rw_view_at rw_view_release)
    with rw_unlock_wr [of t "rw_view s"] pc Set_Store show ?thesis by simp
  qed simp
qed

lemma set_do_rw: "rw_view (set_do op s) = rw_view s \<or> rw_step (rw_view s) (rw_view (set_do op s))"
proof (cases op)
  case (Set_Call t v)
  show ?thesis
  proof (cases "ss_pc s t = Set_Out \<and> RWMutex_rdlock (ss_lock s) \<noteq> None")
    case True
    then obtain m where m: "ss_pc s t = Set_Out" "RWMutex_rdlock (ss_lock s) = Some m" by auto
    then have "rw_view (set_at t (Set_Check v) (s\<lparr>ss_lock := m\<rparr>)) =
      (rw_view s)\<lparr>rw_lock := m, rw_reading := insert t (rw_reading (rw_view s))\<rparr>"
      by (intro rw_same) (auto simp: rw_view_at rw_view_release)
    with rw_rdlock [of t "rw_view s" m] m Set_Call show ?thesis by simp
  next
    case False
    with Set_Call show ?thesis by (auto split: set_pc.split option.split)
  qed
next
  case (Set_Go t)
  with set_go_rw [OF refl, of t s] show ?thesis by simp
qed

lemma set_run_rw: "rw_step\<^sup>*\<^sup>* rw_init (rw_view s) \<Longrightarrow> rw_step\<^sup>*\<^sup>* rw_init (rw_view (set_run ops s))"
proof (induction ops arbitrary: s)
  case (Cons op ops)
  from set_do_rw [of op s] Cons.prems have "rw_step\<^sup>*\<^sup>* rw_init (rw_view (set_do op s))"
    by (metis rtranclp.rtrancl_into_rtrancl)
  from Cons.IH [OF this] show ?case by simp
qed simp

lemma set_run_inv: "rw_inv (rw_view (set_run ops (set_init w x)))"
proof -
  have "rw_view (set_init w x) = rw_init" by (simp add: rw_view_def set_init_def rw_init_def)
  then have "rw_step\<^sup>*\<^sup>* rw_init (rw_view (set_run ops (set_init w x)))" by (intro set_run_rw) simp
  moreover have "rw_inv rw_init" by (simp add: rw_init_def rw_inv_def RWMutex_new_def)
  ultimately show ?thesis by (rule reach_invariant) (rule rw_step_inv)
qed

text \<open>The value changes only by a store.\<close>

lemma set_go_val: "\<not> storing pc \<Longrightarrow> cv_val (ss_var (set_go t pc s)) = cv_val (ss_var s)"
proof (cases pc)
  case (Set_Tell v cbs)
  then show ?thesis
    by (cases cbs) (auto simp: set_at_def set_release_def split: option.split prod.split)
qed (auto simp: set_at_def set_release_def split: option.split)

lemma set_val_step:
  "cv_val (ss_var (set_do op s)) \<noteq> cv_val (ss_var s) \<Longrightarrow> \<exists>t. op = Set_Go t \<and> storing (ss_pc s t)"
proof (cases op)
  case (Set_Go t)
  then show "cv_val (ss_var (set_do op s)) \<noteq> cv_val (ss_var s) \<Longrightarrow> ?thesis"
    using set_go_val [of "ss_pc s t" t s] by auto
qed (auto simp: set_at_def split: set_pc.splits option.splits)

text \<open>
  C32. Assignments of a variable by any number of threads, in any interleaving of their
  pieces: while a thread compares or tells the listeners, no step of any thread changes the value,
  so all listeners of one assignment see one old value, the current one; at most one thread stores at
  a time. And whenever nobody is inside, a thread that assigns without being interrupted does
  exactly what \<^verbatim>\<open>setValue\<close> does alone.
\<close>
theorem setValue_threads:
  assumes "s = set_run ops (set_init w x)"
  shows "(reading (ss_pc s t) \<longrightarrow> cv_val (ss_var (set_do op s)) = cv_val (ss_var s)) \<and>
    (storing (ss_pc s t) \<and> storing (ss_pc s u) \<longrightarrow> t = u) \<and>
    ((\<forall>u. ss_pc s u = Set_Out) \<longrightarrow> set_run (set_alone t v (length (cv_cbs (ss_var s)))) s =
       (case ConfigVar_setValue v (ss_world s, ss_var s) of (e, w', x') \<Rightarrow> s\<lparr>ss_world := w', ss_var := x'\<rparr>))"
proof (intro conjI impI)
  have inv: "rw_inv (rw_view s)" using assms set_run_inv [of ops w x] by simp
  have excl: "t = u \<and> \<not> reading (ss_pc s v)" if "storing (ss_pc s t)" "storing (ss_pc s u)" for t u v
  proof -
    from that have "t \<in> rw_writing (rw_view s)" "u \<in> rw_writing (rw_view s)" by simp_all
    with inv have "rw_reading (rw_view s) = {} \<and> (\<exists>a. rw_writing (rw_view s) = {a})"
      unfolding rw_inv_def by (metis empty_iff)
    with \<open>t \<in> _\<close> \<open>u \<in> _\<close> show ?thesis by (metis empty_iff rw_view_sel(2) singletonD)
  qed
  show "storing (ss_pc s t) \<and> storing (ss_pc s u) \<Longrightarrow> t = u" using excl by blast
  show "reading (ss_pc s t) \<Longrightarrow> cv_val (ss_var (set_do op s)) = cv_val (ss_var s)"
    using set_val_step [of op s] excl by blast
  assume out: "\<forall>u. ss_pc s u = Set_Out"
  then have "rw_reading (rw_view s) = {}" "rw_writing (rw_view s) = {}" by (simp_all add: rw_view_def)
  with inv have "rw_readers (ss_lock s) = 0" "\<not> rw_writer (ss_lock s)" by (auto simp: rw_inv_def split: if_splits)
  then have "ss_lock s = RWMutex_new" by (cases "ss_lock s") (simp add: RWMutex_new_def)
  with out show "set_run (set_alone t v (length (cv_cbs (ss_var s)))) s =
      (case ConfigVar_setValue v (ss_world s, ss_var s) of (e, w', x') \<Rightarrow> s\<lparr>ss_world := w', ss_var := x'\<rparr>)"
    by (intro setValue_alone) auto
qed

text \<open>One listener that records what it is told, on a variable whose values are compared as they are.\<close>

definition note_change :: "('v, ('v \<times> 'v) list) listener" where
  "note_change old new w = (None, w @ [(old, new)])"

definition noted_var :: "'v \<Rightarrow> ('v, ('v \<times> 'v) list) config_var" where
  "noted_var v = \<lparr>cv_name = ''v'', cv_description = '''', cv_type = \<lparr>ct_name = ''T'', ct_fromStr = (\<lambda>_. Inl (Undefined '''')),
     ct_toStr = (\<lambda>_. Inr ''''), ct_eq = (=)\<rparr>, cv_val = v, cv_cbs = [(1, note_change)]\<rparr>"

definition race_ops :: "'v \<Rightarrow> 'v \<Rightarrow> 'v set_op list" where
  "race_ops a b = [Set_Call 1 a, Set_Call 2 b, Set_Go 1, Set_Go 2, Set_Go 1, Set_Go 2, Set_Go 1, Set_Go 2,
     Set_Go 2, Set_Go 2, Set_Go 1, Set_Go 1]"

lemma race_result:
  "a \<noteq> v \<Longrightarrow> b \<noteq> v \<Longrightarrow> set_run (race_ops a b) (set_init [] (noted_var v)) =
    set_init [(v, a), (v, b)] ((noted_var v)\<lparr>cv_val := a\<rparr>)"
  by (simp add: race_ops_def set_init_def noted_var_def note_change_def set_at_def set_release_def RWMutex_new_def
      RWMutex_rdlock_def RWMutex_wrlock_def RWMutex_unlock_def fun_eq_iff)

text \<open>
  The last value told is not the value stored. Two threads assign \<open>a\<close> and \<open>b\<close>; both
  compare and tell before either stores. The listener hears of \<open>a\<close>, then of \<open>b\<close>, both as
  changes of the first value; the stores come in the other order. Both calls are over, the variable
  holds \<open>a\<close>, and everything the listener set up (the loggers, for \<^verbatim>\<open>logs\<close>) follows
  \<open>b\<close>, with nothing to tell it otherwise.
\<close>
theorem setValue_told_not_stored:
  assumes "a \<noteq> v" and "b \<noteq> v"
  shows "set_run (race_ops a b) (set_init [] (noted_var v)) =
    set_init [(v, a), (v, b)] ((noted_var v)\<lparr>cv_val := a\<rparr>)"
  using assms by (rule race_result)

theorem setValue_told_not_stored_witness:
  "cv_val (ss_var (set_run (race_ops 1 2) (set_init [] (noted_var (0 :: int))))) = 1 \<and>
   ss_world (set_run (race_ops 1 2) (set_init [] (noted_var (0 :: int)))) = [(0, 1), (0, 2)]"
  using setValue_told_not_stored [of 1 "0 :: int" 2] by (simp add: set_init_def)

theorem setValue_threads_witness:
  "cv_val (ss_var (set_run (set_alone 3 (7 :: int) 1) (set_run (race_ops 1 2) (set_init [] (noted_var 0))))) = 7"
proof -
  define s where "s = set_run (race_ops 1 2) (set_init [] (noted_var (0 :: int)))"
  have s: "s = set_init [(0, 1), (0, 2)] ((noted_var 0)\<lparr>cv_val := 1\<rparr>)"
    using race_result [of 1 "0 :: int" 2] by (simp add: s_def)
  have "\<forall>u. ss_pc s u = Set_Out" by (simp add: s set_init_def)
  with setValue_threads [OF s_def, of 3 "Set_Go 3" 3 7]
  have "set_run (set_alone 3 7 (length (cv_cbs (ss_var s)))) s =
     (case ConfigVar_setValue 7 (ss_world s, ss_var s) of (e, w', x') \<Rightarrow> s\<lparr>ss_world := w', ss_var := x'\<rparr>)"
    by blast
  then show ?thesis
    unfolding s_def [symmetric] by (simp add: s set_init_def noted_var_def ConfigVar_setValue_def note_change_def)
qed

section \<open>Listeners added by several threads\<close>

text \<open>
  \<^verbatim>\<open>addListener\<close> holds the write lock of its own variable, while \<^verbatim>\<open>s_fun_id\<close> belongs to
  all variables of the type. \<^verbatim>\<open>++s_fun_id\<close> on a plain integer is a read and a write; the key and
  the result read it again.
\<close>

datatype ('v, 'w) add_pc =
    Add_Out
  | Add_Begin nat "('v, 'w) listener"
  | Add_Read nat "('v, 'w) listener" "64 word"
  | Add_Written nat "('v, 'w) listener"
  | Add_Put nat

record ('v, 'w) add_sys =
  as_id :: "64 word"
  as_vars :: "nat \<Rightarrow> ('v, 'w) config_var"
  as_locks :: "nat \<Rightarrow> rwmutex"
  as_pc :: "nat \<Rightarrow> ('v, 'w) add_pc"
  as_results :: "(nat \<times> 64 word) list"

datatype ('v, 'w) add_op = Add_Call nat nat "('v, 'w) listener" | Add_Go nat

definition add_at :: "nat \<Rightarrow> ('v, 'w) add_pc \<Rightarrow> ('v, 'w) add_sys \<Rightarrow> ('v, 'w) add_sys" where
  "add_at t pc s = s\<lparr>as_pc := (as_pc s)(t := pc)\<rparr>"

fun add_go :: "nat \<Rightarrow> ('v, 'w) add_pc \<Rightarrow> ('v, 'w) add_sys \<Rightarrow> ('v, 'w) add_sys" where
  "add_go t Add_Out s = s"
| "add_go t (Add_Begin a cb) s = add_at t (Add_Read a cb (as_id s)) s"
| "add_go t (Add_Read a cb n) s = add_at t (Add_Written a cb) (s\<lparr>as_id := n + 1\<rparr>)"
| "add_go t (Add_Written a cb) s =
    add_at t (Add_Put a) (s\<lparr>as_vars := (as_vars s)(a := (as_vars s a)\<lparr>cv_cbs := map_put (as_id s) cb (cv_cbs (as_vars s a))\<rparr>)\<rparr>)"
| "add_go t (Add_Put a) s =
    add_at t Add_Out (s\<lparr>as_results := as_results s @ [(t, as_id s)],
      as_locks := (as_locks s)(a := RWMutex_unlock (as_locks s a))\<rparr>)"

fun add_do :: "('v, 'w) add_op \<Rightarrow> ('v, 'w) add_sys \<Rightarrow> ('v, 'w) add_sys" where
  "add_do (Add_Call t a cb) s =
    (case (as_pc s t, RWMutex_wrlock (as_locks s a)) of
       (Add_Out, Some m) \<Rightarrow> add_at t (Add_Begin a cb) (s\<lparr>as_locks := (as_locks s)(a := m)\<rparr>)
     | _ \<Rightarrow> s)"
| "add_do (Add_Go t) s = add_go t (as_pc s t) s"

definition add_run :: "('v, 'w) add_op list \<Rightarrow> ('v, 'w) add_sys \<Rightarrow> ('v, 'w) add_sys" where
  "add_run ops s = fold add_do ops s"

definition add_alone :: "nat \<Rightarrow> nat \<Rightarrow> ('v, 'w) listener \<Rightarrow> ('v, 'w) add_op list" where
  "add_alone t a cb = Add_Call t a cb # replicate 4 (Add_Go t)"

definition add_init :: "(nat \<Rightarrow> ('v, 'w) config_var) \<Rightarrow> ('v, 'w) add_sys" where
  "add_init xs = \<lparr>as_id = 0, as_vars = xs, as_locks = (\<lambda>_. RWMutex_new), as_pc = (\<lambda>_. Add_Out), as_results = []\<rparr>"

text \<open>Undisturbed, a call does what \<open>ConfigVar_addListener\<close> says.\<close>

lemma addListener_alone:
  assumes "as_pc s t = Add_Out" "as_locks s a = RWMutex_new"
  shows "add_run (add_alone t a cb) s =
    (case ConfigVar_addListener cb (as_id s) (as_vars s a) of (key, n, x) \<Rightarrow>
       s\<lparr>as_id := n, as_vars := (as_vars s)(a := x), as_results := as_results s @ [(t, key)]\<rparr>)"
  using assms
  by (cases s) (simp add: add_run_def add_alone_def eval_nat_numeral add_at_def ConfigVar_addListener_def RWMutex_new_def
      RWMutex_wrlock_def RWMutex_unlock_def fun_upd_idem)

text \<open>
  Thread 1 adds \<open>f\<close> to variable 0 and is interrupted between reading and writing the counter;
  meanwhile thread 2 adds \<open>g\<close> and \<open>h\<close> to variable 1, and \<open>k\<close> after thread 1 is done.
\<close>

definition lost_ops :: "('v, 'w) listener \<Rightarrow> ('v, 'w) listener \<Rightarrow> ('v, 'w) listener \<Rightarrow> ('v, 'w) listener \<Rightarrow> ('v, 'w) add_op list" where
  "lost_ops f g h k = [Add_Call 1 0 f, Add_Go 1] @ add_alone 2 1 g @ add_alone 2 1 h @
     [Add_Go 1, Add_Go 1, Add_Go 1] @ add_alone 2 1 k"

text \<open>
  A listener can be lost. Every variable's own lock is held as it should be, and still
  two listeners of variable 1 get the same id, 2: the second replaces the first, which is never
  called again, and deleting by the id its owner holds deletes the other.
\<close>
theorem listener_lost:
  assumes "\<And>a. cv_cbs (xs a) = []"
  shows "as_results (add_run (lost_ops f g h k) (add_init xs)) = [(2, 1), (2, 2), (1, 1), (2, 2)] \<and>
    cv_cbs (as_vars (add_run (lost_ops f g h k) (add_init xs)) 1) = [(1, g), (2, k)] \<and>
    ConfigVar_delListener 2 (as_vars (add_run (lost_ops f g h k) (add_init xs)) 1) = (xs 1)\<lparr>cv_cbs := [(1, g)]\<rparr>"
  using assms
  by (simp add: lost_ops_def add_alone_def add_run_def add_init_def add_at_def eval_nat_numeral RWMutex_new_def
      RWMutex_wrlock_def RWMutex_unlock_def ConfigVar_delListener_def map_erase_def)

theorem listener_lost_witness:
  "map fst (cv_cbs (as_vars (add_run (lost_ops note_change note_change note_change (\<lambda>old new w. (None, [])))
     (add_init (\<lambda>_. ConfigVar_delListener 1 (noted_var (0 :: int))))) 1)) = [1, 2]"
proof -
  have "cv_cbs (ConfigVar_delListener 1 (noted_var (0 :: int))) = []"
    by (simp add: noted_var_def ConfigVar_delListener_def map_erase_def)
  from listener_lost [OF this, of note_change note_change note_change "\<lambda>old new w. (None, [])"] show ?thesis by simp
qed

end
