(* ===== verification/Log_Level.thy ===== *)
theory Log_Level
  imports Vity_Prelude
begin

text \<open>
  \<^verbatim>\<open>LogLevel\<close> and \<^verbatim>\<open>LogEvent\<close> of \<^verbatim>\<open>vity/log.h\<close>, \<^verbatim>\<open>vity/log.cc\<close>:
  the level enumeration with its order (the code compares levels with \<^verbatim>\<open>>=\<close>), the two
  text conversions, and the event record with the operations that fill its message stream.
\<close>

section \<open>Levels\<close>

datatype Level = UNKNOW | DEBUG | INFO | WARN | ERROR | FATAL

primrec Level_value :: "Level \<Rightarrow> nat" where
  "Level_value UNKNOW = 0"
| "Level_value DEBUG = 1"
| "Level_value INFO = 2"
| "Level_value WARN = 3"
| "Level_value ERROR = 4"
| "Level_value FATAL = 5"

lemma Level_value_inj: "Level_value a = Level_value b \<Longrightarrow> a = b"
  by (cases a; cases b) simp_all

instantiation Level :: linorder
begin

definition less_eq_Level :: "Level \<Rightarrow> Level \<Rightarrow> bool" where
  "less_eq_Level a b \<longleftrightarrow> Level_value a \<le> Level_value b"

definition less_Level :: "Level \<Rightarrow> Level \<Rightarrow> bool" where
  "less_Level a b \<longleftrightarrow> Level_value a < Level_value b"

instance
  by standard (auto simp: less_eq_Level_def less_Level_def dest: Level_value_inj)

end

lemma UNKNOW_le [simp]: "UNKNOW \<le> l"
  by (simp add: less_eq_Level_def)

lemma le_FATAL [simp]: "l \<le> FATAL"
  by (cases l) (simp_all add: less_eq_Level_def)

definition LogLevel_ToString :: "Level \<Rightarrow> string" where
  "LogLevel_ToString level = (case level of
       DEBUG \<Rightarrow> ''DEBUG''
     | INFO \<Rightarrow> ''INFO''
     | WARN \<Rightarrow> ''WARN''
     | ERROR \<Rightarrow> ''ERROR''
     | FATAL \<Rightarrow> ''FATAL''
     | _ \<Rightarrow> ''UNKNOW'')"

definition LogLevel_FromString :: "string \<Rightarrow> Level" where
  "LogLevel_FromString str =
    (if str = ''debug'' then DEBUG
     else if str = ''info'' then INFO
     else if str = ''warn'' then WARN
     else if str = ''error'' then ERROR
     else if str = ''fatal'' then FATAL
     else if str = ''DEBUG'' then DEBUG
     else if str = ''INFO'' then INFO
     else if str = ''WARN'' then WARN
     else if str = ''ERROR'' then ERROR
     else if str = ''FATAL'' then FATAL
     else UNKNOW)"

text \<open>
  Level names round-trip: reading back the text written for a level gives the level,
  the lower-case spelling of a name reads as the same level as the upper-case one, and a text
  is read as a proper level only if it is one of the ten spellings.
\<close>
theorem LogLevel_roundtrip:
  "LogLevel_FromString (LogLevel_ToString l) = l \<and>
   LogLevel_FromString (map tolower (LogLevel_ToString l)) = l \<and>
   (LogLevel_FromString s = l) =
     (s \<in> {LogLevel_ToString l, map tolower (LogLevel_ToString l)} \<or>
      l = UNKNOW \<and>
      s \<notin> (\<Union>m \<in> {DEBUG, INFO, WARN, ERROR, FATAL}. {LogLevel_ToString m, map tolower (LogLevel_ToString m)}))"
  by (cases l)
    (auto simp: LogLevel_FromString_def LogLevel_ToString_def tolower_def
      alphabet_upper_def alphabet_lower_def)

section \<open>Events\<close>

text \<open>
  A \<^verbatim>\<open>LogEvent\<close>. \<open>ev_logger\<close> is the address of the logger the event was made
  for (\<^verbatim>\<open>m_logger\<close>); \<open>m_ss\<close> is the text collected in the stream so far.
\<close>

record log_event =
  m_file :: string
  m_line :: "32 word"
  m_elapse :: "32 word"
  m_threadId :: "32 word"
  m_threadName :: string
  m_fiberId :: "32 word"
  m_time :: "64 word"
  m_ss :: string
  ev_logger :: nat
  ev_level :: Level

definition LogEvent_new ::
  "nat \<Rightarrow> Level \<Rightarrow> string \<Rightarrow> 32 word \<Rightarrow> 32 word \<Rightarrow> 32 word \<Rightarrow> 32 word \<Rightarrow> 64 word \<Rightarrow> string \<Rightarrow> log_event"
where
  "LogEvent_new logger level file line elapse thread_id fiber_id time thread_name =
     \<lparr>m_file = file, m_line = line, m_elapse = elapse, m_threadId = thread_id,
      m_threadName = thread_name, m_fiberId = fiber_id, m_time = time, m_ss = [],
      ev_logger = logger, ev_level = level\<rparr>"

text \<open>\<^verbatim>\<open>getSS() << text\<close>.\<close>

definition LogEvent_append :: "string \<Rightarrow> log_event \<Rightarrow> log_event" where
  "LogEvent_append text ev = ev\<lparr>m_ss := m_ss ev @ text\<rparr>"

text \<open>\<^verbatim>\<open>LogEvent::format\<close>: \<open>r\<close> is what \<^verbatim>\<open>vasprintf\<close> delivers, \<open>None\<close>
  where it returns \<open>-1\<close>.\<close>

definition LogEvent_format :: "string option \<Rightarrow> log_event \<Rightarrow> log_event" where
  "LogEvent_format r ev = (case r of None \<Rightarrow> ev | Some s \<Rightarrow> LogEvent_append s ev)"

end
