(* ===== verification/Log_Formatter.thy ===== *)
theory Log_Formatter
  imports Log_Level
begin

text \<open>
  \<^verbatim>\<open>LogFormatter\<close> of \<^verbatim>\<open>vity/log.cc\<close>: the pattern parser \<^verbatim>\<open>init\<close> as the two
  nested index loops of the source (\<open>scan_directive\<close>, \<open>init_loop\<close>), the table of format
  items, and the formatting of an event. The parser is shown equivalent to a one-pass parser
  on suffixes (\<open>parse\<close>), from which the round trip with a printer of patterns follows.
\<close>

section \<open>The pattern parser as the source writes it\<close>

text \<open>
  The inner loop of \<^verbatim>\<open>init\<close>: \<open>i\<close> is the index of the \<^verbatim>\<open>%\<close>, \<open>n\<close> the loop
  index; the result is \<open>(n, fmt_status, str, fmt)\<close> on leaving the loop.
\<close>

function scan_directive ::
  "string \<Rightarrow> nat \<Rightarrow> nat \<Rightarrow> nat \<Rightarrow> nat \<Rightarrow> string \<Rightarrow> string \<Rightarrow> nat \<times> nat \<times> string \<times> string"
where
  "scan_directive p i n fmt_status fmt_begin str fmt =
    (if n < length p then
       if fmt_status = 0 \<and> (\<not> isalpha (p ! n) \<and> p ! n \<noteq> CHR ''{'' \<and> p ! n \<noteq> CHR ''}'') then
         (n, fmt_status, substr p (i + 1) (n - i - 1), fmt)
       else if fmt_status = 0 \<and> p ! n = CHR ''{'' then
         scan_directive p i (n + 1) 1 n (substr p (i + 1) (n - i - 1)) fmt
       else if fmt_status = 1 \<and> p ! n = CHR ''}'' then
         (n + 1, 0, str, substr p (fmt_begin + 1) (n - fmt_begin - 1))
       else
         scan_directive p i (n + 1) fmt_status fmt_begin
           (if n + 1 = length p \<and> str = [] then drop (i + 1) p else str) fmt
     else (n, fmt_status, str, fmt))"
  by pat_completeness auto
termination
  by (relation "measure (\<lambda>(p, i, n, _). length p - n)") auto

declare scan_directive.simps [simp del]

text \<open>One equation per way through the body of the loop.\<close>

lemma scan_end: "\<not> n < length p \<Longrightarrow> scan_directive p i n st b str fmt = (n, st, str, fmt)"
  by (simp add: scan_directive.simps)

lemma scan_stop:
  "n < length p \<Longrightarrow> \<not> isalpha (p ! n) \<Longrightarrow> p ! n \<noteq> CHR ''{'' \<Longrightarrow> p ! n \<noteq> CHR ''}'' \<Longrightarrow>
     scan_directive p i n 0 b str fmt = (n, 0, substr p (i + 1) (n - i - 1), fmt)"
  by (simp add: scan_directive.simps)

lemma scan_open:
  "n < length p \<Longrightarrow> p ! n = CHR ''{'' \<Longrightarrow>
     scan_directive p i n 0 b str fmt =
       scan_directive p i (Suc n) 1 n (substr p (i + 1) (n - i - 1)) fmt"
  by (subst scan_directive.simps) simp

lemma scan_close:
  "n < length p \<Longrightarrow> p ! n = CHR ''}'' \<Longrightarrow>
     scan_directive p i n 1 b str fmt = (Suc n, 0, str, substr p (b + 1) (n - b - 1))"
  by (subst scan_directive.simps) simp

lemma scan_name:
  "n < length p \<Longrightarrow> isalpha (p ! n) \<or> p ! n = CHR ''}'' \<Longrightarrow> p ! n \<noteq> CHR ''{'' \<Longrightarrow>
     scan_directive p i n 0 b str fmt =
       scan_directive p i (Suc n) 0 b (if Suc n = length p \<and> str = [] then drop (i + 1) p else str) fmt"
  by (subst scan_directive.simps) auto

lemma scan_body:
  "n < length p \<Longrightarrow> p ! n \<noteq> CHR ''}'' \<Longrightarrow>
     scan_directive p i n 1 b str fmt =
       scan_directive p i (Suc n) 1 b (if Suc n = length p \<and> str = [] then drop (i + 1) p else str) fmt"
  by (subst scan_directive.simps) simp

lemma scan_body_n:
  "n \<le> length p \<Longrightarrow> n \<le> fst (scan_directive p i n 1 b str fmt) \<and>
     fst (scan_directive p i n 1 b str fmt) \<le> length p"
proof (induction "length p - n" arbitrary: n str)
  case 0
  then show ?case by (simp add: scan_end)
next
  case (Suc k)
  then have n: "n < length p" by simp
  with Suc.hyps(2) have "k = length p - Suc n" "Suc n \<le> length p" by simp_all
  note IH = Suc.hyps(1) [OF this]
  show ?case
  proof (cases "p ! n = CHR ''}''")
    case True
    with n show ?thesis by (simp add: scan_close del: One_nat_def)
  next
    case False
    with n IH show ?thesis by (simp add: scan_body Suc_leD del: One_nat_def)
  qed
qed

lemma scan_directive_n:
  "n \<le> length p \<Longrightarrow> n \<le> fst (scan_directive p i n 0 b str fmt) \<and>
     fst (scan_directive p i n 0 b str fmt) \<le> length p"
proof (induction "length p - n" arbitrary: n str)
  case 0
  then show ?case by (simp add: scan_end)
next
  case (Suc k)
  then have n: "n < length p" by simp
  with Suc.hyps(2) have k: "k = length p - Suc n" "Suc n \<le> length p" by simp_all
  note IH = Suc.hyps(1) [OF this]
  consider "p ! n = CHR ''{''" | "isalpha (p ! n) \<or> p ! n = CHR ''}''" "p ! n \<noteq> CHR ''{''"
    | "\<not> isalpha (p ! n)" "p ! n \<noteq> CHR ''{''" "p ! n \<noteq> CHR ''}''" by blast
  then show ?case
  proof cases
    case 1
    with n k scan_body_n [of "Suc n" p] show ?thesis by (simp add: scan_open Suc_leD del: One_nat_def)
  next
    case 2
    with n IH show ?thesis by (simp add: scan_name Suc_leD)
  next
    case 3
    with n show ?thesis by (simp add: scan_stop)
  qed
qed

lemma scan_directive_less:
  "(n', st', str', fmt') = scan_directive p i (Suc i) 0 b str fmt \<Longrightarrow> i < length p \<Longrightarrow>
     i < n' \<and> n' \<le> length p"
  using scan_directive_n [of "Suc i" p i b str fmt] by (metis Suc_leI Suc_le_lessD fst_conv)

lemma scan_directive_less':
  "(n', st', str', fmt') = scan_directive p i (Suc i) 0 b str fmt \<Longrightarrow> i < length p \<Longrightarrow>
     length p - Suc (n' - Suc 0) < length p - i"
  by (drule (1) scan_directive_less) auto

text \<open>
  The outer loop. \<open>vec\<close> holds the triples \<open>(text, fmt, type)\<close>; \<open>out\<close> the lines
  written to \<^verbatim>\<open>std::cout\<close>. On the error branch the index is left where it is, so the
  loop goes on with the character after the \<^verbatim>\<open>%\<close>.
\<close>

type_synonym triple = "string \<times> string \<times> nat"

function init_loop ::
  "string \<Rightarrow> nat \<Rightarrow> string \<Rightarrow> triple list \<Rightarrow> bool \<Rightarrow> string list \<Rightarrow>
   string \<times> triple list \<times> bool \<times> string list"
where
  "init_loop p i nstr vec err out =
    (if i < length p then
       if p ! i \<noteq> CHR ''%'' then init_loop p (i + 1) (nstr @ [p ! i]) vec err out
       else if i + 1 < length p \<and> p ! (i + 1) = CHR ''%'' then
         init_loop p (i + 1) (nstr @ ''%'') vec err out
       else
         (case scan_directive p i (i + 1) 0 0 [] [] of (n, fmt_status, str, fmt) \<Rightarrow>
            if fmt_status = 0 then
              init_loop p (n - 1 + 1) []
                ((if nstr \<noteq> [] then vec @ [(nstr, [], 0)] else vec) @ [(str, fmt, 1)]) err out
            else if fmt_status = 1 then
              init_loop p (i + 1) nstr (vec @ [(''<<pattern_error>>'', fmt, 0)]) True
                (out @ [''pattern parse error:'' @ p @ ''-'' @ drop i p])
            else init_loop p (i + 1) nstr vec err out)
     else (nstr, vec, err, out))"
  by pat_completeness auto
termination
  by (relation "measure (\<lambda>(p, i, _). length p - i)")
    (auto dest: scan_directive_less')

declare init_loop.simps [simp del]

section \<open>Format items\<close>

datatype FormatItem =
    MessageFormatItem
  | LevelFormatItem
  | ElapseFormatItem
  | NameFormatItem
  | ThreadIdFormatItem
  | NewLineFormatItem
  | DateTimeFormatItem string
  | FilenameFormatItem
  | LineFormatItem
  | TabFormatItem
  | FiberIdFormatItem
  | ThreadNameFormatItem
  | StringFormatItem string

definition DateTimeFormatItem_new :: "string \<Rightarrow> FormatItem" where
  "DateTimeFormatItem_new format =
     DateTimeFormatItem (if format = [] then ''%Y-%m-%d %H:%M:%S'' else format)"

definition s_format_items :: "(string \<times> (string \<Rightarrow> FormatItem)) list" where
  "s_format_items =
    [(''m'', \<lambda>_. MessageFormatItem),
     (''p'', \<lambda>_. LevelFormatItem),
     (''r'', \<lambda>_. ElapseFormatItem),
     (''c'', \<lambda>_. NameFormatItem),
     (''t'', \<lambda>_. ThreadIdFormatItem),
     (''n'', \<lambda>_. NewLineFormatItem),
     (''d'', DateTimeFormatItem_new),
     (''f'', \<lambda>_. FilenameFormatItem),
     (''l'', \<lambda>_. LineFormatItem),
     (''T'', \<lambda>_. TabFormatItem),
     (''F'', \<lambda>_. FiberIdFormatItem),
     (''N'', \<lambda>_. ThreadNameFormatItem)]"

text \<open>The loop at the end of \<^verbatim>\<open>init\<close> that turns triples into items.\<close>

fun make_item :: "triple \<Rightarrow> FormatItem \<times> bool" where
  "make_item (str, fmt, ty) =
    (if ty = 0 then (StringFormatItem str, False)
     else (case map_of s_format_items str of
             None \<Rightarrow> (StringFormatItem (''<<error_format %'' @ str @ ''>>''), True)
           | Some mk \<Rightarrow> (mk fmt, False)))"

record log_formatter =
  m_pattern :: string
  m_items :: "FormatItem list"
  m_error :: bool

text \<open>\<^verbatim>\<open>LogFormatter::LogFormatter\<close>, which runs \<^verbatim>\<open>init\<close>, with what it prints.\<close>

definition LogFormatter_init :: "string \<Rightarrow> log_formatter \<times> string list" where
  "LogFormatter_init pattern =
    (case init_loop pattern 0 [] [] False [] of (nstr, vec, err, out) \<Rightarrow>
       let vec = (if nstr \<noteq> [] then vec @ [(nstr, [], 0)] else vec);
           made = map make_item vec
       in (\<lparr>m_pattern = pattern, m_items = map fst made, m_error = (err \<or> list_ex snd made)\<rparr>, out))"

definition LogFormatter_new :: "string \<Rightarrow> log_formatter" where
  "LogFormatter_new pattern = fst (LogFormatter_init pattern)"

section \<open>Formatting an event\<close>

text \<open>
  \<open>strf\<close> is the expansion \<^verbatim>\<open>strftime\<close> makes of a format for the local time of a
  \<^verbatim>\<open>time_t\<close>. The source hands it a buffer of 64 bytes, the terminating zero included: a
  longer expansion leaves the buffer's content undefined, and the source prints it all the same.
\<close>

fun FormatItem_format ::
  "(string \<Rightarrow> int \<Rightarrow> string) \<Rightarrow> FormatItem \<Rightarrow> string \<Rightarrow> Level \<Rightarrow> log_event \<Rightarrow> string res"
where
  "FormatItem_format strf MessageFormatItem name level ev = Inr (m_ss ev)"
| "FormatItem_format strf LevelFormatItem name level ev = Inr (LogLevel_ToString level)"
| "FormatItem_format strf ElapseFormatItem name level ev = Inr (string_of_nat (unat (m_elapse ev)))"
| "FormatItem_format strf NameFormatItem name level ev = Inr name"
| "FormatItem_format strf ThreadIdFormatItem name level ev = Inr (string_of_nat (unat (m_threadId ev)))"
| "FormatItem_format strf NewLineFormatItem name level ev = Inr [CHR 0x0A]"
| "FormatItem_format strf (DateTimeFormatItem fmt) name level ev =
     (let text = strf fmt (sint (m_time ev))
      in if length text < 64 then Inr text else Inl (Undefined ''strftime: buf[64] not written''))"
| "FormatItem_format strf FilenameFormatItem name level ev = Inr (m_file ev)"
| "FormatItem_format strf LineFormatItem name level ev = Inr (string_of_int (sint (m_line ev)))"
| "FormatItem_format strf TabFormatItem name level ev = Inr [CHR 0x09]"
| "FormatItem_format strf FiberIdFormatItem name level ev = Inr (string_of_nat (unat (m_fiberId ev)))"
| "FormatItem_format strf ThreadNameFormatItem name level ev = Inr (m_threadName ev)"
| "FormatItem_format strf (StringFormatItem s) name level ev = Inr s"

text \<open>\<^verbatim>\<open>LogFormatter::format\<close>: \<open>name\<close> is \<^verbatim>\<open>logger->getName()\<close>.\<close>

definition LogFormatter_format ::
  "(string \<Rightarrow> int \<Rightarrow> string) \<Rightarrow> log_formatter \<Rightarrow> string \<Rightarrow> Level \<Rightarrow> log_event \<Rightarrow> string res"
where
  "LogFormatter_format strf f name level ev =
     foldR (\<lambda>it ss. bindR (FormatItem_format strf it name level ev) (\<lambda>s. Inr (ss @ s))) (m_items f) []"

section \<open>A one-pass parser on suffixes\<close>

definition name_char :: "char \<Rightarrow> bool" where
  "name_char c \<longleftrightarrow> (isalpha c \<or> c = CHR ''}'') \<and> c \<noteq> CHR ''{''"

text \<open>
  What follows a \<^verbatim>\<open>%\<close>: the name, the text in braces and the rest; \<open>None\<close> where the
  brace is not closed.
\<close>

definition split_directive :: "string \<Rightarrow> (string \<times> string \<times> string) option" where
  "split_directive s =
    (let name = takeWhile name_char s; r = dropWhile name_char s in
     if r \<noteq> [] \<and> hd r = CHR ''{'' then
       (let body = takeWhile (\<lambda>c. c \<noteq> CHR ''}'') (tl r); r' = dropWhile (\<lambda>c. c \<noteq> CHR ''}'') (tl r) in
        if r' = [] then None else Some (name, body, tl r'))
     else Some (name, [], r))"

lemma isalpha_not_brace [simp]: "\<not> isalpha CHR ''{''" "\<not> isalpha CHR ''}''" "\<not> isalpha CHR ''%''"
  by (simp_all add: isalpha_def alphabet_lower_def alphabet_upper_def)

lemma split_directive_shorter:
  "split_directive s = Some (name, fmt, rest) \<Longrightarrow> length rest \<le> length s"
proof -
  assume split: "split_directive s = Some (name, fmt, rest)"
  let ?r = "dropWhile name_char s"
  let ?r' = "dropWhile (\<lambda>c. c \<noteq> CHR ''}'') (tl ?r)"
  have "length ?r \<le> length s" "length ?r' \<le> length (tl ?r)" by (rule length_dropWhile_le)+
  with split show ?thesis
    by (auto simp: split_directive_def Let_def split: if_splits)
qed

definition flush :: "string \<Rightarrow> triple list" where
  "flush nstr = (if nstr \<noteq> [] then [(nstr, [], 0)] else [])"

function parse :: "string \<Rightarrow> string \<Rightarrow> triple list \<times> bool" where
  "parse [] nstr = (flush nstr, False)"
| "parse (c # s) nstr =
    (if c \<noteq> CHR ''%'' then parse s (nstr @ [c])
     else if s \<noteq> [] \<and> hd s = CHR ''%'' then parse s (nstr @ ''%'')
     else case split_directive s of
            Some (name, fmt, rest) \<Rightarrow>
              (case parse rest [] of (v, e) \<Rightarrow> (flush nstr @ (name, fmt, 1) # v, e))
          | None \<Rightarrow> (case parse s nstr of (v, e) \<Rightarrow> ((''<<pattern_error>>'', [], 0) # v, True)))"
  by pat_completeness auto
termination
  by (relation "measure (\<lambda>(s, _). length s)") (auto dest!: split_directive_shorter)

declare parse.simps(2) [simp del]

lemma drop_Suc_Cons: "n < length p \<Longrightarrow> drop n p = p ! n # drop (Suc n) p"
  by (rule Cons_nth_drop_Suc [symmetric])

lemma scan_body_spec:
  assumes "n \<le> length p"
  defines "body \<equiv> takeWhile (\<lambda>c. c \<noteq> CHR ''}'') (drop n p)"
  shows "if n + length body = length p
    then \<exists>n' str'. scan_directive p i n 1 b str fmt = (n', 1, str', fmt)
    else scan_directive p i n 1 b str fmt =
           (Suc (n + length body), 0, str, substr p (b + 1) (n + length body - b - 1))"
  using assms(1) unfolding body_def
proof (induction "length p - n" arbitrary: n str)
  case 0
  then show ?case by (simp add: scan_end)
next
  case (Suc k)
  then have n: "n < length p" by simp
  with Suc.hyps(2) have "k = length p - Suc n" "Suc n \<le> length p" by simp_all
  note IH = Suc.hyps(1) [OF this]
  let ?rest = "takeWhile (\<lambda>c. c \<noteq> CHR ''}'') (drop (Suc n) p)"
  have "length ?rest \<le> length (drop (Suc n) p)" by (rule length_takeWhile_le)
  then have le: "Suc n + length ?rest \<le> length p" using n by simp
  show ?case
  proof (cases "p ! n = CHR ''}''")
    case True
    with n show ?thesis by (simp add: scan_close drop_Suc_Cons del: One_nat_def)
  next
    case False
    show ?thesis
    proof (cases "Suc n = length p")
      case True
      with False n show ?thesis by (simp add: scan_body scan_end drop_Suc_Cons del: One_nat_def)
    next
      case last: False
      from False n last IH [of str] show ?thesis
        by (simp add: scan_body drop_Suc_Cons del: One_nat_def)
    qed
  qed
qed

lemma scan_name_spec:
  assumes "n \<le> length p"
  defines "m \<equiv> n + length (takeWhile name_char (drop n p))"
  shows "scan_directive p i n 0 b [] [] =
    (if m = length p then (m, 0, if n = m then [] else drop (i + 1) p, [])
     else if p ! m = CHR ''{'' then scan_directive p i (Suc m) 1 m (substr p (i + 1) (m - i - 1)) []
     else (m, 0, substr p (i + 1) (m - i - 1), []))"
  using assms(1) unfolding m_def
proof (induction "length p - n" arbitrary: n)
  case 0
  then show ?case by (simp add: scan_end)
next
  case (Suc k)
  then have n: "n < length p" by simp
  with Suc.hyps(2) have "k = length p - Suc n" "Suc n \<le> length p" by simp_all
  note IH = Suc.hyps(1) [OF this]
  show ?case
  proof (cases "name_char (p ! n)")
    case False
    with n show ?thesis
      by (cases "p ! n = CHR ''{''")
        (simp_all add: drop_Suc_Cons scan_open scan_stop name_char_def del: One_nat_def)
  next
    case name: True
    then have "isalpha (p ! n) \<or> p ! n = CHR ''}''" "p ! n \<noteq> CHR ''{''"
      by (auto simp: name_char_def)
    note next_char = scan_name [OF n this]
    show ?thesis
    proof (cases "Suc n = length p")
      case True
      with name n show ?thesis by (simp add: next_char scan_end drop_Suc_Cons)
    next
      case False
      with name n IH show ?thesis by (simp add: next_char drop_Suc_Cons del: One_nat_def)
    qed
  qed
qed

lemma scan_directive_name_only:
  assumes "i < length p" and "Suc i + length (takeWhile name_char (drop (Suc i) p)) = length p"
  shows "split_directive (drop (Suc i) p) = Some (drop (Suc i) p, [], []) \<and>
    scan_directive p i (Suc i) 0 0 [] [] = (length p, 0, drop (Suc i) p, [])"
proof -
  let ?s = "drop (Suc i) p"
  have le: "Suc i \<le> length p" using assms(1) by simp
  have "dropWhile name_char ?s = drop (length (takeWhile name_char ?s)) ?s" by (rule dropWhile_eq_drop)
  also have "\<dots> = drop (Suc i + length (takeWhile name_char ?s)) p" by (simp only: drop_drop add.commute)
  finally have "dropWhile name_char ?s = drop (length p) p" by (simp only: assms(2))
  then have none: "dropWhile name_char ?s = []" by simp
  then have all: "takeWhile name_char ?s = ?s" by (metis append_Nil2 takeWhile_dropWhile_id)
  from assms(1) have "?s = [] \<longleftrightarrow> Suc i = length p" by auto
  with all have "takeWhile name_char ?s = [] \<longleftrightarrow> Suc i = length p" by (simp only:)
  then have "scan_directive p i (Suc i) 0 0 [] [] = (length p, 0, ?s, [])"
    using scan_name_spec [OF le, of i 0] assms(2) by (cases "Suc i = length p") simp_all
  moreover from all have "split_directive ?s = Some (?s, [], [])"
    using none by (simp only: split_directive_def Let_def) simp
  ultimately show ?thesis by simp
qed

lemma scan_directive_brace:
  assumes m: "m < length p" and open_brace: "p ! m = CHR ''{''"
    and split: "dropWhile name_char (drop (Suc i) p) = drop m p" "takeWhile name_char (drop (Suc i) p) = name"
    and sc: "scan_directive p i (Suc i) 0 0 [] [] = scan_directive p i (Suc m) 1 m name []"
  shows "case split_directive (drop (Suc i) p) of
      None \<Rightarrow> \<exists>n str. scan_directive p i (Suc i) 0 0 [] [] = (n, 1, str, [])
    | Some (name, fmt, rest) \<Rightarrow>
        \<exists>n. scan_directive p i (Suc i) 0 0 [] [] = (n, 0, name, fmt) \<and> 0 < n \<and> drop n p = rest"
proof -
  let ?body = "takeWhile (\<lambda>c. c \<noteq> CHR ''}'') (drop (Suc m) p)"
  let ?e = "Suc m + length ?body"
  have rc: "dropWhile name_char (drop (Suc i) p) = p ! m # drop (Suc m) p"
    using m split by (simp add: Cons_nth_drop_Suc)
  from m have le: "Suc m \<le> length p" by simp
  note body = scan_body_spec [OF le, of i m name "[]"]
  have r: "dropWhile (\<lambda>c. c \<noteq> CHR ''}'') (drop (Suc m) p) = drop ?e p"
    by (metis add.commute drop_drop dropWhile_eq_drop)
  have fmt: "substr p (m + 1) (?e - m - 1) = ?body"
    by (simp add: substr_def) (metis takeWhile_eq_take)
  have "length ?body \<le> length (drop (Suc m) p)" by (rule length_takeWhile_le)
  with le have e: "?e \<le> length p" by simp
  show ?thesis
  proof (cases "?e = length p")
    case True
    with body sc rc open_brace r split show ?thesis by (simp add: split_directive_def)
  next
    case False
    with e have "drop ?e p = p ! ?e # drop (Suc ?e) p" by (simp add: Cons_nth_drop_Suc)
    with False body sc rc open_brace r fmt split show ?thesis by (simp add: split_directive_def)
  qed
qed

lemma scan_directive_spec:
  assumes "i < length p"
  shows "case split_directive (drop (Suc i) p) of
      None \<Rightarrow> \<exists>n str. scan_directive p i (Suc i) 0 0 [] [] = (n, 1, str, [])
    | Some (name, fmt, rest) \<Rightarrow>
        \<exists>n. scan_directive p i (Suc i) 0 0 [] [] = (n, 0, name, fmt) \<and> 0 < n \<and> drop n p = rest"
proof -
  let ?s = "drop (Suc i) p"
  let ?name = "takeWhile name_char ?s"
  let ?m = "Suc i + length ?name"
  have le: "Suc i \<le> length p" using assms by simp
  have name: "substr p (i + 1) (?m - i - 1) = ?name"
    by (simp add: substr_def takeWhile_eq_take [symmetric] del: takeWhile_eq_take)
  have r: "dropWhile name_char ?s = drop ?m p"
    by (metis add.commute drop_drop dropWhile_eq_drop)
  have "length ?name \<le> length ?s" by (rule length_takeWhile_le)
  with assms have m: "?m \<le> length p" by simp
  note scan = scan_name_spec [OF le, of i 0]
  show ?thesis
  proof (cases "?m = length p")
    case True
    with scan_directive_name_only [OF assms] assms show ?thesis by auto
  next
    case False
    with m have lt: "?m < length p" by simp
    show ?thesis
    proof (cases "p ! ?m = CHR ''{''")
      case False
      from r lt have rc: "dropWhile name_char ?s = p ! ?m # drop (Suc ?m) p" by (simp add: Cons_nth_drop_Suc)
      with False scan lt rc name r show ?thesis by (simp add: split_directive_def)
    next
      case True
      with scan lt name show ?thesis by (intro scan_directive_brace [OF lt True r refl]) simp
    qed
  qed
qed

text \<open>The loop from index \<open>i\<close> appends what the suffix parser makes of \<open>drop i p\<close>.\<close>

definition finish_vec :: "string \<times> triple list \<times> bool \<times> string list \<Rightarrow> triple list \<times> bool" where
  "finish_vec r = (case r of (nstr, vec, err, out) \<Rightarrow> (vec @ flush nstr, err))"

text \<open>One directive, by the two outcomes of the scan.\<close>

lemma init_loop_directive:
  assumes i: "i < length p" and pct: "p ! i = CHR ''%''" "\<not> (i + 1 < length p \<and> p ! (i + 1) = CHR ''%'')"
    and s: "split_directive (drop (Suc i) p) = Some (name, fmt, rest)"
  shows "\<exists>n. i < n \<and> n \<le> length p \<and> drop n p = rest \<and>
    init_loop p i nstr vec err out =
      init_loop p n [] ((if nstr \<noteq> [] then vec @ [(nstr, [], 0)] else vec) @ [(name, fmt, 1)]) err out"
proof -
  from s scan_directive_spec [OF i] obtain n
    where sc: "scan_directive p i (Suc i) 0 0 [] [] = (n, 0, name, fmt)" and n: "0 < n" "drop n p = rest" by auto
  from scan_directive_less [OF sc [symmetric] i] n sc i pct show ?thesis
    by (intro exI [of _ n]) (auto simp: init_loop.simps [of p i])
qed

lemma init_loop_error:
  assumes i: "i < length p" and pct: "p ! i = CHR ''%''" "\<not> (i + 1 < length p \<and> p ! (i + 1) = CHR ''%'')"
    and s: "split_directive (drop (Suc i) p) = None"
  shows "\<exists>out'. init_loop p i nstr vec err out =
    init_loop p (Suc i) nstr (vec @ [(''<<pattern_error>>'', [], 0)]) True out'"
proof -
  from s scan_directive_spec [OF i] obtain n str
    where "scan_directive p i (Suc i) 0 0 [] [] = (n, 1, str, [])" by auto
  with i pct show ?thesis
    by (intro exI [of _ "out @ [''pattern parse error:'' @ p @ ''-'' @ drop i p]"]) (auto simp: init_loop.simps [of p i])
qed

lemma init_loop_parse:
  "i \<le> length p \<Longrightarrow> finish_vec (init_loop p i nstr vec err out) =
     (case parse (drop i p) nstr of (v, e) \<Rightarrow> (vec @ v, err \<or> e))"
proof (induction "length p - i" arbitrary: i nstr vec err out rule: less_induct)
  case less
  let ?s = "drop (Suc i) p"
  show ?case
  proof (cases "i < length p")
    case False
    with less.prems show ?thesis by (simp add: init_loop.simps finish_vec_def)
  next
    case i: True
    then have d: "drop i p = p ! i # ?s" by (rule drop_Suc_Cons)
    have hd: "?s \<noteq> [] \<and> hd ?s = CHR ''%'' \<longleftrightarrow> i + 1 < length p \<and> p ! (i + 1) = CHR ''%''"
      by (auto simp: hd_drop_conv_nth)
    have IH: "finish_vec (init_loop p (Suc i) nstr' vec' err' out') =
      (case parse ?s nstr' of (v, e) \<Rightarrow> (vec' @ v, err' \<or> e))" for nstr' vec' err' out'
      using i by (intro less.hyps) simp_all
    show ?thesis
    proof (cases "p ! i = CHR ''%'' \<and> \<not> (i + 1 < length p \<and> p ! (i + 1) = CHR ''%'')")
      case False
      with i hd IH show ?thesis by (auto simp: init_loop.simps [of p i] d parse.simps)
    next
      case pct: True
      note step = pct [THEN conjunct1] pct [THEN conjunct2]
      show ?thesis
      proof (cases "split_directive ?s")
        case None
        from init_loop_error [OF i step None] obtain out' where "init_loop p i nstr vec err out =
          init_loop p (Suc i) nstr (vec @ [(''<<pattern_error>>'', [], 0)]) True out'" by blast
        with IH hd step None show ?thesis by (auto simp: d parse.simps split: prod.split)
      next
        case (Some t)
        obtain name fmt rest where t: "t = (name, fmt, rest)" by (cases t)
        from init_loop_directive [OF i step Some [unfolded t]] obtain n where n: "i < n" "n \<le> length p" "drop n p = rest"
          "init_loop p i nstr vec err out =
            init_loop p n [] ((if nstr \<noteq> [] then vec @ [(nstr, [], 0)] else vec) @ [(name, fmt, 1)]) err out" by blast
        have "length p - n < length p - i" using n(1,2) by simp
        moreover have "parse (drop i p) nstr = (case parse rest [] of (v, e) \<Rightarrow> (flush nstr @ (name, fmt, 1) # v, e))"
          unfolding d parse.simps using step Some t hd by auto
        ultimately show ?thesis using less.hyps [OF _ n(2)] n(3,4) by (simp add: flush_def split: prod.split)
      qed
    qed
  qed
qed

lemma LogFormatter_new_parse:
  "LogFormatter_new p =
     \<lparr>m_pattern = p, m_items = map (fst \<circ> make_item) (fst (parse p [])),
      m_error = (snd (parse p []) \<or> list_ex (snd \<circ> make_item) (fst (parse p [])))\<rparr>"
proof -
  obtain nstr vec err out where r: "init_loop p 0 [] [] False [] = (nstr, vec, err, out)"
    by (metis prod_cases4)
  have "(vec @ flush nstr, err) = parse p []"
    using init_loop_parse [of 0 p "[]" "[]" False "[]"] r by (simp add: finish_vec_def split: prod.splits)
  then have "fst (parse p []) = vec @ flush nstr" "snd (parse p []) = err"
    by (metis fst_conv) (metis \<open>(vec @ flush nstr, err) = parse p []\<close> snd_conv)
  then show ?thesis
    by (simp add: LogFormatter_new_def LogFormatter_init_def r Let_def flush_def list_ex_iff comp_def)
qed

lemmas LogFormatter_new_simps = LogFormatter_new_parse [THEN arg_cong [of _ _ m_pattern], simplified]
  LogFormatter_new_parse [THEN arg_cong [of _ _ m_items], simplified]
  LogFormatter_new_parse [THEN arg_cong [of _ _ m_error], simplified]

text \<open>
  C9. The index loops of the pattern parser, with their look-ahead, their reset of the index
  and their three ways out, compute what one pass over the pattern computes: the formatter's
  items and its error flag are those of the suffix parser \<open>parse\<close>.
\<close>
theorem LogFormatter_init_equiv:
  "m_items (LogFormatter_new p) = map (fst \<circ> make_item) (fst (parse p [])) \<and>
   m_error (LogFormatter_new p) =
     (snd (parse p []) \<or> list_ex (snd \<circ> make_item) (fst (parse p [])))"
  by (simp add: LogFormatter_new_simps)

section \<open>Printing patterns and reading them back\<close>

datatype token = Text string | Dir string | DirFmt string string

fun print_token :: "token \<Rightarrow> string" where
  "print_token (Text t) = t"
| "print_token (Dir name) = CHR ''%'' # name"
| "print_token (DirFmt name body) = CHR ''%'' # name @ CHR ''{'' # body @ ''}''"

definition print_pattern :: "token list \<Rightarrow> string" where
  "print_pattern ts = concat (map print_token ts)"

fun token_triple :: "token \<Rightarrow> triple" where
  "token_triple (Text t) = (t, [], 0)"
| "token_triple (Dir name) = (name, [], 1)"
| "token_triple (DirFmt name body) = (name, body, 1)"

fun is_Text :: "token list \<Rightarrow> bool" where
  "is_Text (Text t # ts) = True"
| "is_Text ts = False"

fun starts_delimited :: "token list \<Rightarrow> bool" where
  "starts_delimited (Text t # ts) \<longleftrightarrow> t \<noteq> [] \<and> \<not> name_char (hd t) \<and> hd t \<noteq> CHR ''{''"
| "starts_delimited ts = True"

text \<open>
  The token lists whose printed form determines them: texts are not empty, hold no
  \<^verbatim>\<open>%\<close> and are not adjacent; a directive's name is made of name characters and, when no
  braces follow, is not empty and is followed by a character that ends it.
\<close>

fun wf_tokens :: "token list \<Rightarrow> bool" where
  "wf_tokens [] \<longleftrightarrow> True"
| "wf_tokens (Text t # ts) \<longleftrightarrow> t \<noteq> [] \<and> CHR ''%'' \<notin> set t \<and> \<not> is_Text ts \<and> wf_tokens ts"
| "wf_tokens (Dir name # ts) \<longleftrightarrow> name \<noteq> [] \<and> list_all name_char name \<and> starts_delimited ts \<and> wf_tokens ts"
| "wf_tokens (DirFmt name body # ts) \<longleftrightarrow> list_all name_char name \<and> CHR ''}'' \<notin> set body \<and> wf_tokens ts"

lemma name_char_simps [simp]:
  "\<not> name_char CHR ''%''" "\<not> name_char CHR ''{''" "name_char CHR ''}''"
  by (simp_all add: name_char_def)

lemma parse_text: "CHR ''%'' \<notin> set t \<Longrightarrow> parse (t @ s) nstr = parse s (nstr @ t)"
  by (induction t arbitrary: nstr) (auto simp: parse.simps(2))

lemma split_name:
  "list_all name_char name \<Longrightarrow> s = [] \<or> \<not> name_char (hd s) \<and> hd s \<noteq> CHR ''{'' \<Longrightarrow>
     split_directive (name @ s) = Some (name, [], s)"
  by (cases s)
    (auto simp: split_directive_def takeWhile_append dropWhile_append list_all_iff takeWhile_eq_all_conv)

lemma split_body:
  "list_all name_char name \<Longrightarrow> CHR ''}'' \<notin> set body \<Longrightarrow>
     split_directive (name @ CHR ''{'' # body @ CHR ''}'' # s) = Some (name, body, s)"
proof -
  assume *: "list_all name_char name" "CHR ''}'' \<notin> set body"
  have "takeWhile (\<lambda>c. c \<noteq> CHR ''}'') (body @ CHR ''}'' # s) = body"
    "dropWhile (\<lambda>c. c \<noteq> CHR ''}'') (body @ CHR ''}'' # s) = CHR ''}'' # s"
    using *(2) by (induction body) auto
  with *(1) show ?thesis
    by (auto simp: split_directive_def takeWhile_append dropWhile_append list_all_iff)
qed

lemma print_starts:
  "starts_delimited ts \<Longrightarrow> s = print_pattern ts \<Longrightarrow> wf_tokens ts \<Longrightarrow>
     s = [] \<or> \<not> name_char (hd s) \<and> hd s \<noteq> CHR ''{''"
  by (cases ts rule: starts_delimited.cases) (auto simp: print_pattern_def hd_append)

lemma parse_directive:
  "split_directive s = Some (name, fmt, rest) \<Longrightarrow> s = [] \<or> hd s \<noteq> CHR ''%'' \<Longrightarrow>
     parse (CHR ''%'' # s) nstr =
       (flush nstr @ (name, fmt, 1) # fst (parse rest []), snd (parse rest []))"
  by (auto simp: parse.simps(2) split: prod.splits)

lemma parse_print:
  "wf_tokens ts \<Longrightarrow> nstr = [] \<or> \<not> is_Text ts \<Longrightarrow>
     parse (print_pattern ts) nstr = (flush nstr @ map token_triple ts, False)"
proof (induction ts arbitrary: nstr rule: wf_tokens.induct)
  case 1
  then show ?case by (simp add: print_pattern_def)
next
  case (2 t ts)
  then have "parse (print_pattern ts) t = (flush t @ map token_triple ts, False)" by simp
  with 2 show ?case by (simp add: print_pattern_def parse_text flush_def)
next
  case (3 name ts)
  let ?s = "print_pattern ts"
  from 3 have IH: "parse ?s [] = (map token_triple ts, False)" by (simp add: flush_def)
  from 3 have "split_directive (name @ ?s) = Some (name, [], ?s)"
    by (intro split_name print_starts) auto
  moreover have "name @ ?s = [] \<or> hd (name @ ?s) \<noteq> CHR ''%''"
    using 3 by (cases name) auto
  ultimately have "parse (CHR ''%'' # name @ ?s) nstr = (flush nstr @ (name, [], 1) # map token_triple ts, False)"
    by (simp add: parse_directive IH)
  then show ?case by (simp add: print_pattern_def)
next
  case (4 name body ts)
  let ?s = "print_pattern ts" and ?t = "name @ CHR ''{'' # body @ CHR ''}'' # print_pattern ts"
  from 4 have IH: "parse ?s [] = (map token_triple ts, False)" by (simp add: flush_def)
  from 4 have "split_directive ?t = Some (name, body, ?s)" by (intro split_body) auto
  moreover have "?t = [] \<or> hd ?t \<noteq> CHR ''%''" using 4 by (cases name) auto
  ultimately have "parse (CHR ''%'' # ?t) nstr = (flush nstr @ (name, body, 1) # map token_triple ts, False)"
    by (simp add: parse_directive IH)
  then show ?case by (simp add: print_pattern_def)
qed

text \<open>The item a token stands for, and whether its name is in the table.\<close>

fun token_known :: "token \<Rightarrow> bool" where
  "token_known (Text t) = True"
| "token_known (Dir name) = (name \<in> fst ` set s_format_items)"
| "token_known (DirFmt name body) = (name \<in> fst ` set s_format_items)"

definition token_item :: "token \<Rightarrow> FormatItem" where
  "token_item t = fst (make_item (token_triple t))"

lemma make_item_error: "snd (make_item (token_triple t)) \<longleftrightarrow> \<not> token_known t"
  by (cases t) (auto split: option.splits simp: map_of_eq_None_iff dest!: map_of_SomeD, (force dest: map_of_SomeD)+)

text \<open>
  C20. Patterns round-trip: a pattern printed from well-formed tokens (texts without
  percent signs, directives with and without a braced argument) is parsed back into exactly
  one item per token, in order, and the error flag is raised just when some directive's
  letter is not in the table of format items.
\<close>
theorem LogFormatter_roundtrip:
  assumes "wf_tokens ts"
  shows "m_items (LogFormatter_new (print_pattern ts)) = map token_item ts \<and>
    m_error (LogFormatter_new (print_pattern ts)) = (\<not> list_all token_known ts)"
proof -
  from assms have "parse (print_pattern ts) [] = (map token_triple ts, False)"
    by (simp add: parse_print flush_def)
  then show ?thesis
    by (simp add: LogFormatter_new_simps token_item_def comp_def list_ex_iff list_all_iff make_item_error)
qed

theorem LogFormatter_roundtrip_witness:
  "m_items (LogFormatter_new ''%d{%H:%M}%T[%p] %q'') =
     [DateTimeFormatItem ''%H:%M'', TabFormatItem, StringFormatItem ''['', LevelFormatItem,
      StringFormatItem ''] '', StringFormatItem ''<<error_format %q>>''] \<and>
   m_error (LogFormatter_new ''%d{%H:%M}%T[%p] %q'')"
proof -
  let ?ts = "[DirFmt ''d'' ''%H:%M'', Dir ''T'', Text ''['', Dir ''p'', Text ''] '', Dir ''q'']"
  have wf: "wf_tokens ?ts"
    by (simp add: name_char_def isalpha_def alphabet_lower_def alphabet_upper_def)
  show ?thesis
    using LogFormatter_roundtrip [OF wf]
    by (simp add: print_pattern_def token_item_def s_format_items_def DateTimeFormatItem_new_def)
qed

text \<open>
  The documented escape \<^verbatim>\<open>%%\<close> does not escape: the branch for it appends one
  percent sign but leaves the second one in place, so whatever follows it is parsed as a
  directive. For any text \<open>s\<close> that does not itself start with a percent sign, the items of
  \<^verbatim>\<open>%%s\<close> are a percent sign followed by the items of \<^verbatim>\<open>%s\<close>, provided
  \<^verbatim>\<open>%s\<close> has no unclosed brace; \<^verbatim>\<open>%%\<close> alone is a pattern error.
\<close>
theorem percent_escape_still_directive:
  assumes "split_directive s = Some (name, fmt, rest)" and "s = [] \<or> hd s \<noteq> CHR ''%''"
  shows "m_items (LogFormatter_new (''%%'' @ s)) =
           StringFormatItem ''%'' # m_items (LogFormatter_new (''%'' @ s)) \<and>
         m_error (LogFormatter_new ''%%'')"
proof -
  have "parse (''%%'' @ s) [] = parse (''%'' @ s) ''%''" by (simp add: parse.simps(2))
  with assms have "parse (''%%'' @ s) [] =
      ((''%'', [], 0) # fst (parse (''%'' @ s) []), snd (parse (''%'' @ s) []))"
    by (simp add: parse_directive flush_def)
  moreover have "parse ''%%'' [] = ([(''%'', [], 0), ([], [], 1)], False)"
    by (simp add: parse.simps(2) split_directive_def flush_def)
  ultimately show ?thesis
    by (simp add: LogFormatter_new_simps s_format_items_def)
qed

theorem percent_escape_still_directive_witness:
  "m_items (LogFormatter_new ''100%%m'') =
     [StringFormatItem ''100%'', MessageFormatItem] \<and>
   m_items (LogFormatter_new ''%%m'') = [StringFormatItem ''%'', MessageFormatItem]"
proof -
  have split: "split_directive ''m'' = Some (''m'', [], [])"
    by (simp add: split_directive_def name_char_def isalpha_def alphabet_lower_def)
  have hd: "''m'' = [] \<or> hd ''m'' \<noteq> CHR ''%''" by simp
  have "m_items (LogFormatter_new ''100%%m'') = [StringFormatItem ''100%'', MessageFormatItem]"
    by (simp add: LogFormatter_new_simps parse.simps(2) split flush_def s_format_items_def)
  moreover have "m_items (LogFormatter_new ''%m'') = [MessageFormatItem]"
    by (simp add: LogFormatter_new_simps parse.simps(2) split flush_def s_format_items_def)
  ultimately show ?thesis
    using percent_escape_still_directive [OF split hd] by simp
qed

end
