(* ===== verification/Loggers.thy ===== *)
theory Loggers
  imports Log_Formatter Config_Cast
begin

text \<open>
  \<^verbatim>\<open>Logger\<close>, the two \<^verbatim>\<open>LogAppender\<close>s and \<^verbatim>\<open>LogManager\<close> of \<^verbatim>\<open>vity/log.h\<close>,
  \<^verbatim>\<open>vity/log.cc\<close>. Loggers and appenders are shared, so they live in two heaps and are named
  by their addresses; formatters never change once built and are values. Standard output and the
  files are strings that grow. What the outside decides (the time, whether a file can be opened or
  written, what \<^verbatim>\<open>strftime\<close> makes of a format) is a record of its own.
\<close>

section \<open>Appenders\<close>

text \<open>A file stream: whether a file is open, and the stream's fail state.\<close>

record stream =
  is_open :: bool
  is_fail :: bool

datatype ap_kind = Stdout | File string stream "64 word"

record appender =
  ap_kind :: ap_kind
  ap_level :: Level
  ap_formatter :: "log_formatter option"
  ap_hasFormatter :: bool

record log_env =
  le_strf :: "string \<Rightarrow> int \<Rightarrow> string"
  le_now :: "64 word"
  le_can_open :: "string \<Rightarrow> bool"
  le_can_write :: "string \<Rightarrow> bool"

definition LogAppender_setFormatter :: "log_formatter option \<Rightarrow> appender \<Rightarrow> appender" where
  "LogAppender_setFormatter val a = a\<lparr>ap_formatter := val, ap_hasFormatter := (val \<noteq> None)\<rparr>"

definition LogAppender_getFormatter :: "appender \<Rightarrow> log_formatter option" where
  "LogAppender_getFormatter a = ap_formatter a"

definition StdoutLogAppender_new :: appender where
  "StdoutLogAppender_new = \<lparr>ap_kind = Stdout, ap_level = DEBUG, ap_formatter = None, ap_hasFormatter = False\<rparr>"

text \<open>
  \<^verbatim>\<open>reopen\<close>. Closing a stream that is not open fails; opening one that is open fails;
  opening successfully clears the fail state.
\<close>

definition stream_close :: "stream \<Rightarrow> stream" where
  "stream_close f = (if is_open f then f\<lparr>is_open := False\<rparr> else f\<lparr>is_fail := True\<rparr>)"

definition stream_open :: "bool \<Rightarrow> stream \<Rightarrow> stream" where
  "stream_open can f =
    (if \<not> is_open f \<and> can then f\<lparr>is_open := True, is_fail := False\<rparr> else f\<lparr>is_fail := True\<rparr>)"

definition reopen_stream :: "bool \<Rightarrow> stream \<Rightarrow> stream" where
  "reopen_stream can f = stream_open can (if \<not> is_fail f then stream_close f else f)"

definition FileLogAppender_reopen :: "log_env \<Rightarrow> appender \<Rightarrow> bool \<times> appender" where
  "FileLogAppender_reopen env a =
    (case ap_kind a of
       File filename f t \<Rightarrow>
         (let f' = reopen_stream (le_can_open env filename) f
          in (\<not> is_fail f', a\<lparr>ap_kind := File filename f' t\<rparr>))
     | Stdout \<Rightarrow> (False, a))"

definition FileLogAppender_new :: "log_env \<Rightarrow> string \<Rightarrow> appender" where
  "FileLogAppender_new env filename =
    snd (FileLogAppender_reopen env
      \<lparr>ap_kind = File filename \<lparr>is_open = False, is_fail = False\<rparr> 0, ap_level = DEBUG,
       ap_formatter = None, ap_hasFormatter = False\<rparr>)"

section \<open>Loggers and the manager\<close>

record logger =
  lg_name :: string
  lg_level :: Level
  lg_appenders :: "nat list"
  lg_formatter :: "log_formatter option"
  lg_root :: "nat option"

record log_sys =
  appenders :: "appender list"
  loggers :: "logger list"
  m_loggers :: "(string \<times> nat) list"
  m_root :: nat
  std_out :: string
  files :: "string \<Rightarrow> string"

definition default_pattern :: string where
  "default_pattern = ''%d{%Y-%m-%d %H:%M:%S}%T%t%T%N%T%F%T[%p]%T[%c]%T%f:%l%T%m%n''"

lemma default_items:
  "m_items (LogFormatter_new default_pattern) =
    [DateTimeFormatItem ''%Y-%m-%d %H:%M:%S'', TabFormatItem, ThreadIdFormatItem, TabFormatItem, ThreadNameFormatItem, TabFormatItem,
     FiberIdFormatItem, TabFormatItem, StringFormatItem ''['', LevelFormatItem, StringFormatItem '']'', TabFormatItem,
     StringFormatItem ''['', NameFormatItem, StringFormatItem '']'', TabFormatItem, FilenameFormatItem, StringFormatItem '':'',
     LineFormatItem, TabFormatItem, MessageFormatItem, NewLineFormatItem]"
  by code_simp


definition Logger_new :: "string \<Rightarrow> logger" where
  "Logger_new name = \<lparr>lg_name = name, lg_level = DEBUG, lg_appenders = [],
     lg_formatter = Some (LogFormatter_new default_pattern), lg_root = None\<rparr>"

definition upd_appender :: "nat \<Rightarrow> (appender \<Rightarrow> appender) \<Rightarrow> log_sys \<Rightarrow> log_sys" where
  "upd_appender a f s = s\<lparr>appenders := (appenders s)[a := f (appenders s ! a)]\<rparr>"

definition upd_logger :: "nat \<Rightarrow> (logger \<Rightarrow> logger) \<Rightarrow> log_sys \<Rightarrow> log_sys" where
  "upd_logger l f s = s\<lparr>loggers := (loggers s)[l := f (loggers s ! l)]\<rparr>"

definition new_appender :: "appender \<Rightarrow> log_sys \<Rightarrow> nat \<times> log_sys" where
  "new_appender a s = (length (appenders s), s\<lparr>appenders := appenders s @ [a]\<rparr>)"

text \<open>
  \<^verbatim>\<open>log\<close> of the two appenders; \<open>name\<close> is the name of the logger passed on, whose
  formatter item prints it.
\<close>

definition format_with ::
  "log_env \<Rightarrow> appender \<Rightarrow> string \<Rightarrow> Level \<Rightarrow> log_event \<Rightarrow> string res"
where
  "format_with env a name level ev =
    (case ap_formatter a of
       None \<Rightarrow> Inl (Undefined ''null m_formatter'')
     | Some f \<Rightarrow> LogFormatter_format (le_strf env) f name level ev)"

definition StdoutLogAppender_log ::
  "log_env \<Rightarrow> nat \<Rightarrow> string \<Rightarrow> Level \<Rightarrow> log_event \<Rightarrow> log_sys \<Rightarrow> log_sys res"
where
  "StdoutLogAppender_log env a name level ev s =
    (if level \<ge> ap_level (appenders s ! a) then
       bindR (format_with env (appenders s ! a) name level ev) (\<lambda>text. Inr (s\<lparr>std_out := std_out s @ text\<rparr>))
     else Inr s)"

text \<open>Writing to a file stream; a failure prints \<^verbatim>\<open>error\<close> and stays in the stream.\<close>

definition write_stream :: "log_env \<Rightarrow> nat \<Rightarrow> string \<Rightarrow> log_sys \<Rightarrow> log_sys" where
  "write_stream env a text s =
    (case ap_kind (appenders s ! a) of
       File filename f t \<Rightarrow>
         if \<not> is_fail f \<and> is_open f \<and> le_can_write env filename
         then s\<lparr>files := (files s)(filename := files s filename @ text)\<rparr>
         else (upd_appender a (\<lambda>x. x\<lparr>ap_kind := File filename (f\<lparr>is_fail := True\<rparr>) t\<rparr>) s)
                \<lparr>std_out := std_out s @ ''error'' @ [CHR 0x0A]\<rparr>
     | Stdout \<Rightarrow> s)"

text \<open>\<^verbatim>\<open>reopen(); m_lastTime = now;\<close>\<close>

definition reopen_now :: "log_env \<Rightarrow> appender \<Rightarrow> appender" where
  "reopen_now env x =
    (let y = snd (FileLogAppender_reopen env x) in
     case ap_kind y of File n f t \<Rightarrow> y\<lparr>ap_kind := File n f (le_now env)\<rparr> | Stdout \<Rightarrow> y)"

definition FileLogAppender_log ::
  "log_env \<Rightarrow> nat \<Rightarrow> string \<Rightarrow> Level \<Rightarrow> log_event \<Rightarrow> log_sys \<Rightarrow> log_sys res"
where
  "FileLogAppender_log env a name level ev s =
    (if level \<ge> ap_level (appenders s ! a) then
       (let s1 = (case ap_kind (appenders s ! a) of
                    File filename f t \<Rightarrow>
                      if le_now env \<noteq> t then upd_appender a (reopen_now env) s
                      else s
                  | Stdout \<Rightarrow> s)
        in bindR (format_with env (appenders s1 ! a) name level ev) (\<lambda>text. Inr (write_stream env a text s1)))
     else Inr s)"

text \<open>The virtual call.\<close>

definition LogAppender_log ::
  "log_env \<Rightarrow> nat \<Rightarrow> string \<Rightarrow> Level \<Rightarrow> log_event \<Rightarrow> log_sys \<Rightarrow> log_sys res"
where
  "LogAppender_log env a name level ev s =
    (case ap_kind (appenders s ! a) of
       Stdout \<Rightarrow> StdoutLogAppender_log env a name level ev s
     | File n f t \<Rightarrow> FileLogAppender_log env a name level ev s)"

text \<open>
  \<^verbatim>\<open>Logger::log\<close>. The calls along \<^verbatim>\<open>m_root\<close> are bounded by \<open>fuel\<close>; two are enough
  in every state that can arise, as shown below.
\<close>

fun Logger_log ::
  "nat \<Rightarrow> log_env \<Rightarrow> nat \<Rightarrow> Level \<Rightarrow> log_event \<Rightarrow> log_sys \<Rightarrow> log_sys res option"
where
  "Logger_log 0 env l level ev s = None"
| "Logger_log (Suc fuel) env l level ev s =
     (let lg = loggers s ! l in
      if level \<ge> lg_level lg then
        (if lg_appenders lg \<noteq> [] then
           Some (foldR (\<lambda>a. LogAppender_log env a (lg_name lg) level ev) (lg_appenders lg) s)
         else
           (case lg_root lg of
              Some r \<Rightarrow> Logger_log fuel env r level ev s
            | None \<Rightarrow> Some (Inr s)))
      else Some (Inr s))"

definition Logger_debug :: "nat \<Rightarrow> log_env \<Rightarrow> nat \<Rightarrow> log_event \<Rightarrow> log_sys \<Rightarrow> log_sys res option" where
  "Logger_debug fuel env l = Logger_log fuel env l DEBUG"

definition Logger_info :: "nat \<Rightarrow> log_env \<Rightarrow> nat \<Rightarrow> log_event \<Rightarrow> log_sys \<Rightarrow> log_sys res option" where
  "Logger_info fuel env l = Logger_log fuel env l INFO"

definition Logger_warn :: "nat \<Rightarrow> log_env \<Rightarrow> nat \<Rightarrow> log_event \<Rightarrow> log_sys \<Rightarrow> log_sys res option" where
  "Logger_warn fuel env l = Logger_log fuel env l WARN"

definition Logger_error :: "nat \<Rightarrow> log_env \<Rightarrow> nat \<Rightarrow> log_event \<Rightarrow> log_sys \<Rightarrow> log_sys res option" where
  "Logger_error fuel env l = Logger_log fuel env l ERROR"

definition Logger_fatal :: "nat \<Rightarrow> log_env \<Rightarrow> nat \<Rightarrow> log_event \<Rightarrow> log_sys \<Rightarrow> log_sys res option" where
  "Logger_fatal fuel env l = Logger_log fuel env l FATAL"

definition Logger_addAppender :: "nat \<Rightarrow> nat \<Rightarrow> log_sys \<Rightarrow> log_sys" where
  "Logger_addAppender l a s =
    (let s1 = (if LogAppender_getFormatter (appenders s ! a) = None
               then upd_appender a (LogAppender_setFormatter (lg_formatter (loggers s ! l))) s else s)
     in upd_logger l (\<lambda>x. x\<lparr>lg_appenders := lg_appenders x @ [a]\<rparr>) s1)"

definition Logger_delAppender :: "nat \<Rightarrow> nat \<Rightarrow> log_sys \<Rightarrow> log_sys" where
  "Logger_delAppender l a = upd_logger l (\<lambda>x. x\<lparr>lg_appenders := remove1 a (lg_appenders x)\<rparr>)"

definition Logger_clearAppenders :: "nat \<Rightarrow> log_sys \<Rightarrow> log_sys" where
  "Logger_clearAppenders l = upd_logger l (\<lambda>x. x\<lparr>lg_appenders := []\<rparr>)"

definition Logger_setLevel :: "nat \<Rightarrow> Level \<Rightarrow> log_sys \<Rightarrow> log_sys" where
  "Logger_setLevel l val = upd_logger l (\<lambda>x. x\<lparr>lg_level := val\<rparr>)"

definition Logger_setFormatter :: "nat \<Rightarrow> log_formatter option \<Rightarrow> log_sys \<Rightarrow> log_sys" where
  "Logger_setFormatter l val s =
    fold (\<lambda>a. upd_appender a (\<lambda>x. if ap_formatter x \<noteq> None then x\<lparr>ap_formatter := val\<rparr> else x))
      (lg_appenders (loggers s ! l)) (upd_logger l (\<lambda>x. x\<lparr>lg_formatter := val\<rparr>) s)"

text \<open>Lines written to \<^verbatim>\<open>std::cout\<close>.\<close>

definition prints :: "string list \<Rightarrow> log_sys \<Rightarrow> log_sys" where
  "prints out s = s\<lparr>std_out := std_out s @ concat (map (\<lambda>line. line @ [CHR 0x0A]) out)\<rparr>"

definition Logger_setFormatter_pattern :: "nat \<Rightarrow> string \<Rightarrow> log_sys \<Rightarrow> log_sys" where
  "Logger_setFormatter_pattern l val s =
    (case LogFormatter_init val of (new_val, out) \<Rightarrow>
       let s1 = prints out s
       in if m_error new_val
          then prints [''Logger setFormatter name='' @ lg_name (loggers s ! l) @ '' value='' @ val @ '' invalid formatter''] s1
          else Logger_setFormatter l (Some new_val) s1)"

definition Logger_getFormatter :: "nat \<Rightarrow> log_sys \<Rightarrow> log_formatter option" where
  "Logger_getFormatter l s = lg_formatter (loggers s ! l)"

definition LogManager_new :: log_sys where
  "LogManager_new =
    (let s0 = \<lparr>appenders = [], loggers = [Logger_new ''root''], m_loggers = [], m_root = 0, std_out = '''', files = (\<lambda>_. '''')\<rparr>
     in case new_appender StdoutLogAppender_new s0 of
          (a, s1) \<Rightarrow> (Logger_addAppender 0 a s1)\<lparr>m_loggers := map_put ''root'' 0 []\<rparr>)"

definition LogManager_getLogger :: "string \<Rightarrow> log_sys \<Rightarrow> nat \<times> log_sys" where
  "LogManager_getLogger name s =
    (case map_of (m_loggers s) name of
       Some l \<Rightarrow> (l, s)
     | None \<Rightarrow>
         (let l = length (loggers s)
          in (l, s\<lparr>loggers := loggers s @ [(Logger_new name)\<lparr>lg_root := Some (m_root s)\<rparr>],
                   m_loggers := map_put name l (m_loggers s)\<rparr>)))"

text \<open>
  The macros \<^verbatim>\<open>VITY_LOG_LEVEL\<close> and \<^verbatim>\<open>VITY_LOG_FMT_LEVEL\<close>: the event is
  made only if the logger's level lets it through, filled through its stream or its
  \<^verbatim>\<open>format\<close>, and logged by the destructor of its wrapper. A site is what the macro collects
  where it stands: file, line, thread, fiber, time and the name of the thread.
\<close>

type_synonym log_site = "string \<times> 32 word \<times> 32 word \<times> 32 word \<times> 64 word \<times> string"

definition event_at :: "nat \<Rightarrow> Level \<Rightarrow> log_site \<Rightarrow> log_event" where
  "event_at l level site =
    (case site of (file, line, thread_id, fiber_id, time, thread_name) \<Rightarrow>
       LogEvent_new l level file line 0 thread_id fiber_id time thread_name)"

definition LogEventWrap_delete :: "nat \<Rightarrow> log_env \<Rightarrow> log_event \<Rightarrow> log_sys \<Rightarrow> log_sys res option" where
  "LogEventWrap_delete fuel env ev s = Logger_log fuel env (ev_logger ev) (ev_level ev) ev s"

definition log_macro ::
  "nat \<Rightarrow> log_env \<Rightarrow> nat \<Rightarrow> Level \<Rightarrow> log_site \<Rightarrow> string \<Rightarrow> log_sys \<Rightarrow> log_sys res option"
where
  "log_macro fuel env l level site text s =
    (if lg_level (loggers s ! l) \<le> level
     then LogEventWrap_delete fuel env (LogEvent_append text (event_at l level site)) s
     else Some (Inr s))"

definition log_macro_fmt ::
  "nat \<Rightarrow> log_env \<Rightarrow> nat \<Rightarrow> Level \<Rightarrow> log_site \<Rightarrow> string option \<Rightarrow> log_sys \<Rightarrow> log_sys res option"
where
  "log_macro_fmt fuel env l level site r s =
    (if lg_level (loggers s ! l) \<le> level
     then LogEventWrap_delete fuel env (LogEvent_format r (event_at l level site)) s
     else Some (Inr s))"

section \<open>The configuration as YAML\<close>

definition level_entry :: "Level \<Rightarrow> (string \<times> yaml) list" where
  "level_entry level = (if level \<noteq> UNKNOW then [(''level'', Y_Scalar (LogLevel_ToString level))] else [])"

definition formatter_entry :: "appender \<Rightarrow> (string \<times> yaml) list" where
  "formatter_entry a =
    (case ap_formatter a of
       Some f \<Rightarrow> if ap_hasFormatter a then [(''formatter'', Y_Scalar (m_pattern f))] else []
     | None \<Rightarrow> [])"

definition StdoutLogAppender_toYamlString :: "yaml_lib \<Rightarrow> appender \<Rightarrow> string" where
  "StdoutLogAppender_toYamlString L a =
    yl_emit L (map_node ([(''type'', Y_Scalar ''StdoutLogAppender'')] @ level_entry (ap_level a) @ formatter_entry a))"

definition FileLogAppender_toYamlString :: "yaml_lib \<Rightarrow> string \<Rightarrow> appender \<Rightarrow> string" where
  "FileLogAppender_toYamlString L filename a =
    yl_emit L (map_node ([(''type'', Y_Scalar ''FileLogAppender''), (''file'', Y_Scalar filename)] @
      level_entry (ap_level a) @ formatter_entry a))"

definition LogAppender_toYamlString :: "yaml_lib \<Rightarrow> appender \<Rightarrow> string" where
  "LogAppender_toYamlString L a =
    (case ap_kind a of
       Stdout \<Rightarrow> StdoutLogAppender_toYamlString L a
     | File filename f t \<Rightarrow> FileLogAppender_toYamlString L filename a)"

definition Logger_toYamlString :: "yaml_lib \<Rightarrow> nat \<Rightarrow> log_sys \<Rightarrow> string res" where
  "Logger_toYamlString L l s =
    (let lg = loggers s ! l in
     bindR (mapR (\<lambda>a. yl_load L (LogAppender_toYamlString L (appenders s ! a))) (lg_appenders lg)) (\<lambda>ns.
       Inr (yl_emit L (map_node
         ([(''name'', Y_Scalar (lg_name lg))] @ level_entry (lg_level lg) @
          (case lg_formatter lg of Some f \<Rightarrow> [(''formatter'', Y_Scalar (m_pattern f))] | None \<Rightarrow> []) @
          (if ns = [] then [] else [(''appenders'', Y_Seq ns)]))))))"

definition LogManager_toYamlString :: "yaml_lib \<Rightarrow> log_sys \<Rightarrow> string res" where
  "LogManager_toYamlString L s =
    bindR (mapR (\<lambda>(name, l). bindR (Logger_toYamlString L l s) (yl_load L)) (m_loggers s)) (\<lambda>ns.
      Inr (yl_emit L (seq_node ns)))"

section \<open>What logging leaves alone\<close>

definition log_frame :: "log_sys \<Rightarrow> log_sys \<Rightarrow> bool" where
  "log_frame s s' \<longleftrightarrow> loggers s' = loggers s \<and> m_loggers s' = m_loggers s \<and> m_root s' = m_root s \<and>
     length (appenders s') = length (appenders s) \<and>
     (\<forall>a. ap_formatter (appenders s' ! a) = ap_formatter (appenders s ! a) \<and> ap_level (appenders s' ! a) = ap_level (appenders s ! a))"

lemma log_frame_refl [simp]: "log_frame s s"
  by (simp add: log_frame_def)

lemma log_frame_trans: "log_frame s t \<Longrightarrow> log_frame t u \<Longrightarrow> log_frame s u"
  by (simp add: log_frame_def)

lemma log_frame_upd:
  "(\<And>x. ap_formatter (f x) = ap_formatter x) \<Longrightarrow> (\<And>x. ap_level (f x) = ap_level x) \<Longrightarrow> log_frame s (upd_appender a f s)"
  by (cases "a < length (appenders s)") (auto simp: log_frame_def upd_appender_def nth_list_update list_update_beyond linorder_not_less)

lemma write_stream_frame: "log_frame s (write_stream env a text s)"
proof (cases "ap_kind (appenders s ! a)")
  case (File n f t)
  have "log_frame s (upd_appender a (\<lambda>x. x\<lparr>ap_kind := File n (f\<lparr>is_fail := True\<rparr>) t\<rparr>) s)"
    by (rule log_frame_upd) simp_all
  then show ?thesis using File by (auto simp: write_stream_def log_frame_def)
qed (simp add: write_stream_def)

text \<open>
  The date formats in use, those of the formatters of the appenders there are, expand to what the
  formatter's buffer of 64 bytes can hold; formatting then never fails. Of any other format nothing is asked.
\<close>

definition fits :: "log_env \<Rightarrow> log_formatter \<Rightarrow> bool" where
  "fits env f \<longleftrightarrow> (\<forall>fmt t. DateTimeFormatItem fmt \<in> set (m_items f) \<longrightarrow> length (le_strf env fmt t) < 64)"

definition dates_fit :: "log_env \<Rightarrow> log_sys \<Rightarrow> bool" where
  "dates_fit env s \<longleftrightarrow> (\<forall>a < length (appenders s). \<forall>f. ap_formatter (appenders s ! a) = Some f \<longrightarrow> fits env f)"

lemma dates_fit_frame: "dates_fit env s \<Longrightarrow> log_frame s s' \<Longrightarrow> dates_fit env s'"
  by (simp add: dates_fit_def log_frame_def)

lemma dates_fit_at: "dates_fit env s \<Longrightarrow> a < length (appenders s) \<Longrightarrow> ap_formatter (appenders s ! a) = Some f \<Longrightarrow> fits env f"
  by (simp add: dates_fit_def)

lemma format_total:
  assumes "fits env f" "ap_formatter x = Some f"
  shows "\<exists>text. format_with env x name level ev = Inr text"
proof -
  have item: "\<exists>s. FormatItem_format (le_strf env) it name level ev = Inr s" if "it \<in> set (m_items f)" for it
    using assms(1) that by (cases it) (auto simp: fits_def Let_def)
  have "set its \<subseteq> set (m_items f) \<Longrightarrow>
      \<exists>out. foldR (\<lambda>it ss. bindR (FormatItem_format (le_strf env) it name level ev) (\<lambda>s. Inr (ss @ s))) its ss = Inr out" for its ss
  proof (induction its arbitrary: ss)
    case (Cons it its)
    then obtain t where "FormatItem_format (le_strf env) it name level ev = Inr t" using item [of it] by auto
    with Cons show ?case by simp
  qed simp
  from this [OF order.refl, of "[]"] show ?thesis using assms(2) by (auto simp: format_with_def LogFormatter_format_def)
qed

lemma reopen_now_keeps: "ap_formatter (reopen_now env x) = ap_formatter x" "ap_level (reopen_now env x) = ap_level x"
  by (simp_all add: reopen_now_def FileLogAppender_reopen_def Let_def split: ap_kind.splits)

lemma LogAppender_log_total:
  assumes fit: "dates_fit env s" and a: "a < length (appenders s)" and f: "ap_formatter (appenders s ! a) \<noteq> None"
  shows "\<exists>s'. LogAppender_log env a name level ev s = Inr s' \<and> log_frame s s'"
proof (cases "level \<ge> ap_level (appenders s ! a)")
  case le: True
  from f obtain fm where fm: "ap_formatter (appenders s ! a) = Some fm" by blast
  note fits = dates_fit_at [OF fit a fm]
  show ?thesis
  proof (cases "ap_kind (appenders s ! a)")
    case Stdout
    with le format_total [OF fits fm] show ?thesis
      by (fastforce simp: LogAppender_log_def StdoutLogAppender_log_def log_frame_def)
  next
    case (File n st t)
    define s1 where "s1 = (if le_now env \<noteq> t then upd_appender a (reopen_now env) s else s)"
    have fr: "log_frame s s1" using reopen_now_keeps by (auto simp: s1_def intro: log_frame_upd)
    then have "ap_formatter (appenders s1 ! a) = Some fm" using fm by (simp add: log_frame_def)
    from format_total [OF fits this] obtain out where "format_with env (appenders s1 ! a) name level ev = Inr out" by blast
    then have "LogAppender_log env a name level ev s = Inr (write_stream env a out s1)"
      using File le by (simp add: LogAppender_log_def FileLogAppender_log_def s1_def Let_def split: if_splits)
    with fr write_stream_frame show ?thesis by (blast intro: log_frame_trans)
  qed
next
  case False
  then show ?thesis
    by (auto simp: LogAppender_log_def StdoutLogAppender_log_def FileLogAppender_log_def split: ap_kind.splits)
qed

lemma log_all_total:
  assumes "dates_fit env s" and "\<forall>a \<in> set as. a < length (appenders s) \<and> ap_formatter (appenders s ! a) \<noteq> None"
  shows "\<exists>s'. foldR (\<lambda>a. LogAppender_log env a name level ev) as s = Inr s' \<and> log_frame s s'"
  using assms
proof (induction as arbitrary: s)
  case (Cons a as)
  obtain s1 where s1: "LogAppender_log env a name level ev s = Inr s1" "log_frame s s1"
    using LogAppender_log_total [OF Cons.prems(1), of a name level ev] Cons.prems(2) by auto
  then have "\<forall>a \<in> set as. a < length (appenders s1) \<and> ap_formatter (appenders s1 ! a) \<noteq> None"
    using Cons.prems(2) by (simp add: log_frame_def)
  from Cons.IH [OF dates_fit_frame [OF Cons.prems(1) s1(2)] this] s1 show ?case by (fastforce intro: log_frame_trans)
qed simp

section \<open>Reachable states\<close>

text \<open>\<open>O_Print\<close> is whatever else is written to standard output.\<close>

datatype log_op =
    O_Get string
  | O_Stdout
  | O_File log_env string
  | O_Add nat nat
  | O_Del nat nat
  | O_Clear nat
  | O_SetFmt nat string
  | O_Level nat Level
  | O_ApLevel nat Level
  | O_ApFmt nat log_formatter
  | O_Print "string list"
  | O_Log log_env nat Level log_event

fun log_do :: "log_op \<Rightarrow> log_sys \<Rightarrow> log_sys" where
  "log_do (O_Get name) s = snd (LogManager_getLogger name s)"
| "log_do O_Stdout s = snd (new_appender StdoutLogAppender_new s)"
| "log_do (O_File env filename) s = snd (new_appender (FileLogAppender_new env filename) s)"
| "log_do (O_Add l a) s = Logger_addAppender l a s"
| "log_do (O_Del l a) s = Logger_delAppender l a s"
| "log_do (O_Clear l) s = Logger_clearAppenders l s"
| "log_do (O_SetFmt l val) s = Logger_setFormatter_pattern l val s"
| "log_do (O_Level l val) s = Logger_setLevel l val s"
| "log_do (O_ApLevel a val) s = upd_appender a (\<lambda>x. x\<lparr>ap_level := val\<rparr>) s"
| "log_do (O_ApFmt a f) s = upd_appender a (LogAppender_setFormatter (Some f)) s"
| "log_do (O_Print out) s = prints out s"
| "log_do (O_Log env l level ev) s = (case Logger_log 2 env l level ev s of Some (Inr s') \<Rightarrow> s' | _ \<Rightarrow> s)"

text \<open>Pointers are to loggers and appenders that exist; the dates in use fit the formatter's buffer when a record is logged.\<close>

fun log_allowed :: "log_op \<Rightarrow> log_sys \<Rightarrow> bool" where
  "log_allowed (O_Add l a) s = (l < length (loggers s) \<and> a < length (appenders s))"
| "log_allowed (O_Log env l level ev) s = (l < length (loggers s) \<and> dates_fit env s)"
| "log_allowed (O_Del l a) s = (l < length (loggers s))"
| "log_allowed (O_Clear l) s = (l < length (loggers s))"
| "log_allowed (O_SetFmt l val) s = (l < length (loggers s))"
| "log_allowed (O_Level l val) s = (l < length (loggers s))"
| "log_allowed op s = True"

inductive log_run :: "log_sys \<Rightarrow> bool" where
  log_start: "log_run LogManager_new"
| log_step: "log_run s \<Longrightarrow> log_allowed op s \<Longrightarrow> log_run (log_do op s)"

definition logger_ok :: "log_sys \<Rightarrow> logger \<Rightarrow> bool" where
  "logger_ok s lg \<longleftrightarrow> (lg_root lg = None \<or> lg_root lg = Some (m_root s)) \<and> lg_formatter lg \<noteq> None \<and>
     (\<forall>a \<in> set (lg_appenders lg). a < length (appenders s) \<and> ap_formatter (appenders s ! a) \<noteq> None)"

definition log_ok :: "log_sys \<Rightarrow> bool" where
  "log_ok s \<longleftrightarrow> sorted_keys (m_loggers s) \<and>
     (\<forall>name l. map_of (m_loggers s) name = Some l \<longrightarrow> l < length (loggers s) \<and> lg_name (loggers s ! l) = name) \<and>
     m_root s < length (loggers s) \<and> lg_root (loggers s ! m_root s) = None \<and>
     (\<forall>lg \<in> set (loggers s). logger_ok s lg)"

lemma log_ok_frame:
  assumes ok: "log_ok s" and same: "loggers s' = loggers s" "m_loggers s' = m_loggers s" "m_root s' = m_root s"
    and len: "length (appenders s) \<le> length (appenders s')"
    and fm: "\<And>a. a < length (appenders s) \<Longrightarrow> ap_formatter (appenders s ! a) \<noteq> None \<Longrightarrow> ap_formatter (appenders s' ! a) \<noteq> None"
  shows "log_ok s'"
proof -
  have "logger_ok s' lg" if "lg \<in> set (loggers s)" for lg
    using ok that len fm unfolding log_ok_def logger_ok_def same by (meson less_le_trans)
  with ok show ?thesis by (simp add: log_ok_def same)
qed

lemma log_ok_upd_logger:
  assumes ok: "log_ok s" and l: "l < length (loggers s)"
    and keep: "lg_name (f (loggers s ! l)) = lg_name (loggers s ! l)" "lg_root (f (loggers s ! l)) = lg_root (loggers s ! l)"
    and new: "logger_ok s (f (loggers s ! l))"
  shows "log_ok (upd_logger l f s)"
proof -
  have "logger_ok (upd_logger l f s) lg" if "lg \<in> set (loggers (upd_logger l f s))" for lg
  proof -
    from that have "lg = f (loggers s ! l) \<or> lg \<in> set (loggers s)"
      by (auto simp: upd_logger_def dest!: set_update_subset_insert [THEN subsetD])
    with ok new show ?thesis by (auto simp: log_ok_def logger_ok_def upd_logger_def)
  qed
  with ok l keep show ?thesis by (auto simp: log_ok_def upd_logger_def nth_list_update)
qed

lemma upd_appender_fields [simp]:
  "loggers (upd_appender a f s) = loggers s" "m_loggers (upd_appender a f s) = m_loggers s"
  "m_root (upd_appender a f s) = m_root s" "length (appenders (upd_appender a f s)) = length (appenders s)"
  by (simp_all add: upd_appender_def)

lemma log_ok_upd_appender:
  assumes "log_ok s" "\<And>x. ap_formatter x \<noteq> None \<Longrightarrow> ap_formatter (f x) \<noteq> None"
  shows "log_ok (upd_appender a f s)"
proof (rule log_ok_frame [OF assms(1)])
  fix b assume "b < length (appenders s)" "ap_formatter (appenders s ! b) \<noteq> None"
  with assms(2) show "ap_formatter (appenders (upd_appender a f s) ! b) \<noteq> None"
    by (cases "b = a") (simp_all add: upd_appender_def)
qed simp_all

lemma logger_ok_at: "log_ok s \<Longrightarrow> l < length (loggers s) \<Longrightarrow> logger_ok s (loggers s ! l)"
  by (simp add: log_ok_def)

lemma log_ok_add:
  assumes ok: "log_ok s" and l: "l < length (loggers s)" and a: "a < length (appenders s)"
  shows "log_ok (Logger_addAppender l a s)"
proof -
  obtain fm where fm: "lg_formatter (loggers s ! l) = Some fm" using logger_ok_at [OF ok l] by (auto simp: logger_ok_def)
  define s1 where "s1 = (if LogAppender_getFormatter (appenders s ! a) = None
               then upd_appender a (LogAppender_setFormatter (lg_formatter (loggers s ! l))) s else s)"
  have ok1: "log_ok s1"
    using ok fm by (auto simp: s1_def LogAppender_setFormatter_def intro!: log_ok_upd_appender)
  have same: "loggers s1 = loggers s" "length (appenders s1) = length (appenders s)" by (simp_all add: s1_def)
  have "ap_formatter (appenders s1 ! a) \<noteq> None"
    using a fm by (auto simp: s1_def LogAppender_getFormatter_def LogAppender_setFormatter_def upd_appender_def)
  with logger_ok_at [OF ok1, of l] l a same have "logger_ok s1 ((loggers s1 ! l)\<lparr>lg_appenders := lg_appenders (loggers s1 ! l) @ [a]\<rparr>)"
    by (auto simp: logger_ok_def)
  then have "log_ok (upd_logger l (\<lambda>x. x\<lparr>lg_appenders := lg_appenders x @ [a]\<rparr>) s1)"
    using l same by (intro log_ok_upd_logger [OF ok1]) simp_all
  then show ?thesis by (simp add: Logger_addAppender_def s1_def)
qed

lemma prints_fields [simp]:
  "loggers (prints out s) = loggers s" "appenders (prints out s) = appenders s"
  "m_loggers (prints out s) = m_loggers s" "m_root (prints out s) = m_root s"
  by (simp_all add: prints_def)

lemma log_ok_prints [simp]: "log_ok s \<Longrightarrow> log_ok (prints out s)"
  by (rule log_ok_frame [of s]) simp_all

lemma log_ok_setFormatter:
  assumes ok: "log_ok s" and l: "l < length (loggers s)"
  shows "log_ok (Logger_setFormatter l (Some fm) s)"
proof -
  define s1 where "s1 = upd_logger l (\<lambda>x. x\<lparr>lg_formatter := Some fm\<rparr>) s"
  have ok1: "log_ok s1"
    unfolding s1_def using logger_ok_at [OF ok l] by (intro log_ok_upd_logger [OF ok l]) (simp_all add: logger_ok_def)
  have "log_ok (fold (\<lambda>a. upd_appender a (\<lambda>x. if ap_formatter x \<noteq> None then x\<lparr>ap_formatter := Some fm\<rparr> else x)) as t)"
    if "log_ok t" for as t
    using that by (induction as arbitrary: t) (simp_all add: log_ok_upd_appender)
  from this [OF ok1] show ?thesis by (simp add: Logger_setFormatter_def s1_def)
qed

lemma log_ok_new_appender: "log_ok s \<Longrightarrow> log_ok (snd (new_appender x s))"
  by (rule log_ok_frame [of s]) (simp_all add: new_appender_def nth_append)

lemma log_ok_get:
  assumes ok: "log_ok s"
  shows "log_ok (snd (LogManager_getLogger name s))"
proof (cases "map_of (m_loggers s) name")
  case None
  let ?new = "(Logger_new name)\<lparr>lg_root := Some (m_root s)\<rparr>" let ?s = "snd (LogManager_getLogger name s)"
  have s': "?s = s\<lparr>loggers := loggers s @ [?new], m_loggers := map_put name (length (loggers s)) (m_loggers s)\<rparr>"
    using None by (simp add: LogManager_getLogger_def Let_def)
  have sorted: "sorted_keys (m_loggers s)" using ok by (simp add: log_ok_def)
  have "logger_ok ?s lg" if "lg \<in> set (loggers ?s)" for lg
    using that ok by (auto simp: s' log_ok_def logger_ok_def Logger_new_def)
  then show ?thesis
    using ok unfolding log_ok_def
    by (auto simp: s' std_map.find_put [OF sorted] std_map.ok_put [OF sorted] nth_append Logger_new_def less_SucI split: if_splits)
qed (use ok in \<open>simp add: LogManager_getLogger_def\<close>)

lemma log_ok_new: "log_ok LogManager_new"
  by (simp add: log_ok_def logger_ok_def LogManager_new_def new_appender_def Logger_addAppender_def upd_logger_def
      upd_appender_def LogAppender_getFormatter_def LogAppender_setFormatter_def StdoutLogAppender_new_def Logger_new_def Let_def)

text \<open>
  Where a record goes: the logger itself if it has appenders, otherwise the root logger, whose own
  level then counts too.
\<close>

definition log_target :: "log_sys \<Rightarrow> nat \<Rightarrow> nat" where
  "log_target s l =
    (if lg_appenders (loggers s ! l) = [] \<and> lg_root (loggers s ! l) \<noteq> None then m_root s else l)"

definition log_passes :: "log_sys \<Rightarrow> nat \<Rightarrow> Level \<Rightarrow> bool" where
  "log_passes s l level \<longleftrightarrow> lg_level (loggers s ! l) \<le> level \<and> lg_level (loggers s ! log_target s l) \<le> level"

lemma Logger_log_target:
  assumes ok: "log_ok s" and l: "l < length (loggers s)"
  shows "Logger_log (Suc (Suc n)) env l level ev s =
    Some (if log_passes s l level then
        foldR (\<lambda>a. LogAppender_log env a (lg_name (loggers s ! log_target s l)) level ev) (lg_appenders (loggers s ! log_target s l)) s
      else Inr s)"
proof -
  from logger_ok_at [OF ok l] have "lg_root (loggers s ! l) = None \<or> lg_root (loggers s ! l) = Some (m_root s)"
    by (simp add: logger_ok_def)
  moreover have "lg_root (loggers s ! m_root s) = None" using ok by (simp add: log_ok_def)
  ultimately show ?thesis by (auto simp: log_passes_def log_target_def Let_def)
qed

lemma log_target_ok: "log_ok s \<Longrightarrow> l < length (loggers s) \<Longrightarrow> log_target s l < length (loggers s)"
  by (simp add: log_target_def log_ok_def)

lemma Logger_log_total:
  assumes ok: "log_ok s" and l: "l < length (loggers s)" and fit: "dates_fit env s"
  shows "\<exists>s'. Logger_log (Suc (Suc n)) env l level ev s = Some (Inr s') \<and> log_frame s s'"
proof (cases "log_passes s l level")
  case True
  have "\<forall>a \<in> set (lg_appenders (loggers s ! log_target s l)). a < length (appenders s) \<and> ap_formatter (appenders s ! a) \<noteq> None"
    using logger_ok_at [OF ok log_target_ok [OF ok l]] by (simp add: logger_ok_def)
  from log_all_total [OF fit this] True show ?thesis unfolding Logger_log_target [OF ok l] by simp
next
  case False
  then show ?thesis unfolding Logger_log_target [OF ok l] by simp
qed

lemma log_ok_log_frame: "log_ok s \<Longrightarrow> log_frame s s' \<Longrightarrow> log_ok s'"
  by (rule log_ok_frame [of s]) (simp_all add: log_frame_def)

lemma log_ok_fewer:
  assumes ok: "log_ok s" and l: "l < length (loggers s)"
    and sub: "set (as (loggers s ! l)) \<subseteq> set (lg_appenders (loggers s ! l))"
  shows "log_ok (upd_logger l (\<lambda>x. x\<lparr>lg_appenders := as x\<rparr>) s)"
proof (rule log_ok_upd_logger [OF ok l])
  show "logger_ok s ((loggers s ! l)\<lparr>lg_appenders := as (loggers s ! l)\<rparr>)"
    using logger_ok_at [OF ok l] sub by (auto simp: logger_ok_def)
qed simp_all

lemma log_ok_do [keeps]:
  assumes ok: "log_ok s" and allowed: "log_allowed op s"
  shows "log_ok (log_do op s)"
proof (cases op)
  case (O_Log env l level ev)
  obtain s' where "Logger_log (Suc (Suc 0)) env l level ev s = Some (Inr s')" "log_frame s s'"
    using Logger_log_total [OF ok, of l env 0] allowed O_Log by auto
  with O_Log have "log_do op s = s'" by (simp add: numeral_2_eq_2 del: Logger_log.simps)
  with ok \<open>log_frame s s'\<close> show ?thesis by (simp add: log_ok_log_frame)
next
  case (O_Del l a)
  with allowed log_ok_fewer [OF ok, of l "\<lambda>x. remove1 a (lg_appenders x)"] show ?thesis
    by (simp add: Logger_delAppender_def set_remove1_subset)
next
  case (O_Clear l)
  with allowed log_ok_fewer [OF ok, of l "\<lambda>_. []"] show ?thesis by (simp add: Logger_clearAppenders_def)
next
  case (O_Level l lev)
  with allowed logger_ok_at [OF ok, of l] show ?thesis
    by (auto simp: Logger_setLevel_def logger_ok_def intro!: log_ok_upd_logger [OF ok])
next
  case (O_SetFmt l val)
  with allowed ok show ?thesis
    by (auto simp: Logger_setFormatter_pattern_def Let_def log_ok_setFormatter split: prod.split)
next
  case (O_ApLevel a lev)
  with ok show ?thesis by (auto intro: log_ok_upd_appender)
next
  case (O_ApFmt a f)
  with ok show ?thesis by (auto simp: LogAppender_setFormatter_def intro: log_ok_upd_appender)
qed (use ok allowed in \<open>simp_all add: log_ok_get log_ok_new_appender log_ok_add\<close>)

lemma log_run_ok: "log_run s \<Longrightarrow> log_ok s"
  by (induction rule: log_run.induct) (simp_all add: log_ok_new log_ok_do)

section \<open>What a record does\<close>

lemma fuel_two: "2 \<le> fuel \<Longrightarrow> \<exists>n. fuel = Suc (Suc n)"
  by presburger

text \<open>
  Logging in every reachable state: \<^verbatim>\<open>Logger::log\<close> returns (two levels of calls are
  enough) and never fails, if the dates in use fit the formatter's buffer. The record goes to the appenders of the logger, or of the root logger if
  it has none, and then under the name of the root logger; it goes nowhere if the level of one of the
  loggers asked is higher. Loggers, names, levels and formatters stay as they are.
\<close>
theorem logging_spec:
  assumes "log_run s" and "l < length (loggers s)" and "dates_fit env s" and "2 \<le> fuel"
  shows "Logger_log fuel env l level ev s =
      Some (if log_passes s l level
            then foldR (\<lambda>a. LogAppender_log env a (lg_name (loggers s ! log_target s l)) level ev)
                   (lg_appenders (loggers s ! log_target s l)) s
            else Inr s) \<and>
    (\<exists>s'. Logger_log fuel env l level ev s = Some (Inr s') \<and> log_frame s s')"
proof -
  obtain n where "fuel = Suc (Suc n)" using fuel_two [OF assms(4)] by blast
  with Logger_log_target [OF log_run_ok] Logger_log_total [OF log_run_ok] assms(1-3) show ?thesis by metis
qed

text \<open>
  Where an appender writes (a file or, as \<open>None\<close>, standard output), whether it is able to, and what
  it makes of a record.
\<close>

definition dest :: "appender \<Rightarrow> string option" where
  "dest x = (case ap_kind x of Stdout \<Rightarrow> None | File n f t \<Rightarrow> Some n)"

definition ready :: "log_env \<Rightarrow> appender \<Rightarrow> bool" where
  "ready env x = (case ap_kind x of Stdout \<Rightarrow> True
     | File n f t \<Rightarrow> is_open f \<and> \<not> is_fail f \<or> \<not> is_open f \<and> le_now env \<noteq> t)"

definition out_text :: "string option \<Rightarrow> log_sys \<Rightarrow> string" where
  "out_text d s = (case d of None \<Rightarrow> std_out s | Some n \<Rightarrow> files s n)"

definition record_text :: "log_env \<Rightarrow> string \<Rightarrow> Level \<Rightarrow> log_event \<Rightarrow> appender \<Rightarrow> string" where
  "record_text env name level ev x =
    (case format_with env x name level ev of Inr out \<Rightarrow> if ap_level x \<le> level then out else [] | Inl e \<Rightarrow> [])"

definition disk_ok :: "log_env \<Rightarrow> bool" where
  "disk_ok env \<longleftrightarrow> (\<forall>n. le_can_open env n \<and> le_can_write env n)"

definition same_sinks :: "log_env \<Rightarrow> log_sys \<Rightarrow> log_sys \<Rightarrow> bool" where
  "same_sinks env s s' \<longleftrightarrow> log_frame s s' \<and>
     (\<forall>a. dest (appenders s' ! a) = dest (appenders s ! a)) \<and>
     (\<forall>a. ready env (appenders s ! a) \<longrightarrow> ready env (appenders s' ! a))"

lemma same_sinks_refl [simp]: "same_sinks env s s"
  by (simp add: same_sinks_def)

lemma same_sinks_trans: "same_sinks env s t \<Longrightarrow> same_sinks env t u \<Longrightarrow> same_sinks env s u"
  by (auto simp: same_sinks_def intro: log_frame_trans)

lemma same_sinks_text:
  "same_sinks env s s' \<Longrightarrow> record_text env name level ev (appenders s' ! a) = record_text env name level ev (appenders s ! a)"
  by (simp add: same_sinks_def log_frame_def record_text_def format_with_def split: sum.split)

lemma reopen_now_ready:
  assumes "ready env x" "disk_ok env" "ap_kind x = File n f t" "le_now env \<noteq> t"
  shows "ap_kind (reopen_now env x) = File n \<lparr>is_open = True, is_fail = False\<rparr> (le_now env)"
  using assms
  by (cases f) (auto simp: reopen_now_def FileLogAppender_reopen_def reopen_stream_def stream_open_def
      stream_close_def ready_def disk_ok_def Let_def)

lemma same_sinks_reopen:
  assumes "ready env (appenders s ! a)" "disk_ok env" "ap_kind (appenders s ! a) = File n f t" "le_now env \<noteq> t"
  shows "same_sinks env s (upd_appender a (reopen_now env) s)"
proof -
  have "log_frame s (upd_appender a (reopen_now env) s)" using reopen_now_keeps by (auto intro: log_frame_upd)
  moreover have "appenders (upd_appender a (reopen_now env) s) ! b =
      (if b = a \<and> a < length (appenders s) then reopen_now env (appenders s ! a) else appenders s ! b)" for b
    by (cases "a < length (appenders s)") (auto simp: upd_appender_def nth_list_update list_update_beyond linorder_not_less)
  ultimately show ?thesis
    using reopen_now_ready [OF assms] assms(3) by (auto simp: same_sinks_def dest_def ready_def)
qed

lemma LogAppender_log_output:
  assumes fit: "dates_fit env s" and disk: "disk_ok env" and a: "a < length (appenders s)"
    and f: "ap_formatter (appenders s ! a) \<noteq> None" and r: "ready env (appenders s ! a)"
  shows "\<exists>s'. LogAppender_log env a name level ev s = Inr s' \<and> same_sinks env s s' \<and>
    (\<forall>d. out_text d s' = out_text d s @
       (if dest (appenders s ! a) = d then record_text env name level ev (appenders s ! a) else []))"
proof -
  from f obtain fm where fm: "ap_formatter (appenders s ! a) = Some fm" by blast
  from format_total [OF dates_fit_at [OF fit a fm] fm] obtain out where out: "format_with env (appenders s ! a) name level ev = Inr out" by blast
  show ?thesis
  proof (cases "level \<ge> ap_level (appenders s ! a)")
    case le: True
    show ?thesis
    proof (cases "ap_kind (appenders s ! a)")
      case Stdout
      with le out show ?thesis
        by (auto simp: LogAppender_log_def StdoutLogAppender_log_def same_sinks_def log_frame_def dest_def out_text_def
            record_text_def split: option.split)
    next
      case (File n st t)
      define s1 where "s1 = (if le_now env \<noteq> t then upd_appender a (reopen_now env) s else s)"
      have ss: "same_sinks env s s1" using same_sinks_reopen [OF r disk File] by (simp add: s1_def)
      have k: "\<exists>st' t'. ap_kind (appenders s1 ! a) = File n st' t' \<and> is_open st' \<and> \<not> is_fail st'"
        using reopen_now_ready [OF r disk File] a r File by (auto simp: s1_def upd_appender_def ready_def)
      have "format_with env (appenders s1 ! a) name level ev = Inr out"
        using out ss by (simp add: format_with_def same_sinks_def log_frame_def)
      then have "LogAppender_log env a name level ev s = Inr (write_stream env a out s1)"
        using File le by (simp add: LogAppender_log_def FileLogAppender_log_def s1_def Let_def split: if_splits)
      moreover have "write_stream env a out s1 = s1\<lparr>files := (files s1)(n := files s1 n @ out)\<rparr>"
        using k disk by (auto simp: write_stream_def disk_ok_def)
      moreover have "std_out s1 = std_out s" "files s1 = files s" by (simp_all add: s1_def upd_appender_def)
      moreover have "same_sinks env s (s1\<lparr>files := (files s1)(n := files s1 n @ out)\<rparr>)"
        using ss by (simp add: same_sinks_def log_frame_def)
      ultimately show ?thesis using File out le
        by (auto simp: dest_def record_text_def out_text_def split: option.split)
    qed
  next
    case False
    with out show ?thesis
      by (auto simp: LogAppender_log_def StdoutLogAppender_log_def FileLogAppender_log_def record_text_def split: ap_kind.splits)
  qed
qed

lemma log_all_output:
  assumes "dates_fit env s" and "disk_ok env"
    and "\<forall>a \<in> set as. a < length (appenders s) \<and> ap_formatter (appenders s ! a) \<noteq> None \<and> ready env (appenders s ! a)"
  shows "\<exists>s'. foldR (\<lambda>a. LogAppender_log env a name level ev) as s = Inr s' \<and> same_sinks env s s' \<and>
    (\<forall>d. out_text d s' = out_text d s @
       concat (map (\<lambda>a. record_text env name level ev (appenders s ! a)) (filter (\<lambda>a. dest (appenders s ! a) = d) as)))"
  using assms(1,3)
proof (induction as arbitrary: s)
  case (Cons a as)
  obtain s1 where s1: "LogAppender_log env a name level ev s = Inr s1" "same_sinks env s s1"
    "\<And>d. out_text d s1 = out_text d s @ (if dest (appenders s ! a) = d then record_text env name level ev (appenders s ! a) else [])"
    using LogAppender_log_output [OF Cons.prems(1) assms(2), of a name level ev] Cons.prems(2) by auto
  then have "\<forall>a \<in> set as. a < length (appenders s1) \<and> ap_formatter (appenders s1 ! a) \<noteq> None \<and> ready env (appenders s1 ! a)"
    using Cons.prems(2) by (simp add: same_sinks_def log_frame_def)
  moreover have "dates_fit env s1" using Cons.prems(1) s1(2) by (auto simp: same_sinks_def intro: dates_fit_frame)
  ultimately obtain s2 where s2: "foldR (\<lambda>a. LogAppender_log env a name level ev) as s1 = Inr s2"
    "same_sinks env s1 s2" "\<And>d. out_text d s2 = out_text d s1 @
       concat (map (\<lambda>a. record_text env name level ev (appenders s1 ! a)) (filter (\<lambda>a. dest (appenders s1 ! a) = d) as))"
    using Cons.IH by blast
  moreover have "dest (appenders s1 ! a) = dest (appenders s ! a)" for a using s1(2) by (simp add: same_sinks_def)
  ultimately show ?case using s1 same_sinks_text [OF s1(2)] by (auto intro: same_sinks_trans)
qed simp

lemma Logger_log_writes:
  assumes "log_run s" and "l < length (loggers s)" and "dates_fit env s" and "disk_ok env"
    and "\<forall>a \<in> set (lg_appenders (loggers s ! log_target s l)). ready env (appenders s ! a)"
  shows "\<exists>s'. Logger_log 2 env l level ev s = Some (Inr s') \<and>
    (\<forall>d. out_text d s' = out_text d s @
       (if log_passes s l level
        then concat (map (\<lambda>a. record_text env (lg_name (loggers s ! log_target s l)) level ev (appenders s ! a))
               (filter (\<lambda>a. dest (appenders s ! a) = d) (lg_appenders (loggers s ! log_target s l))))
        else [])) \<and>
    (\<forall>a. ready env (appenders s ! a) \<longrightarrow> ready env (appenders s' ! a))"
proof -
  have ok: "log_ok s" using assms(1) by (rule log_run_ok)
  note L = Logger_log_target [OF ok assms(2), of 0, folded numeral_2_eq_2]
  show ?thesis
  proof (cases "log_passes s l level")
    case True
    have "logger_ok s (loggers s ! log_target s l)" using ok log_target_ok [OF ok assms(2)] by (rule logger_ok_at)
    then have "\<forall>a \<in> set (lg_appenders (loggers s ! log_target s l)).
        a < length (appenders s) \<and> ap_formatter (appenders s ! a) \<noteq> None \<and> ready env (appenders s ! a)"
      using assms(5) by (simp add: logger_ok_def)
    from log_all_output [OF assms(3,4) this, where name = "lg_name (loggers s ! log_target s l)" and level = level and ev = ev] True
    show ?thesis unfolding L by (auto simp: same_sinks_def)
  qed (simp add: L)
qed

text \<open>
  C12. Every record that passes is written once, in full and in order: in every state the loggers
  can reach, with a working disk, appenders of the target that are able to write, and dates that fit the 64-byte
  buffer of the formatter, what a destination (standard output, or one file) has gained
  after \<^verbatim>\<open>Logger::log\<close> is the formatted records of exactly the target's appenders
  that write there and whose level passes, in the order of the list; nothing else is written, and
  the appenders are able to write again.
\<close>
theorem log_output:
  assumes "log_run s" and "l < length (loggers s)" and "dates_fit env s" and "disk_ok env"
    and "\<forall>a \<in> set (lg_appenders (loggers s ! log_target s l)). ready env (appenders s ! a)"
  shows "\<exists>s'. Logger_log 2 env l level ev s = Some (Inr s') \<and>
    (\<forall>d. out_text d s' = out_text d s @
       (if log_passes s l level
        then concat (map (\<lambda>a. record_text env (lg_name (loggers s ! log_target s l)) level ev (appenders s ! a))
               (filter (\<lambda>a. dest (appenders s ! a) = d) (lg_appenders (loggers s ! log_target s l))))
        else [])) \<and>
    (\<forall>a. ready env (appenders s ! a) \<longrightarrow> ready env (appenders s' ! a))"
  by (rule Logger_log_writes [OF assms])

text \<open>
  The manager after \<^verbatim>\<open>getLogger("sys")\<close>, and an environment: its \<^verbatim>\<open>strftime\<close> copies
  ordinary characters and its clock stands.
\<close>

definition demo_logs :: log_sys where
  "demo_logs = log_do (O_Get ''sys'') LogManager_new"

fun demo_strf :: "string \<Rightarrow> int \<Rightarrow> string" where
  "demo_strf [] t = []"
| "demo_strf [c] t = [c]"
| "demo_strf (c # d # fmt) t =
    (if c = CHR ''%'' then (if d = CHR ''%'' then ''%'' else if d = CHR ''Y'' then ''1970'' else ''01'') @ demo_strf fmt t
     else c # demo_strf (d # fmt) t)"

definition demo_env :: log_env where
  "demo_env = \<lparr>le_strf = demo_strf, le_now = 5, le_can_open = (\<lambda>_. True), le_can_write = (\<lambda>_. True)\<rparr>"

lemma demo_logs_run: "log_run demo_logs"
  unfolding demo_logs_def by (intro log_run.intros) simp

lemma demo_logs_parts:
  "loggers demo_logs = [(Logger_new ''root'')\<lparr>lg_appenders := [0]\<rparr>, (Logger_new ''sys'')\<lparr>lg_root := Some 0\<rparr>]"
  "appenders demo_logs = [LogAppender_setFormatter (lg_formatter (Logger_new ''root'')) StdoutLogAppender_new]"
  "m_loggers demo_logs = [(''root'', 0), (''sys'', 1)]" "m_root demo_logs = 0" "std_out demo_logs = []"
  by (simp_all add: demo_logs_def LogManager_new_def LogManager_getLogger_def new_appender_def Logger_addAppender_def
      upd_logger_def upd_appender_def LogAppender_getFormatter_def StdoutLogAppender_new_def Logger_new_def Let_def)

lemma demo_target: "log_target demo_logs (Suc 0) = 0" "log_passes demo_logs (Suc 0) INFO"
  by (simp_all add: log_target_def log_passes_def demo_logs_parts Logger_new_def less_eq_Level_def)

lemma demo_fits: "fits demo_env (LogFormatter_new default_pattern)"
proof -
  have "fmt = ''%Y-%m-%d %H:%M:%S''" if "DateTimeFormatItem fmt \<in> set (m_items (LogFormatter_new default_pattern))" for fmt
    using that by (simp add: default_items)
  moreover have "length (demo_strf ''%Y-%m-%d %H:%M:%S'' t) = 19" for t by simp
  ultimately show ?thesis by (fastforce simp: fits_def demo_env_def)
qed

lemma demo_disk: "disk_ok demo_env"
  by (simp add: disk_ok_def demo_env_def)

lemma demo_fit: "dates_fit demo_env demo_logs" "dates_fit demo_env LogManager_new"
  using demo_fits
  by (simp_all add: dates_fit_def demo_logs_parts LogAppender_setFormatter_def Logger_new_def LogManager_new_def new_appender_def
      Logger_addAppender_def upd_logger_def upd_appender_def LogAppender_getFormatter_def StdoutLogAppender_new_def Let_def)

theorem logging_spec_witness:
  "\<forall>ev. \<exists>s'. Logger_log 2 demo_env (Suc 0) INFO ev demo_logs = Some (Inr s') \<and> log_frame demo_logs s'"
  by (rule allI, rule logging_spec [OF demo_logs_run _ demo_fit(1), THEN conjunct2]) (simp_all add: demo_logs_parts)

theorem log_output_witness:
  "\<forall>ev. \<exists>s'. Logger_log 2 demo_env (Suc 0) INFO ev demo_logs = Some (Inr s') \<and>
    std_out s' = record_text demo_env ''root'' INFO ev (appenders demo_logs ! 0)"
proof
  fix ev
  have apps: "lg_appenders (loggers demo_logs ! 0) = [0]" "lg_name (loggers demo_logs ! 0) = ''root''"
    "ap_kind (appenders demo_logs ! 0) = Stdout"
    by (simp_all add: demo_logs_parts LogAppender_setFormatter_def StdoutLogAppender_new_def Logger_new_def)
  then have "\<forall>a \<in> set (lg_appenders (loggers demo_logs ! log_target demo_logs (Suc 0))). ready demo_env (appenders demo_logs ! a)"
    by (simp add: demo_target ready_def)
  moreover have "Suc 0 < length (loggers demo_logs)" by (simp add: demo_logs_parts)
  ultimately obtain s' where s': "Logger_log 2 demo_env (Suc 0) INFO ev demo_logs = Some (Inr s')"
    "\<And>d. out_text d s' = out_text d demo_logs @
       (if log_passes demo_logs (Suc 0) INFO
        then concat (map (\<lambda>a. record_text demo_env (lg_name (loggers demo_logs ! log_target demo_logs (Suc 0))) INFO ev (appenders demo_logs ! a))
               (filter (\<lambda>a. dest (appenders demo_logs ! a) = d) (lg_appenders (loggers demo_logs ! log_target demo_logs (Suc 0)))))
        else [])"
    using log_output [OF demo_logs_run _ demo_fit(1) demo_disk, of "Suc 0" INFO ev] by blast
  from s'(2) [of None] have "std_out s' = record_text demo_env ''root'' INFO ev (appenders demo_logs ! 0)"
    by (simp add: demo_target apps out_text_def dest_def demo_logs_parts(5))
  with s'(1) show "\<exists>s'. Logger_log 2 demo_env (Suc 0) INFO ev demo_logs = Some (Inr s') \<and>
    std_out s' = record_text demo_env ''root'' INFO ev (appenders demo_logs ! 0)" by blast
qed

section \<open>The manager\<close>

inductive log_later :: "log_sys \<Rightarrow> log_sys \<Rightarrow> bool" for s where
  later_refl: "log_later s s"
| later_step: "log_later s t \<Longrightarrow> log_allowed op t \<Longrightarrow> log_later s (log_do op t)"

lemma log_later_trans: "log_later t u \<Longrightarrow> log_later s t \<Longrightarrow> log_later s u"
  by (induction rule: log_later.induct) (auto intro: later_step)

lemma later_op: "log_allowed op s \<Longrightarrow> log_later s (log_do op s)"
  by (rule later_step [OF later_refl])

lemma log_later_run: "log_later s t \<Longrightarrow> log_run s \<Longrightarrow> log_run t"
  by (induction rule: log_later.induct) (auto intro: log_run.intros)

lemma log_later_ok: "log_later s t \<Longrightarrow> log_ok s \<Longrightarrow> log_ok t"
  by (induction rule: log_later.induct) (auto intro: log_ok_do)

lemma fold_upd_appender_fields [simp]:
  "loggers (fold (\<lambda>a. upd_appender a f) as s) = loggers s" "m_loggers (fold (\<lambda>a. upd_appender a f) as s) = m_loggers s"
  by (induction as arbitrary: s) simp_all

lemma log_do_keeps_names:
  assumes ok: "log_ok s" and allowed: "log_allowed op s" and l: "map_of (m_loggers s) name = Some l"
  shows "map_of (m_loggers (log_do op s)) name = Some l"
proof (cases op)
  case (O_Get n)
  have "sorted_keys (m_loggers s)" using ok by (simp add: log_ok_def)
  with O_Get l show ?thesis by (auto simp: LogManager_getLogger_def Let_def std_map.find_put split: option.split)
next
  case (O_Log env k level ev)
  obtain s' where "Logger_log (Suc (Suc 0)) env k level ev s = Some (Inr s')" "log_frame s s'"
    using Logger_log_total [OF ok, of k env 0] allowed O_Log by auto
  with O_Log l show ?thesis by (simp add: numeral_2_eq_2 log_frame_def del: Logger_log.simps)
qed (use l in \<open>simp_all add: new_appender_def Logger_addAppender_def Logger_delAppender_def Logger_clearAppenders_def
    Logger_setFormatter_pattern_def Logger_setFormatter_def Logger_setLevel_def upd_logger_def Let_def split: prod.split\<close>)

lemma log_run_later:
  assumes "log_later s t" "log_run s" "map_of (m_loggers s) name = Some l"
  shows "log_run t \<and> map_of (m_loggers t) name = Some l"
  using assms by (induction rule: log_later.induct) (auto intro: log_run.intros log_do_keeps_names log_run_ok)

lemma event_at_sel:
  "ev_logger (LogEvent_append out (event_at l level site)) = l" "ev_level (LogEvent_append out (event_at l level site)) = level"
  by (simp_all add: LogEvent_append_def event_at_def LogEvent_new_def split: prod.split)

lemma LogEventWrap_delete_result:
  assumes "log_run s" "dates_fit env s" "l < length (loggers s)"
  shows "\<exists>s1. LogEventWrap_delete 2 env (LogEvent_append out (event_at l level site)) s = Some (Inr s1) \<and>
    log_later s s1 \<and> log_frame s s1"
proof -
  let ?ev = "LogEvent_append out (event_at l level site)"
  obtain s1 where s1: "Logger_log (Suc (Suc 0)) env l level ?ev s = Some (Inr s1)" "log_frame s s1"
    using Logger_log_total [OF log_run_ok [OF assms(1)] assms(3,2)] by blast
  then have "log_later s s1"
    using later_op [of "O_Log env l level ?ev" s] assms by (simp add: numeral_2_eq_2 del: Logger_log.simps)
  with s1 show ?thesis by (simp add: LogEventWrap_delete_def event_at_sel numeral_2_eq_2 del: Logger_log.simps)
qed

lemma log_macro_result:
  assumes "log_run s" "dates_fit env s" "l < length (loggers s)"
  shows "\<exists>s1. log_macro 2 env l level site out s = Some (Inr s1) \<and> log_later s s1 \<and> log_frame s s1"
  using LogEventWrap_delete_result [OF assms] by (auto simp: log_macro_def later_refl)

text \<open>
  \<^verbatim>\<open>getLogger\<close> gives every name one logger: the logger exists and has the name,
  asking for another name gives another logger, and whatever is done to the loggers later, asking
  again gives the same one and changes nothing.
\<close>
theorem getLogger_stable:
  assumes "log_run s" and "LogManager_getLogger name s = (l, s1)" and "log_later s1 t"
  shows "LogManager_getLogger name t = (l, t) \<and> lg_name (loggers t ! l) = name \<and> l < length (loggers t) \<and>
    (name' \<noteq> name \<longrightarrow> fst (LogManager_getLogger name' t) \<noteq> l)"
proof -
  have "sorted_keys (m_loggers s)" using log_run_ok [OF assms(1)] by (simp add: log_ok_def)
  then have "map_of (m_loggers s1) name = Some l"
    using assms(2) by (auto simp: LogManager_getLogger_def Let_def std_map.find_put split: option.splits)
  moreover have "log_run s1" using log_step [OF assms(1), of "O_Get name"] assms(2) by simp
  ultimately have t: "log_run t" "map_of (m_loggers t) name = Some l" using log_run_later [OF assms(3)] by blast+
  have names: "m < length (loggers t) \<and> lg_name (loggers t ! m) = n" if "map_of (m_loggers t) n = Some m" for n m
    using log_run_ok [OF t(1)] that by (simp add: log_ok_def)
  show ?thesis using names [OF t(2)] t(2) names [of name']
    by (auto simp: LogManager_getLogger_def Let_def split: option.split)
qed

theorem getLogger_stable_witness:
  "LogManager_getLogger ''sys'' (log_do (O_Clear 1) demo_logs) = (1, log_do (O_Clear 1) demo_logs)"
proof -
  have "LogManager_getLogger ''sys'' LogManager_new = (1, demo_logs)"
    by (simp add: demo_logs_def LogManager_new_def LogManager_getLogger_def new_appender_def Logger_addAppender_def
      upd_logger_def upd_appender_def LogAppender_getFormatter_def StdoutLogAppender_new_def Logger_new_def Let_def)
  moreover have "log_later demo_logs (log_do (O_Clear 1) demo_logs)"
    by (intro log_later.intros) (simp add: demo_logs_parts)
  ultimately show ?thesis using getLogger_stable [OF log_start] by blast
qed

section \<open>Formatters\<close>

lemma fold_upd_appender_nth:
  assumes "\<And>x. f (f x) = f x"
  shows "appenders (fold (\<lambda>a. upd_appender a f) as s) ! b =
    (if b \<in> set as \<and> b < length (appenders s) then f (appenders s ! b) else appenders s ! b)"
proof (induction as arbitrary: s)
  case (Cons a as)
  then show ?case using assms
    by (cases "a < length (appenders s)") (auto simp: upd_appender_def nth_list_update list_update_beyond linorder_not_less)
qed simp

text \<open>
  \<^verbatim>\<open>Logger::setFormatter\<close> with a pattern: an invalid one only prints a message. A valid one
  becomes the formatter of the logger and of every appender attached to it, those included that were
  given a formatter of their own before; an appender's mark that its formatter is its own stays as it was.
  Appenders of other loggers keep theirs.
\<close>
theorem setFormatter_overrides_own:
  assumes "log_run s" and "l < length (loggers s)"
  shows "(m_error (LogFormatter_new p) \<longrightarrow> (\<exists>out. Logger_setFormatter_pattern l p s = prints (out @
         [''Logger setFormatter name='' @ lg_name (loggers s ! l) @ '' value='' @ p @ '' invalid formatter'']) s)) \<and>
    (\<not> m_error (LogFormatter_new p) \<longrightarrow>
       Logger_getFormatter l (Logger_setFormatter_pattern l p s) = Some (LogFormatter_new p) \<and>
       (\<forall>a. appenders (Logger_setFormatter_pattern l p s) ! a =
          (if a \<in> set (lg_appenders (loggers s ! l))
           then (appenders s ! a)\<lparr>ap_formatter := Some (LogFormatter_new p)\<rparr> else appenders s ! a)))"
proof -
  have "\<forall>a \<in> set (lg_appenders (loggers s ! l)). a < length (appenders s) \<and> ap_formatter (appenders s ! a) \<noteq> None"
    using logger_ok_at [OF log_run_ok [OF assms(1)] assms(2)] by (simp add: logger_ok_def)
  then show ?thesis using assms(2)
    by (auto simp: Logger_setFormatter_pattern_def Logger_setFormatter_def Logger_getFormatter_def upd_logger_def
        LogFormatter_new_def prints_def Let_def fold_upd_appender_nth split: prod.split)
qed

theorem setFormatter_overrides_own_witness:
  "ap_formatter (appenders (Logger_setFormatter_pattern 0 ''%m%n'' demo_logs) ! 0) = Some (LogFormatter_new ''%m%n'')"
proof -
  have "\<not> m_error (LogFormatter_new ''%m%n'')" by code_simp
  then show ?thesis using setFormatter_overrides_own [OF demo_logs_run, of 0 "''%m%n''"] by (simp add: demo_logs_parts Logger_new_def)
qed

section \<open>A stream that is stuck\<close>

definition stuck_ap :: "appender \<Rightarrow> bool" where
  "stuck_ap x \<longleftrightarrow> (\<exists>n f t. ap_kind x = File n f t \<and> is_open f \<and> is_fail f)"

definition stuck :: "log_sys \<Rightarrow> nat \<Rightarrow> bool" where
  "stuck s a \<longleftrightarrow> stuck_ap (appenders s ! a)"

lemma stuck_upd:
  assumes "stuck s a" "a = b \<Longrightarrow> stuck_ap (appenders s ! a) \<Longrightarrow> stuck_ap (f (appenders s ! a))"
  shows "stuck (upd_appender b f s) a"
  using assms by (cases "b < length (appenders s)") (auto simp: stuck_def upd_appender_def nth_list_update list_update_beyond linorder_not_less)

lemma reopen_now_stuck:
  "ap_kind x = File n f t \<Longrightarrow> is_open f \<Longrightarrow> is_fail f \<Longrightarrow> ap_kind (reopen_now env x) = File n f (le_now env)"
  by (cases f) (simp add: reopen_now_def FileLogAppender_reopen_def reopen_stream_def stream_open_def Let_def)

lemma stuck_reopen: "stuck s a \<Longrightarrow> stuck (upd_appender b (reopen_now env) s) a"
  by (rule stuck_upd) (auto simp: stuck_ap_def reopen_now_stuck)

lemma write_stream_stuck: "stuck s a \<Longrightarrow> stuck (write_stream env b out s) a"
proof -
  assume st: "stuck s a"
  have "stuck (upd_appender b (\<lambda>x. x\<lparr>ap_kind := File n (f\<lparr>is_fail := True\<rparr>) t\<rparr>) s) a" if "ap_kind (appenders s ! b) = File n f t" for n f t
    using st that by (intro stuck_upd) (auto simp: stuck_ap_def)
  with st show ?thesis by (auto simp: write_stream_def stuck_def split: ap_kind.split)
qed

lemma LogAppender_log_stuck:
  assumes st: "stuck s a" and log: "LogAppender_log env b name level ev s = Inr s'"
  shows "stuck s' a"
proof (cases "ap_kind (appenders s ! b)")
  case Stdout
  with log st show ?thesis
    by (auto simp: LogAppender_log_def StdoutLogAppender_log_def stuck_def split: if_splits)
next
  case (File n f t)
  define s1 where "s1 = (if le_now env \<noteq> t then upd_appender b (reopen_now env) s else s)"
  have "stuck s1 a" using st stuck_reopen by (simp add: s1_def)
  moreover have "s' = s \<or> (\<exists>out. s' = write_stream env b out s1)"
    using log File by (auto simp: LogAppender_log_def FileLogAppender_log_def s1_def Let_def split: if_splits)
  ultimately show ?thesis using st write_stream_stuck by blast
qed

lemma Logger_log_stuck: "Logger_log fuel env l level ev s = Some (Inr s') \<Longrightarrow> stuck s a \<Longrightarrow> stuck s' a"
proof (induction fuel env l level ev s rule: Logger_log.induct)
  case (2 fuel env l level ev s)
  then show ?case
    by (auto simp: Let_def split: if_splits option.splits
        intro: foldR_invariant [where P = "\<lambda>s. stuck s a"] LogAppender_log_stuck)
qed simp

lemma stuck_new_appender: "stuck s a \<Longrightarrow> a < length (appenders s) \<Longrightarrow> stuck (snd (new_appender x s)) a"
  by (simp add: stuck_def new_appender_def nth_append)

lemma stuck_fold:
  assumes "\<And>x. stuck_ap x \<Longrightarrow> stuck_ap (f x)"
  shows "stuck s a \<Longrightarrow> stuck (fold (\<lambda>b. upd_appender b f) bs s) a"
proof (induction bs arbitrary: s)
  case (Cons b bs)
  have "stuck (upd_appender b f s) a" using Cons.prems by (rule stuck_upd) (rule assms)
  with Cons.IH show ?case by simp
qed simp

text \<open>
  A file stream that is open when a write fails is stuck: \<^verbatim>\<open>reopen\<close> does not close a
  stream in the fail state, and opening an open stream fails. Whatever is done later, and however
  healthy the disk is again, the stream stays stuck; every record that passes prints \<^verbatim>\<open>error\<close>
  and no file gains anything from this appender.
\<close>
theorem reopen_stuck:
  assumes "stuck s a" and "a < length (appenders s)"
  shows "stuck (log_do op s) a \<and>
    (\<forall>env name level ev s'. LogAppender_log env a name level ev s = Inr s' \<longrightarrow>
       files s' = files s \<and>
       std_out s' = std_out s @ (if ap_level (appenders s ! a) \<le> level then ''error'' @ [CHR 0x0A] else []))"
proof (intro conjI allI impI)
  show "stuck (log_do op s) a"
  proof (cases op)
    case (O_Get name)
    with assms show ?thesis by (simp add: LogManager_getLogger_def Let_def stuck_def split: option.split)
  next
    case (O_Add l b)
    have "stuck (upd_appender b (LogAppender_setFormatter val) s) a" for val
      using assms(1) by (rule stuck_upd) (simp add: stuck_ap_def LogAppender_setFormatter_def)
    with O_Add assms show ?thesis by (simp add: Logger_addAppender_def upd_logger_def stuck_def Let_def)
  next
    case (O_SetFmt l val)
    have "stuck (Logger_setFormatter l (Some fm) t) a" if "appenders t = appenders s" for fm t
      unfolding Logger_setFormatter_def using assms(1) that
      by (intro stuck_fold) (auto simp: upd_logger_def stuck_def stuck_ap_def)
    with O_SetFmt assms show ?thesis by (simp add: Logger_setFormatter_pattern_def Let_def stuck_def split: prod.split)
  next
    case (O_Log env l level ev)
    with assms Logger_log_stuck show ?thesis by (simp del: Logger_log.simps split: option.split sum.split)
  next
    case (O_ApLevel b val)
    with assms show ?thesis by (auto intro: stuck_upd simp: stuck_ap_def)
  next
    case (O_ApFmt b f)
    with assms show ?thesis by (auto intro: stuck_upd simp: stuck_ap_def LogAppender_setFormatter_def)
  qed (use assms stuck_new_appender in \<open>simp_all add: stuck_def Logger_delAppender_def Logger_clearAppenders_def Logger_setLevel_def upd_logger_def\<close>)
next
  obtain n f t where f: "ap_kind (appenders s ! a) = File n f t" "is_open f" "is_fail f"
    using assms(1) by (auto simp: stuck_def stuck_ap_def)
  fix env name level ev s' assume log: "LogAppender_log env a name level ev s = Inr s'"
  define s1 where "s1 = (if le_now env \<noteq> t then upd_appender a (reopen_now env) s else s)"
  have s1: "files s1 = files s" "std_out s1 = std_out s" by (simp_all add: s1_def upd_appender_def)
  have k: "\<exists>t. ap_kind (appenders s1 ! a) = File n f t"
    using f reopen_now_stuck assms(2) by (auto simp: s1_def upd_appender_def)
  from log f(1) have "if ap_level (appenders s ! a) \<le> level then \<exists>out. s' = write_stream env a out s1 else s' = s"
    by (auto simp: LogAppender_log_def FileLogAppender_log_def s1_def Let_def split: if_splits)
  with k f(2,3) s1 show "files s' = files s"
    "std_out s' = std_out s @ (if ap_level (appenders s ! a) \<le> level then ''error'' @ [CHR 0x0A] else [])"
    by (auto simp: write_stream_def upd_appender_def split: if_splits)
qed

text \<open>A file appender whose first write fails.\<close>

definition demo_stuck :: log_sys where
  "demo_stuck = write_stream (demo_env\<lparr>le_can_write := \<lambda>_. False\<rparr>) (Suc 0) ''x'' (log_do (O_File demo_env ''a.log'') demo_logs)"

theorem reopen_stuck_witness: "\<forall>ev. stuck (log_do (O_Log demo_env 0 FATAL ev) demo_stuck) (Suc 0)"
proof -
  have "stuck demo_stuck (Suc 0) \<and> Suc 0 < length (appenders demo_stuck)"
    by (simp add: demo_stuck_def stuck_def stuck_ap_def demo_logs_parts new_appender_def FileLogAppender_new_def FileLogAppender_reopen_def
        reopen_stream_def stream_open_def stream_close_def demo_env_def write_stream_def upd_appender_def Let_def)
  then show ?thesis using reopen_stuck [of demo_stuck "Suc 0"] by blast
qed

end
