(* ===== verification/Log_Config.thy ===== *)
theory Log_Config
  imports Config Loggers
begin

text \<open>
  The configuration of the loggers at the end of \<^verbatim>\<open>vity/log.cc\<close>: the values of the
  variable \<^verbatim>\<open>logs\<close> (\<^verbatim>\<open>LogDefine\<close>, \<^verbatim>\<open>LogAppenderDefine\<close>), their casts from and to
  YAML, and the listener that brings the loggers into line with a new value. Here the
  configuration and the loggers meet: the listener runs inside \<^verbatim>\<open>ConfigVar::setValue\<close> and acts
  on the state of \<open>Loggers\<close>. What the casts print about entries they skip is not modelled.
\<close>

section \<open>Values\<close>

record LogAppenderDefine =
  lad_type :: int
  lad_level :: Level
  lad_formatter :: string
  lad_file :: string

record LogDefine =
  ld_name :: string
  ld_level :: Level
  ld_formatter :: string
  ld_appenders :: "LogAppenderDefine list"

definition LogAppenderDefine_eq :: "LogAppenderDefine \<Rightarrow> LogAppenderDefine \<Rightarrow> bool" where
  "LogAppenderDefine_eq x oth \<longleftrightarrow>
     lad_type x = lad_type oth \<and> lad_level x = lad_level oth \<and>
     lad_formatter x = lad_formatter oth \<and> lad_file x = lad_file oth"

text \<open>The last comparison of the source is of \<^verbatim>\<open>appenders\<close> with itself.\<close>

definition LogDefine_eq :: "LogDefine \<Rightarrow> LogDefine \<Rightarrow> bool" where
  "LogDefine_eq x oth \<longleftrightarrow>
     ld_name x = ld_name oth \<and> ld_level x = ld_level oth \<and> ld_formatter x = ld_formatter oth \<and>
     list_all2 LogAppenderDefine_eq (ld_appenders x) (ld_appenders x)"

definition LogDefine_less :: "LogDefine \<Rightarrow> LogDefine \<Rightarrow> bool" where
  "LogDefine_less x oth \<longleftrightarrow> ld_name x < ld_name oth"

text \<open>\<^verbatim>\<open>==\<close> of two \<^verbatim>\<open>std::set<LogDefine>\<close>.\<close>

definition LogDefines_eq :: "LogDefine list \<Rightarrow> LogDefine list \<Rightarrow> bool" where
  "LogDefines_eq = list_all2 LogDefine_eq"

section \<open>From YAML\<close>

definition string_or :: "yaml_lib \<Rightarrow> string \<Rightarrow> yaml \<Rightarrow> string \<Rightarrow> string res" where
  "string_or L key n def =
    bindR (node_get key n) (\<lambda>v. if IsDefined v then as_string L v else Inr def)"

text \<open>One appender of the list; \<open>None\<close> is an entry that is skipped.\<close>

definition read_appender :: "yaml_lib \<Rightarrow> yaml \<Rightarrow> LogAppenderDefine option res" where
  "read_appender L a =
    bindR (node_get ''type'' a) (\<lambda>t.
      if \<not> IsDefined t then Inr None
      else bindR (as_string L t) (\<lambda>type.
        if type = ''FileLogAppender'' then
          bindR (node_get ''file'' a) (\<lambda>f.
            if \<not> IsDefined f then Inr None
            else bindR (as_string L f) (\<lambda>file.
              bindR (string_or L ''formatter'' a '''') (\<lambda>formatter.
                Inr (Some \<lparr>lad_type = 1, lad_level = UNKNOW, lad_formatter = formatter, lad_file = file\<rparr>))))
        else if type = ''StdoutLogAppender'' then
          Inr (Some \<lparr>lad_type = 2, lad_level = UNKNOW, lad_formatter = '''', lad_file = ''''\<rparr>)
        else Inr None))"

definition the_some :: "'a option list \<Rightarrow> 'a list" where
  "the_some xs = concat (map (\<lambda>x. case x of Some y \<Rightarrow> [y] | None \<Rightarrow> []) xs)"

definition read_define :: "yaml_lib \<Rightarrow> yaml \<Rightarrow> LogDefine option res" where
  "read_define L n =
    bindR (node_get ''name'' n) (\<lambda>nm.
      if \<not> IsDefined nm then Inr None
      else bindR (as_string L nm) (\<lambda>name.
        bindR (string_or L ''level'' n '''') (\<lambda>level.
          bindR (string_or L ''formatter'' n '''') (\<lambda>formatter.
            bindR (node_get ''appenders'' n) (\<lambda>as.
              bindR (mapR (\<lambda>x. read_appender L (node_at as x)) [0..<node_size as]) (\<lambda>lads.
                Inr (Some \<lparr>ld_name = name, ld_level = LogLevel_FromString level, ld_formatter = formatter,
                            ld_appenders = the_some lads\<rparr>)))))))"

definition LexicalCast_to_LogDefines :: "yaml_lib \<Rightarrow> string \<Rightarrow> LogDefine list res" where
  "LexicalCast_to_LogDefines L v =
    bindR (yl_load L v) (\<lambda>node.
      bindR (mapR (\<lambda>i. read_define L (node_at node i)) [0..<node_size node]) (\<lambda>lds.
        Inr (fold (set_ins LogDefine_less) (the_some lds) [])))"

section \<open>To YAML\<close>

definition appender_node :: "LogAppenderDefine \<Rightarrow> yaml" where
  "appender_node a = map_node
    ((if lad_type a = 1 then [(''type'', Y_Scalar ''FileLogAppender''), (''file'', Y_Scalar (lad_file a))]
      else if lad_type a = 2 then [(''type'', Y_Scalar ''StdoutLogAppender'')] else []) @
     level_entry (lad_level a) @
     (if lad_formatter a \<noteq> [] then [(''formatter'', Y_Scalar (lad_formatter a))] else []))"

definition define_node :: "LogDefine \<Rightarrow> yaml" where
  "define_node i = map_node
    ([(''name'', Y_Scalar (ld_name i))] @ level_entry (ld_level i) @
     (if ld_formatter i = [] then [(''formatter'', Y_Scalar (ld_formatter i))] else []) @
     (if ld_appenders i = [] then [] else [(''appenders'', Y_Seq (map appender_node (ld_appenders i)))]))"

definition LexicalCast_from_LogDefines :: "yaml_lib \<Rightarrow> LogDefine list \<Rightarrow> string res" where
  "LexicalCast_from_LogDefines L v = Inr (yl_emit L (seq_node (map define_node v)))"

section \<open>The listener\<close>

text \<open>The logger an element is applied to: none if the old value has an equal element.\<close>

definition changed_logger :: "LogDefine list \<Rightarrow> LogDefine \<Rightarrow> log_sys \<Rightarrow> nat option \<times> log_sys" where
  "changed_logger old_value i s =
    (case set_find LogDefine_less i old_value of
       None \<Rightarrow> apfst Some (LogManager_getLogger (ld_name i) s)
     | Some it \<Rightarrow> if \<not> LogDefine_eq i it then apfst Some (LogManager_getLogger (ld_name i) s) else (None, s))"

definition set_own_formatter :: "string \<Rightarrow> LogAppenderDefine \<Rightarrow> nat \<Rightarrow> log_sys \<Rightarrow> log_sys" where
  "set_own_formatter name a ap s =
    (if lad_formatter a = [] then s
     else
       (case LogFormatter_init (lad_formatter a) of (fmt, out) \<Rightarrow>
          if \<not> m_error fmt then upd_appender ap (LogAppender_setFormatter (Some fmt)) (prints out s)
          else prints [''log.name='' @ name @ '' appender type='' @ string_of_int (lad_type a) @
                       '' formatter='' @ lad_formatter a @ '' is invalid''] (prints out s)))"

definition make_appender :: "log_env \<Rightarrow> string \<Rightarrow> nat \<Rightarrow> LogAppenderDefine \<Rightarrow> log_sys \<Rightarrow> log_sys res" where
  "make_appender env name l a s =
    (if lad_type a = 1 \<or> lad_type a = 2 then
       (case new_appender (if lad_type a = 1 then FileLogAppender_new env (lad_file a) else StdoutLogAppender_new) s of
          (ap, s1) \<Rightarrow>
            Inr (Logger_addAppender l ap
              (set_own_formatter name a ap (upd_appender ap (\<lambda>x. x\<lparr>ap_level := lad_level a\<rparr>) s1))))
     else Inl (Undefined ''null appender''))"

definition apply_define :: "log_env \<Rightarrow> LogDefine list \<Rightarrow> LogDefine \<Rightarrow> log_sys \<Rightarrow> log_sys res" where
  "apply_define env old_value i s =
    (case changed_logger old_value i s of
       (None, s1) \<Rightarrow> Inl (Undefined ''null logger'')
     | (Some l, s1) \<Rightarrow>
         (let s2 = Logger_setLevel l (ld_level i) s1;
              s3 = (if ld_formatter i \<noteq> [] then Logger_setFormatter_pattern l (ld_formatter i) s2 else s2)
          in foldR (make_appender env (ld_name i) l) (ld_appenders i) (Logger_clearAppenders l s3)))"

definition remove_define :: "LogDefine list \<Rightarrow> LogDefine \<Rightarrow> log_sys \<Rightarrow> log_sys" where
  "remove_define new_value i s =
    (case set_find LogDefine_less i new_value of
       None \<Rightarrow> (case LogManager_getLogger (ld_name i) s of (l, s1) \<Rightarrow> Logger_clearAppenders l (Logger_setLevel l UNKNOW s1))
     | Some it \<Rightarrow> s)"

text \<open>
  The world of the listener: the environment and the place and time it logs at, and the loggers. After a
  failure the language says nothing of the state.
\<close>

type_synonym log_world = "(log_env \<times> log_site) \<times> log_sys"

definition on_logger_conf_changed :: "(LogDefine list, log_world) listener" where
  "on_logger_conf_changed old_value new_value = (\<lambda>((env, site), s).
    (case log_macro 2 env (m_root s) INFO site ''on_logger_conf_changed'' s of
       None \<Rightarrow> (Some (Undefined ''recursion''), (env, site), s)
     | Some (Inl e) \<Rightarrow> (Some e, (env, site), s)
     | Some (Inr s1) \<Rightarrow>
         (case foldR (apply_define env old_value) new_value s1 of
            Inl e \<Rightarrow> (Some e, (env, site), s1)
          | Inr s2 \<Rightarrow> (None, (env, site), fold (remove_define new_value) old_value s2))))"

section \<open>The variable\<close>

definition log_defines_type :: "yaml_lib \<Rightarrow> LogDefine list config_type" where
  "log_defines_type L = \<lparr>ct_name = ''std::set<LogDefine>'', ct_fromStr = LexicalCast_to_LogDefines L,
     ct_toStr = LexicalCast_from_LogDefines L, ct_eq = LogDefines_eq\<rparr>"


section \<open>What the listener does to the loggers\<close>

lemma same_name: "\<not> LogDefine_less i j \<and> \<not> LogDefine_less j i \<longleftrightarrow> ld_name i = ld_name j"
  by (auto simp: LogDefine_less_def)

lemma list_all2_self: "(\<And>x. P x x) \<Longrightarrow> list_all2 P xs xs"
  by (induction xs) simp_all

text \<open>\<^verbatim>\<open>==\<close> of two elements does not see the appenders.\<close>

lemma LogDefine_eq_iff:
  "LogDefine_eq x oth \<longleftrightarrow> ld_name x = ld_name oth \<and> ld_level x = ld_level oth \<and> ld_formatter x = ld_formatter oth"
  by (auto simp: LogDefine_eq_def LogAppenderDefine_eq_def intro: list_all2_self)

text \<open>An appender as an element describes it, in a logger with the formatter \<open>fm\<close>.\<close>

definition own_formatter :: "string \<Rightarrow> log_formatter option \<Rightarrow> log_formatter option" where
  "own_formatter p fm = (if p \<noteq> [] \<and> \<not> m_error (LogFormatter_new p) then Some (LogFormatter_new p) else fm)"

definition appender_as :: "log_formatter option \<Rightarrow> LogAppenderDefine \<Rightarrow> appender \<Rightarrow> bool" where
  "appender_as fm d x \<longleftrightarrow>
     dest x = (if lad_type d = 1 then Some (lad_file d) else None) \<and> ap_level x = lad_level d \<and>
     ap_formatter x = own_formatter (lad_formatter d) fm \<and> ap_hasFormatter x"

lemma later_prints: "log_later s (prints out s)"
  using later_op [of "O_Print out" s] by simp

lemma set_own_formatter_later: "log_later s (set_own_formatter name d ap s)"
proof -
  obtain fmt out where f: "LogFormatter_init (lad_formatter d) = (fmt, out)" by force
  have "log_later t (upd_appender ap (LogAppender_setFormatter (Some fmt)) t)" for t
    using later_op [of "O_ApFmt ap fmt" t] by simp
  note fmt = log_later_trans [OF this later_prints] and msg = log_later_trans [OF later_prints later_prints]
  show ?thesis by (simp add: set_own_formatter_def f later_refl fmt msg)
qed

lemma set_own_formatter_fields [simp]:
  "loggers (set_own_formatter name d ap s) = loggers s" "m_loggers (set_own_formatter name d ap s) = m_loggers s"
  "m_root (set_own_formatter name d ap s) = m_root s"
  "length (appenders (set_own_formatter name d ap s)) = length (appenders s)"
  by (simp_all add: set_own_formatter_def split: prod.split)

definition fresh_appender :: "log_env \<Rightarrow> LogAppenderDefine \<Rightarrow> appender" where
  "fresh_appender env d = (if lad_type d = 1 then FileLogAppender_new env (lad_file d) else StdoutLogAppender_new)"

lemma fresh_appender_facts:
  "ap_formatter (fresh_appender env d) = None" "\<not> ap_hasFormatter (fresh_appender env d)"
  "dest (fresh_appender env d) = (if lad_type d = 1 then Some (lad_file d) else None)"
  by (auto simp: fresh_appender_def FileLogAppender_new_def FileLogAppender_reopen_def StdoutLogAppender_new_def dest_def Let_def)

definition placed :: "log_env \<Rightarrow> string \<Rightarrow> LogAppenderDefine \<Rightarrow> log_sys \<Rightarrow> log_sys" where
  "placed env name d s =
    set_own_formatter name d (length (appenders s))
      (upd_appender (length (appenders s)) (\<lambda>x. x\<lparr>ap_level := lad_level d\<rparr>) (snd (new_appender (fresh_appender env d) s)))"

lemma make_appender_eq:
  "lad_type d \<in> {1, 2} \<Longrightarrow> make_appender env name l d s = Inr (Logger_addAppender l (length (appenders s)) (placed env name d s))"
  by (auto simp: make_appender_def placed_def fresh_appender_def new_appender_def)

lemma placed_fields [simp]:
  "loggers (placed env name d s) = loggers s" "m_loggers (placed env name d s) = m_loggers s"
  "m_root (placed env name d s) = m_root s" "length (appenders (placed env name d s)) = Suc (length (appenders s))"
  by (simp_all add: placed_def new_appender_def)

lemma placed_later: "log_later s (placed env name d s)"
proof -
  have "log_later s (snd (new_appender (fresh_appender env d) s))"
    using later_op [of O_Stdout s] later_op [of "O_File env (lad_file d)" s] by (auto simp: fresh_appender_def)
  moreover have "log_later t (upd_appender a (\<lambda>x. x\<lparr>ap_level := lad_level d\<rparr>) t)" for a t
    using later_op [of "O_ApLevel a (lad_level d)" t] by simp
  ultimately show ?thesis unfolding placed_def using set_own_formatter_later log_later_trans by blast
qed

lemma placed_appender:
  "\<exists>x. appenders (placed env name d s) = appenders s @ [x] \<and>
     dest x = (if lad_type d = 1 then Some (lad_file d) else None) \<and> ap_level x = lad_level d \<and>
     ap_formatter x = own_formatter (lad_formatter d) None \<and> (ap_hasFormatter x \<longleftrightarrow> ap_formatter x \<noteq> None)"
  using fresh_appender_facts [of env d]
  by (auto simp: placed_def set_own_formatter_def new_appender_def upd_appender_def LogFormatter_new_def own_formatter_def
      LogAppender_setFormatter_def dest_def split: prod.split)

lemma make_appender_result:
  assumes ok: "log_ok s" and l: "l < length (loggers s)" and ty: "lad_type d \<in> {1, 2}"
  shows "\<exists>s' x. make_appender env name l d s = Inr s' \<and> log_later s s' \<and>
    loggers s' = (loggers s)[l := (loggers s ! l)\<lparr>lg_appenders := lg_appenders (loggers s ! l) @ [length (appenders s)]\<rparr>] \<and>
    m_loggers s' = m_loggers s \<and> m_root s' = m_root s \<and>
    appenders s' = appenders s @ [x] \<and> appender_as (lg_formatter (loggers s ! l)) d x"
proof -
  let ?n = "length (appenders s)" let ?t = "placed env name d s" let ?s' = "Logger_addAppender l ?n ?t"
  have "log_later ?t ?s'" using later_op [of "O_Add l ?n" ?t] l by simp
  then have later: "log_later s ?s'" using placed_later log_later_trans by blast
  obtain fm where fm: "lg_formatter (loggers s ! l) = Some fm"
    using logger_ok_at [OF ok l] by (auto simp: logger_ok_def)
  obtain x where x: "appenders ?t = appenders s @ [x]" "dest x = (if lad_type d = 1 then Some (lad_file d) else None)"
    "ap_level x = lad_level d" "ap_formatter x = own_formatter (lad_formatter d) None" "ap_hasFormatter x \<longleftrightarrow> ap_formatter x \<noteq> None"
    using placed_appender by blast
  let ?y = "if ap_formatter x = None then LogAppender_setFormatter (Some fm) x else x"
  have "appenders ?s' = appenders s @ [?y]"
    by (simp add: Logger_addAppender_def x(1) fm LogAppender_getFormatter_def upd_appender_def upd_logger_def Let_def)
  moreover have "appender_as (Some fm) d ?y"
    using x by (auto simp: appender_as_def own_formatter_def LogAppender_setFormatter_def dest_def split: if_splits)
  moreover have "loggers ?s' = (loggers s)[l := (loggers s ! l)\<lparr>lg_appenders := lg_appenders (loggers s ! l) @ [?n]\<rparr>]"
    "m_loggers ?s' = m_loggers s" "m_root ?s' = m_root s"
    by (simp_all add: Logger_addAppender_def upd_logger_def Let_def)
  ultimately show ?thesis using make_appender_eq [OF ty] later fm
    by (intro exI [of _ ?s'] exI [of _ ?y]) simp
qed

lemma make_appenders_result:
  assumes "log_ok s" "l < length (loggers s)" "\<forall>d \<in> set ds. lad_type d \<in> {1, 2}"
  shows "\<exists>s' xs. foldR (make_appender env name l) ds s = Inr s' \<and> log_later s s' \<and>
    loggers s' = (loggers s)[l := (loggers s ! l)\<lparr>lg_appenders := lg_appenders (loggers s ! l) @
      [length (appenders s)..<length (appenders s) + length ds]\<rparr>] \<and>
    m_loggers s' = m_loggers s \<and> m_root s' = m_root s \<and>
    appenders s' = appenders s @ xs \<and> list_all2 (appender_as (lg_formatter (loggers s ! l))) ds xs"
  using assms
proof (induction ds arbitrary: s)
  case Nil
  then show ?case by (auto intro: later_refl)
next
  case (Cons d ds)
  obtain s1 x where s1: "make_appender env name l d s = Inr s1" "log_later s s1"
    "loggers s1 = (loggers s)[l := (loggers s ! l)\<lparr>lg_appenders := lg_appenders (loggers s ! l) @ [length (appenders s)]\<rparr>]"
    "m_loggers s1 = m_loggers s" "m_root s1 = m_root s" "appenders s1 = appenders s @ [x]"
    "appender_as (lg_formatter (loggers s ! l)) d x"
    using make_appender_result [OF Cons.prems(1,2), of d env name] Cons.prems(3) by auto
  have "log_ok s1"
  proof -
    have "log_ok (placed env name d s)"
      using placed_later Cons.prems(1) log_later_ok by blast
    then show ?thesis using make_appender_eq [of d env name l s] s1(1) Cons.prems by (auto simp: log_ok_add)
  qed
  moreover have "l < length (loggers s1)" using s1(3) Cons.prems(2) by simp
  ultimately obtain s' xs where s': "foldR (make_appender env name l) ds s1 = Inr s'" "log_later s1 s'"
    "loggers s' = (loggers s1)[l := (loggers s1 ! l)\<lparr>lg_appenders := lg_appenders (loggers s1 ! l) @
      [length (appenders s1)..<length (appenders s1) + length ds]\<rparr>]"
    "m_loggers s' = m_loggers s1" "m_root s' = m_root s1" "appenders s' = appenders s1 @ xs"
    "list_all2 (appender_as (lg_formatter (loggers s1 ! l))) ds xs"
    using Cons.IH [of s1] Cons.prems(3) by auto
  have up: "[length (appenders s)..<Suc (length (appenders s) + length ds)] =
      length (appenders s) # [Suc (length (appenders s))..<Suc (length (appenders s) + length ds)]"
    by (rule upt_conv_Cons) simp
  show ?case using s' s1 Cons.prems(2) log_later_trans [OF s'(2) s1(2)]
    by (intro exI [of _ s'] exI [of _ "x # xs"]) (simp add: up del: upt_Suc)
qed


section \<open>One element of the new value\<close>

definition prepared :: "LogDefine \<Rightarrow> nat \<Rightarrow> log_sys \<Rightarrow> log_sys" where
  "prepared i l s1 =
    (let s2 = Logger_setLevel l (ld_level i) s1;
         s3 = (if ld_formatter i \<noteq> [] then Logger_setFormatter_pattern l (ld_formatter i) s2 else s2)
     in Logger_clearAppenders l s3)"

lemma apply_define_eq:
  "changed_logger old i s = (Some l, s1) \<Longrightarrow>
    apply_define env old i s = foldR (make_appender env (ld_name i) l) (ld_appenders i) (prepared i l s1)"
  by (simp add: apply_define_def prepared_def Let_def)

lemma upd_logger_fields [simp]:
  "appenders (upd_logger l f s) = appenders s" "m_loggers (upd_logger l f s) = m_loggers s"
  "m_root (upd_logger l f s) = m_root s" "length (loggers (upd_logger l f s)) = length (loggers s)"
  by (simp_all add: upd_logger_def)

lemma Logger_setFormatter_pattern_fields [simp]:
  "m_loggers (Logger_setFormatter_pattern l p s) = m_loggers s" "m_root (Logger_setFormatter_pattern l p s) = m_root s"
  "length (loggers (Logger_setFormatter_pattern l p s)) = length (loggers s)"
  "length (appenders (Logger_setFormatter_pattern l p s)) = length (appenders s)"
proof -
  have "m_root (fold (\<lambda>a. upd_appender a f) as t) = m_root t \<and> length (appenders (fold (\<lambda>a. upd_appender a f) as t)) = length (appenders t)"
    for f as t by (induction as arbitrary: t) simp_all
  then show "m_loggers (Logger_setFormatter_pattern l p s) = m_loggers s" "m_root (Logger_setFormatter_pattern l p s) = m_root s"
    "length (loggers (Logger_setFormatter_pattern l p s)) = length (loggers s)"
    "length (appenders (Logger_setFormatter_pattern l p s)) = length (appenders s)"
    by (simp_all add: Logger_setFormatter_pattern_def Logger_setFormatter_def Let_def split: prod.split)
qed

lemma Logger_setFormatter_pattern_logger:
  "l < length (loggers s) \<Longrightarrow>
    loggers (Logger_setFormatter_pattern l p s) =
      (if m_error (LogFormatter_new p) then loggers s
       else (loggers s)[l := (loggers s ! l)\<lparr>lg_formatter := Some (LogFormatter_new p)\<rparr>])"
  by (simp add: Logger_setFormatter_pattern_def Logger_setFormatter_def LogFormatter_new_def upd_logger_def Let_def split: prod.split)

lemma Logger_setFormatter_pattern_other:
  "a \<notin> set (lg_appenders (loggers s ! l)) \<Longrightarrow> appenders (Logger_setFormatter_pattern l p s) ! a = appenders s ! a"
  by (simp add: Logger_setFormatter_pattern_def Logger_setFormatter_def fold_upd_appender_nth Let_def split: prod.split)

lemma prepared_result:
  assumes l: "l < length (loggers s)"
  shows "log_later s (prepared i l s) \<and>
    loggers (prepared i l s) = (loggers s)[l := (loggers s ! l)\<lparr>lg_level := ld_level i,
      lg_formatter := own_formatter (ld_formatter i) (lg_formatter (loggers s ! l)), lg_appenders := []\<rparr>] \<and>
    m_loggers (prepared i l s) = m_loggers s \<and> m_root (prepared i l s) = m_root s \<and>
    length (appenders (prepared i l s)) = length (appenders s) \<and>
    (\<forall>a. a \<notin> set (lg_appenders (loggers s ! l)) \<longrightarrow> appenders (prepared i l s) ! a = appenders s ! a)"
proof -
  define s2 where "s2 = Logger_setLevel l (ld_level i) s"
  define s3 where "s3 = (if ld_formatter i \<noteq> [] then Logger_setFormatter_pattern l (ld_formatter i) s2 else s2)"
  have p: "prepared i l s = Logger_clearAppenders l s3" by (simp add: prepared_def s3_def s2_def Let_def)
  have s2: "loggers s2 = (loggers s)[l := (loggers s ! l)\<lparr>lg_level := ld_level i\<rparr>]" "appenders s2 = appenders s"
    "m_loggers s2 = m_loggers s" "m_root s2 = m_root s"
    by (simp_all add: s2_def Logger_setLevel_def upd_logger_def)
  have s3: "loggers s3 = (loggers s)[l := (loggers s ! l)\<lparr>lg_level := ld_level i,
      lg_formatter := own_formatter (ld_formatter i) (lg_formatter (loggers s ! l))\<rparr>]"
    "m_loggers s3 = m_loggers s" "m_root s3 = m_root s" "length (appenders s3) = length (appenders s)"
    using l by (simp_all add: s3_def s2 Logger_setFormatter_pattern_logger own_formatter_def)
  have "log_later s s2" using later_op [of "O_Level l (ld_level i)" s] l by (simp add: s2_def)
  moreover have "log_later s2 s3" using later_op [of "O_SetFmt l (ld_formatter i)" s2] later_refl l s2(1) by (simp add: s3_def)
  moreover have "log_later s3 (Logger_clearAppenders l s3)" using later_op [of "O_Clear l" s3] l s3(1) by simp
  ultimately have "log_later s (prepared i l s)" unfolding p using log_later_trans by blast
  moreover have "appenders (prepared i l s) ! a = appenders s ! a" if "a \<notin> set (lg_appenders (loggers s ! l))" for a
    using that l by (simp add: p Logger_clearAppenders_def s3_def s2 Logger_setFormatter_pattern_other)
  ultimately show ?thesis using l by (simp add: p Logger_clearAppenders_def upd_logger_def s3)
qed

text \<open>What a step may have changed: one logger, the appenders that were attached to it, and new ones.\<close>

definition attached :: "log_sys \<Rightarrow> nat \<Rightarrow> nat set" where
  "attached s l = (if l < length (loggers s) then set (lg_appenders (loggers s ! l)) else {})"

definition only_touches :: "nat \<Rightarrow> log_sys \<Rightarrow> log_sys \<Rightarrow> bool" where
  "only_touches l s s' \<longleftrightarrow> m_root s' = m_root s \<and>
     length (loggers s) \<le> length (loggers s') \<and> length (appenders s) \<le> length (appenders s') \<and>
     (\<forall>k < length (loggers s). k \<noteq> l \<longrightarrow> loggers s' ! k = loggers s ! k) \<and>
     (\<forall>a < length (appenders s). a \<notin> attached s l \<longrightarrow> appenders s' ! a = appenders s ! a)"

text \<open>A logger as an element of the configuration describes it.\<close>

definition described :: "log_sys \<Rightarrow> LogDefine \<Rightarrow> nat \<Rightarrow> bool" where
  "described s i l \<longleftrightarrow> l < length (loggers s) \<and> lg_level (loggers s ! l) = ld_level i \<and>
     (ld_formatter i \<noteq> [] \<and> \<not> m_error (LogFormatter_new (ld_formatter i)) \<longrightarrow>
        lg_formatter (loggers s ! l) = Some (LogFormatter_new (ld_formatter i))) \<and>
     list_all2 (\<lambda>d a. a < length (appenders s) \<and> appender_as (lg_formatter (loggers s ! l)) d (appenders s ! a))
       (ld_appenders i) (lg_appenders (loggers s ! l))"

lemma getLogger_result:
  assumes ok: "log_ok s" and get: "LogManager_getLogger name s = (l, s1)"
  shows "log_later s s1 \<and> only_touches l s s1 \<and> l < length (loggers s1) \<and> appenders s1 = appenders s \<and>
    map_of (m_loggers s1) = (map_of (m_loggers s))(name \<mapsto> l) \<and>
    set (lg_appenders (loggers s1 ! l)) = attached s l \<and> (map_of (m_loggers s) name = Some l \<or> attached s l = {})"
proof -
  have "log_later s s1" using later_op [of "O_Get name" s] get by simp
  moreover have "sorted_keys (m_loggers s)" using ok by (simp add: log_ok_def)
  moreover have "l < length (loggers s)" if "map_of (m_loggers s) name = Some l" using ok that by (simp add: log_ok_def)
  ultimately show ?thesis using get
    by (auto simp: LogManager_getLogger_def Let_def only_touches_def attached_def nth_append std_map.find_put
        Logger_new_def split: option.splits)
qed

lemma changed_logger_some:
  "\<forall>j. set_find LogDefine_less i old = Some j \<longrightarrow> \<not> LogDefine_eq i j \<Longrightarrow>
    changed_logger old i s = apfst Some (LogManager_getLogger (ld_name i) s)"
  by (simp add: changed_logger_def split: option.split)

lemma only_touches_trans:
  assumes "only_touches l s t" "only_touches l t u"
    and "l < length (loggers t) \<Longrightarrow> \<forall>a \<in> attached t l. a \<in> attached s l \<or> length (appenders s) \<le> a"
  shows "only_touches l s u"
proof -
  have "appenders u ! a = appenders s ! a" if "a < length (appenders s)" "a \<notin> attached s l" for a
  proof -
    have "a \<notin> attached t l" using assms(3) that by (cases "l < length (loggers t)") (fastforce, simp add: attached_def)
    with that assms(1,2) show ?thesis by (simp add: only_touches_def)
  qed
  with assms(1,2) show ?thesis by (simp add: only_touches_def)
qed

lemma apply_define_result:
  assumes ok: "log_ok s" and change: "\<forall>j. set_find LogDefine_less i old = Some j \<longrightarrow> \<not> LogDefine_eq i j"
    and ty: "\<forall>d \<in> set (ld_appenders i). lad_type d \<in> {1, 2}"
  shows "\<exists>s' l. apply_define env old i s = Inr s' \<and> log_later s s' \<and> only_touches l s s' \<and> described s' i l \<and>
    map_of (m_loggers s') = (map_of (m_loggers s))(ld_name i \<mapsto> l) \<and>
    (\<forall>a \<in> set (lg_appenders (loggers s' ! l)). length (appenders s) \<le> a) \<and>
    (map_of (m_loggers s) (ld_name i) = Some l \<or> attached s l = {})"
proof -
  obtain l s1 where get: "LogManager_getLogger (ld_name i) s = (l, s1)" by force
  note g = getLogger_result [OF ok get]
  then have l: "l < length (loggers s1)" by simp
  let ?p = "prepared i l s1"
  note p = prepared_result [OF l, of i]
  have "log_ok ?p" using g p ok log_later_ok by blast
  from make_appenders_result [OF this _ ty, of l env "ld_name i"] l p obtain s' xs
    where s': "foldR (make_appender env (ld_name i) l) (ld_appenders i) ?p = Inr s'" "log_later ?p s'"
      "loggers s' = (loggers ?p)[l := (loggers ?p ! l)\<lparr>lg_appenders := lg_appenders (loggers ?p ! l) @
        [length (appenders ?p)..<length (appenders ?p) + length (ld_appenders i)]\<rparr>]"
      "m_loggers s' = m_loggers ?p" "m_root s' = m_root ?p" "appenders s' = appenders ?p @ xs"
      "list_all2 (appender_as (lg_formatter (loggers ?p ! l))) (ld_appenders i) xs" by auto
  let ?n = "length (appenders s)"
  have lg: "loggers s' ! l = (loggers s1 ! l)\<lparr>lg_level := ld_level i,
      lg_formatter := own_formatter (ld_formatter i) (lg_formatter (loggers s1 ! l)),
      lg_appenders := [?n..<?n + length (ld_appenders i)]\<rparr>"
    using s'(3) p l g by simp
  have len: "length xs = length (ld_appenders i)" using s'(7) by (simp add: list_all2_lengthD)
  have res: "apply_define env old i s = Inr s'"
    using apply_define_eq [of old i s l s1 env] changed_logger_some [OF change] get s'(1) by simp
  have later: "log_later s s'" using g p s'(2) log_later_trans by blast
  have "list_all2 (\<lambda>d a. a < length (appenders s') \<and> appender_as (lg_formatter (loggers s' ! l)) d (appenders s' ! a))
      (ld_appenders i) [?n..<?n + length (ld_appenders i)]"
    using s'(3,6,7) len p g l by (auto simp: list_all2_conv_all_nth nth_append)
  moreover have "l < length (loggers s')" using s'(3) p l by simp
  ultimately have desc: "described s' i l" by (simp add: described_def lg own_formatter_def)
  have "only_touches l s1 s'"
    using s'(3,5,6) p by (auto simp: only_touches_def attached_def nth_append l)
  then have "only_touches l s s'" using g by (intro only_touches_trans [of l s s1 s']) (auto simp: attached_def)
  with res later desc show ?thesis using s'(4) p g lg by (intro exI [of _ s'] exI [of _ l]) simp
qed


section \<open>The whole listener\<close>

definition configured :: "LogDefine \<Rightarrow> log_sys \<Rightarrow> bool" where
  "configured i s \<longleftrightarrow> (\<exists>l. map_of (m_loggers s) (ld_name i) = Some l \<and> described s i l)"

definition silenced :: "string \<Rightarrow> log_sys \<Rightarrow> bool" where
  "silenced name s \<longleftrightarrow> (\<exists>l. map_of (m_loggers s) name = Some l \<and> lg_level (loggers s ! l) = UNKNOW \<and> lg_appenders (loggers s ! l) = [])"

lemma described_cong:
  assumes "described s i l" "loggers s' ! l = loggers s ! l" "l < length (loggers s')"
    and "length (appenders s) \<le> length (appenders s')"
    and "\<forall>a \<in> set (lg_appenders (loggers s ! l)). a < length (appenders s) \<longrightarrow> appenders s' ! a = appenders s ! a"
  shows "described s' i l"
proof -
  have "list_all2 (\<lambda>d a. a < length (appenders s') \<and> appender_as (lg_formatter (loggers s ! l)) d (appenders s' ! a))
      (ld_appenders i) (lg_appenders (loggers s ! l))"
    using assms(1,4,5) unfolding described_def
    by (auto elim!: list_all2_mono [where P = "\<lambda>d a. _ d a"] simp: list_all2_conv_all_nth)
  with assms(1,2,3) show ?thesis by (simp add: described_def)
qed

lemma log_ok_inj: "log_ok s \<Longrightarrow> map_of (m_loggers s) n = Some l \<Longrightarrow> map_of (m_loggers s) n' = Some l \<Longrightarrow> n = n'"
  by (metis log_ok_def)

lemma log_ok_exists: "log_ok s \<Longrightarrow> map_of (m_loggers s) n = Some l \<Longrightarrow> l < length (loggers s)"
  by (simp add: log_ok_def)

definition keeps_rest :: "string set \<Rightarrow> nat \<Rightarrow> log_sys \<Rightarrow> log_sys \<Rightarrow> bool" where
  "keeps_rest names N s s' \<longleftrightarrow> length (appenders s) \<le> length (appenders s') \<and>
     (\<forall>n l. n \<notin> names \<longrightarrow> map_of (m_loggers s) n = Some l \<longrightarrow> map_of (m_loggers s') n = Some l \<and> loggers s' ! l = loggers s ! l) \<and>
     (\<forall>a. N \<le> a \<longrightarrow> a < length (appenders s) \<longrightarrow> appenders s' ! a = appenders s ! a)"

lemma configured_kept:
  assumes "configured i s" "keeps_rest names N s s'" "ld_name i \<notin> names" "log_ok s'"
    and "\<forall>l. map_of (m_loggers s) (ld_name i) = Some l \<longrightarrow> (\<forall>a \<in> set (lg_appenders (loggers s ! l)). N \<le> a)"
  shows "configured i s'"
proof -
  obtain l where l: "map_of (m_loggers s) (ld_name i) = Some l" "described s i l"
    using assms(1) by (auto simp: configured_def)
  with assms(2,3) have l': "map_of (m_loggers s') (ld_name i) = Some l" "loggers s' ! l = loggers s ! l"
    by (auto simp: keeps_rest_def)
  have "described s' i l"
    using l(2) l'(2) log_ok_exists [OF assms(4) l'(1)]
    by (rule described_cong) (use assms(2,5) l(1) in \<open>auto simp: keeps_rest_def\<close>)
  with l'(1) show ?thesis by (auto simp: configured_def)
qed

lemma touches_keeps_rest:
  assumes ok: "log_ok s'" and "only_touches l s s'" and m: "map_of (m_loggers s') = (map_of (m_loggers s))(name \<mapsto> l)"
    and "log_ok s" and "\<forall>a \<in> attached s l. a < N"
  shows "keeps_rest {name} N s s'"
proof -
  have "loggers s' ! k = loggers s ! k" if "n \<noteq> name" "map_of (m_loggers s) n = Some k" for n k
  proof -
    have "map_of (m_loggers s') n = Some k" "map_of (m_loggers s') name = Some l" using that m by simp_all
    then have "k \<noteq> l" using log_ok_inj [OF ok] that(1) by blast
    with assms(2) log_ok_exists [OF assms(4) that(2)] show ?thesis by (simp add: only_touches_def)
  qed
  moreover have "appenders s' ! a = appenders s ! a" if "N \<le> a" "a < length (appenders s)" for a
    using assms(2,5) that by (force simp: only_touches_def)
  ultimately show ?thesis using assms(2) m by (auto simp: keeps_rest_def only_touches_def)
qed

lemma keeps_rest_trans:
  assumes "keeps_rest A N s t" "keeps_rest B N t u" shows "keeps_rest (A \<union> B) N s u"
  using assms by (auto simp: keeps_rest_def)

lemma apply_all_result:
  assumes "log_ok s" "distinct (map ld_name new)" "N \<le> length (appenders s)"
    and "\<forall>i \<in> set new. (\<forall>j. set_find LogDefine_less i old = Some j \<longrightarrow> \<not> LogDefine_eq i j) \<and>
      (\<forall>d \<in> set (ld_appenders i). lad_type d \<in> {1, 2}) \<and>
      (\<forall>l. map_of (m_loggers s) (ld_name i) = Some l \<longrightarrow> (\<forall>a \<in> attached s l. a < N))"
  shows "\<exists>s'. foldR (apply_define env old) new s = Inr s' \<and> log_later s s' \<and> (\<forall>i \<in> set new. configured i s') \<and>
    keeps_rest (ld_name ` set new) N s s'"
  using assms
proof (induction new arbitrary: s)
  case Nil
  then show ?case by (auto simp: keeps_rest_def intro: later_refl)
next
  case (Cons i new)
  obtain s1 l where s1: "apply_define env old i s = Inr s1" "log_later s s1" "only_touches l s s1" "described s1 i l"
    "map_of (m_loggers s1) = (map_of (m_loggers s))(ld_name i \<mapsto> l)"
    "\<forall>a \<in> set (lg_appenders (loggers s1 ! l)). length (appenders s) \<le> a"
    "map_of (m_loggers s) (ld_name i) = Some l \<or> attached s l = {}"
    using apply_define_result [OF Cons.prems(1), of i old env] Cons.prems(4) by auto
  have ok1: "log_ok s1" using s1(2) Cons.prems(1) by (rule log_later_ok)
  have "\<forall>a \<in> attached s l. a < N" using s1(7) Cons.prems(4) by auto
  with touches_keeps_rest [OF ok1 s1(3,5) Cons.prems(1)] have keep: "keeps_rest {ld_name i} N s s1" .
  have pend: "\<forall>a \<in> attached s1 k. a < N" if j: "j \<in> set new" and k: "map_of (m_loggers s1) (ld_name j) = Some k" for j k
  proof -
    have "ld_name j \<in> ld_name ` set new" using j by (rule imageI)
    with Cons.prems(2) have "ld_name j \<noteq> ld_name i" by auto
    with k s1(5) have k': "map_of (m_loggers s) (ld_name j) = Some k" by simp
    with keep \<open>ld_name j \<noteq> ld_name i\<close> have "loggers s1 ! k = loggers s ! k" by (simp add: keeps_rest_def)
    moreover have "\<forall>a \<in> attached s k. a < N" using Cons.prems(4) j k' by simp
    ultimately show ?thesis using log_ok_exists [OF Cons.prems(1) k'] by (simp add: attached_def)
  qed
  have "N \<le> length (appenders s1)" using Cons.prems(3) keep by (simp add: keeps_rest_def)
  with Cons.IH [OF ok1] Cons.prems(2,4) pend obtain s' where
    s': "foldR (apply_define env old) new s1 = Inr s'" "log_later s1 s'" "\<forall>i \<in> set new. configured i s'"
      "keeps_rest (ld_name ` set new) N s1 s'" by auto
  have "configured i s'"
  proof (rule configured_kept [OF _ s'(4)])
    show "configured i s1" using s1(4,5) by (simp add: configured_def)
    show "log_ok s'" using s'(2) ok1 by (rule log_later_ok)
    show "\<forall>l. map_of (m_loggers s1) (ld_name i) = Some l \<longrightarrow> (\<forall>a \<in> set (lg_appenders (loggers s1 ! l)). N \<le> a)"
      using s1(5,6) Cons.prems(3) by fastforce
  qed (use Cons.prems(2) in auto)
  with s' s1(1) keeps_rest_trans [OF keep s'(4)] log_later_trans [OF s'(2) s1(2)] show ?case by auto
qed

lemma remove_define_result:
  assumes ok: "log_ok s" and gone: "ld_name i \<notin> ld_name ` set new"
  shows "log_later s (remove_define new i s) \<and> silenced (ld_name i) (remove_define new i s) \<and>
    keeps_rest {ld_name i} 0 s (remove_define new i s)"
proof -
  have find: "set_find LogDefine_less i new = None"
    using gone linorder_less_linear by (fastforce simp: set_find_None LogDefine_less_def image_iff)
  obtain l s1 where get: "LogManager_getLogger (ld_name i) s = (l, s1)" by force
  note g = getLogger_result [OF ok get]
  define s2 where "s2 = Logger_setLevel l UNKNOW s1"
  have r: "remove_define new i s = Logger_clearAppenders l s2" by (simp add: remove_define_def find get s2_def)
  have ok1: "log_ok s1" using g ok log_later_ok by blast
  have "log_later s1 s2" using later_op [of "O_Level l UNKNOW" s1] g by (simp add: s2_def)
  moreover have "log_later s2 (Logger_clearAppenders l s2)"
    using later_op [of "O_Clear l" s2] g by (simp add: s2_def Logger_setLevel_def)
  ultimately have later: "log_later s (remove_define new i s)" using g r log_later_trans by metis
  have same: "m_loggers (remove_define new i s) = m_loggers s1" "appenders (remove_define new i s) = appenders s"
    using g by (simp_all add: r s2_def Logger_setLevel_def Logger_clearAppenders_def)
  have lgs: "loggers (remove_define new i s) = (loggers s1)[l := (loggers s1 ! l)\<lparr>lg_level := UNKNOW, lg_appenders := []\<rparr>]"
    using g by (simp add: r s2_def Logger_setLevel_def Logger_clearAppenders_def upd_logger_def)
  have "silenced (ld_name i) (remove_define new i s)"
    using g by (simp add: silenced_def same lgs)
  moreover have "loggers (remove_define new i s) ! k = loggers s ! k"
    if "n \<noteq> ld_name i" "map_of (m_loggers s) n = Some k" for n k
  proof -
    have "map_of (m_loggers s1) n = Some k" "map_of (m_loggers s1) (ld_name i) = Some l" using that g by simp_all
    then have "k \<noteq> l" using log_ok_inj [OF ok1] that(1) by blast
    with g log_ok_exists [OF ok that(2)] show ?thesis by (simp add: lgs only_touches_def)
  qed
  ultimately show ?thesis using later g same by (auto simp: keeps_rest_def)
qed


lemma keeps_rest_at:
  "keeps_rest names N s s' \<Longrightarrow> n \<notin> names \<Longrightarrow> map_of (m_loggers s) n = Some l \<Longrightarrow>
    map_of (m_loggers s') n = Some l \<and> loggers s' ! l = loggers s ! l"
  by (simp add: keeps_rest_def)

lemma silenced_kept: "silenced n s \<Longrightarrow> keeps_rest A N s s' \<Longrightarrow> n \<notin> A \<Longrightarrow> silenced n s'"
  by (fastforce simp: silenced_def keeps_rest_def)

lemma remove_define_present: "ld_name i \<in> ld_name ` set new \<Longrightarrow> remove_define new i s = s"
proof -
  assume "ld_name i \<in> ld_name ` set new"
  then obtain j where "j \<in> set new" "ld_name i = ld_name j" by blast
  then have "set_find LogDefine_less i new \<noteq> None" unfolding set_find_None by (metis LogDefine_less_def less_irrefl)
  then show ?thesis by (auto simp: remove_define_def)
qed

lemma remove_all_result:
  assumes "log_ok s"
  shows "log_later s (fold (remove_define new) old s) \<and>
    (\<forall>i \<in> set old. ld_name i \<notin> ld_name ` set new \<longrightarrow> silenced (ld_name i) (fold (remove_define new) old s)) \<and>
    keeps_rest (ld_name ` set old - ld_name ` set new) 0 s (fold (remove_define new) old s)"
  using assms
proof (induction old arbitrary: s)
  case Nil
  then show ?case by (simp add: keeps_rest_def later_refl)
next
  case (Cons i old)
  show ?case
  proof (cases "ld_name i \<in> ld_name ` set new")
    case True
    with Cons.IH [OF Cons.prems] show ?thesis by (simp add: remove_define_present insert_Diff_if)
  next
    case False
    let ?s1 = "remove_define new i s" let ?s' = "fold (remove_define new) old ?s1"
    note r = remove_define_result [OF Cons.prems False]
    have "log_ok ?s1" using r Cons.prems log_later_ok by blast
    note IH = Cons.IH [OF this]
    have "silenced (ld_name i) ?s'"
      using IH r silenced_kept [of "ld_name i" ?s1 _ 0 ?s'] False by (cases "ld_name i \<in> ld_name ` set old") auto
    moreover have "keeps_rest (ld_name ` set (i # old) - ld_name ` set new) 0 s ?s'"
      using keeps_rest_trans [of "{ld_name i}" 0 s ?s1] IH r False by (simp add: insert_Diff_if)
    moreover have "log_later s ?s'" using IH r log_later_trans by blast
    ultimately show ?thesis using IH by auto
  qed
qed

lemma sorted_names: "sorted_wrt LogDefine_less v \<Longrightarrow> distinct (map ld_name v)"
  by (induction v) (auto simp: LogDefine_less_def)

text \<open>An element that is new, or differs from the old one of its name where \<^verbatim>\<open>==\<close> looks.\<close>

definition is_change :: "LogDefine list \<Rightarrow> LogDefine \<Rightarrow> bool" where
  "is_change old i \<longleftrightarrow>
     (\<forall>j \<in> set old. ld_name j = ld_name i \<longrightarrow> ld_level j \<noteq> ld_level i \<or> ld_formatter j \<noteq> ld_formatter i)"

lemma is_change_found: "is_change old i \<Longrightarrow> set_find LogDefine_less i old = Some j \<Longrightarrow> \<not> LogDefine_eq i j"
  by (auto dest!: set_find_Some simp: is_change_def LogDefine_eq_iff LogDefine_less_def)

lemma on_logger_conf_changed_result:
  assumes "log_run s" and "dates_fit env s" and "sorted_wrt LogDefine_less new_value"
    and "\<forall>i \<in> set new_value. is_change old_value i \<and> (\<forall>d \<in> set (ld_appenders i). lad_type d \<in> {1, 2})"
  shows "\<exists>s'. on_logger_conf_changed old_value new_value ((env, site), s) = (None, (env, site), s') \<and> log_run s' \<and>
    (\<forall>i \<in> set new_value. configured i s') \<and>
    (\<forall>i \<in> set old_value. ld_name i \<notin> ld_name ` set new_value \<longrightarrow> silenced (ld_name i) s') \<and>
    (\<forall>n l. n \<notin> ld_name ` (set new_value \<union> set old_value) \<longrightarrow> map_of (m_loggers s) n = Some l \<longrightarrow>
       map_of (m_loggers s') n = Some l \<and> loggers s' ! l = loggers s ! l)"
proof -
  have ok: "log_ok s" using assms(1) by (rule log_run_ok)
  then have "m_root s < length (loggers s)" by (simp add: log_ok_def)
  then obtain s1 where s1: "log_macro 2 env (m_root s) INFO site ''on_logger_conf_changed'' s = Some (Inr s1)"
    "log_later s s1" "log_frame s s1" using log_macro_result [OF assms(1,2)] by blast
  have ok1: "log_ok s1" using s1(2) ok by (rule log_later_ok)
  have "\<forall>a \<in> attached s1 l. a < length (appenders s1)" for l
    using logger_ok_at [OF ok1, of l] by (auto simp: attached_def logger_ok_def)
  then obtain s2 where s2: "foldR (apply_define env old_value) new_value s1 = Inr s2" "log_later s1 s2"
    "\<forall>i \<in> set new_value. configured i s2" "keeps_rest (ld_name ` set new_value) (length (appenders s1)) s1 s2"
    using apply_all_result [OF ok1 sorted_names [OF assms(3)] order.refl, of old_value env] assms(4) is_change_found by blast
  let ?s' = "fold (remove_define new_value) old_value s2"
  have ok2: "log_ok s2" using s2(2) ok1 by (rule log_later_ok)
  note r = remove_all_result [OF ok2, of new_value old_value]
  have ok': "log_ok ?s'" using r ok2 log_later_ok by blast
  have "on_logger_conf_changed old_value new_value ((env, site), s) = (None, (env, site), ?s')"
    by (simp add: on_logger_conf_changed_def s1(1) s2(1))
  moreover have "log_run ?s'" using r s2(2) s1(2) assms(1) log_later_run by blast
  moreover have "configured i ?s'" if "i \<in> set new_value" for i
    using s2(3) that by (intro configured_kept [OF _ conjunct2 [OF conjunct2 [OF r]] _ ok']) auto
  moreover have "map_of (m_loggers ?s') n = Some l \<and> loggers ?s' ! l = loggers s ! l"
    if "n \<notin> ld_name ` (set new_value \<union> set old_value)" "map_of (m_loggers s) n = Some l" for n l
  proof -
    have l1: "map_of (m_loggers s1) n = Some l" "loggers s1 ! l = loggers s ! l"
      using that(2) s1(3) by (simp_all add: log_frame_def)
    have "n \<notin> ld_name ` set new_value" "n \<notin> ld_name ` set old_value - ld_name ` set new_value" using that(1) by auto
    with keeps_rest_at [OF s2(4) _ l1(1)] keeps_rest_at [OF conjunct2 [OF conjunct2 [OF r]], of n l] l1(2)
    show ?thesis by simp
  qed
  ultimately show ?thesis using r by blast
qed

lemma setValue_logs:
  assumes "cv_type x = log_defines_type L" "cv_cbs x = [(key, on_logger_conf_changed)]"
  shows "ConfigVar_setValue v (w, x) =
    (if list_all2 LogDefine_eq v (cv_val x) then (None, w, x)
     else (case on_logger_conf_changed (cv_val x) v w of
             (Some e, w') \<Rightarrow> (Some e, w', x) | (None, w') \<Rightarrow> (None, w', x\<lparr>cv_val := v\<rparr>)))"
  using assms by (auto simp: ConfigVar_setValue_def log_defines_type_def LogDefines_eq_def split: prod.split option.split)

text \<open>What assigning a changed value does.\<close>

lemma setValue_configures:
  assumes s: "log_run s" "dates_fit env s" and v: "sorted_wrt LogDefine_less v"
    and ch: "\<forall>i \<in> set v. is_change (cv_val x) i \<and> (\<forall>d \<in> set (ld_appenders i). lad_type d \<in> {1, 2})"
    and x: "cv_type x = log_defines_type L" "cv_cbs x = [(key, on_logger_conf_changed)]"
  shows "\<exists>s'. ConfigVar_setValue v (((env, site), s), x) = (None, ((env, site), s'), x\<lparr>cv_val := v\<rparr>) \<and>
    log_run s' \<and> (\<forall>i \<in> set v. configured i s') \<and>
    (\<forall>i \<in> set (cv_val x). ld_name i \<notin> ld_name ` set v \<longrightarrow> silenced (ld_name i) s') \<and>
    (\<forall>n l. n \<notin> ld_name ` (set v \<union> set (cv_val x)) \<longrightarrow> map_of (m_loggers s) n = Some l \<longrightarrow>
       map_of (m_loggers s') n = Some l \<and> loggers s' ! l = loggers s ! l)"
proof (cases "list_all2 LogDefine_eq v (cv_val x)")
  case True
  have "v = []"
  proof (cases v)
    case (Cons i is')
    with True obtain j js where "cv_val x = j # js" "LogDefine_eq i j" by (auto simp: list_all2_Cons1)
    with ch Cons show ?thesis by (auto simp: is_change_def LogDefine_eq_iff)
  qed
  with True have "cv_val x = []" by simp
  with \<open>v = []\<close> True s(1) show ?thesis
    by (intro exI [of _ s]) (simp add: setValue_logs [OF x])
next
  case False
  from on_logger_conf_changed_result [OF s v ch, of site] show ?thesis
    by (auto simp: setValue_logs [OF x] False)
qed

text \<open>
  A new value of the variable \<^verbatim>\<open>logs\<close> is carried out. If every element is new or
  changed, and names appenders of the two known kinds, \<^verbatim>\<open>setValue\<close> returns, stores the value,
  and leaves the loggers in a state they can reach by their own interface, in which: every element of
  the new value has its logger, with the level, the formatter (if it parses) and exactly the appenders
  the element lists, each with its kind, file, level and formatter, or the logger's formatter in place
  of a missing or broken one; every logger that was named before and is not now has level zero and no
  appenders; and all other loggers are as they were.
\<close>
theorem log_config_applied:
  assumes "log_run s" and "dates_fit env s" and "sorted_wrt LogDefine_less new_value"
    and "\<forall>i \<in> set new_value. is_change (cv_val x) i \<and> (\<forall>d \<in> set (ld_appenders i). lad_type d \<in> {1, 2})"
    and "cv_type x = log_defines_type L" and "cv_cbs x = [(key, on_logger_conf_changed)]"
  shows "\<exists>s'. ConfigVar_setValue new_value (((env, site), s), x) = (None, ((env, site), s'), x\<lparr>cv_val := new_value\<rparr>) \<and>
    log_run s' \<and> (\<forall>i \<in> set new_value. configured i s') \<and>
    (\<forall>i \<in> set (cv_val x). ld_name i \<notin> ld_name ` set new_value \<longrightarrow> silenced (ld_name i) s') \<and>
    (\<forall>n l. n \<notin> ld_name ` (set new_value \<union> set (cv_val x)) \<longrightarrow> map_of (m_loggers s) n = Some l \<longrightarrow>
       map_of (m_loggers s') n = Some l \<and> loggers s' ! l = loggers s ! l)"
  by (rule setValue_configures [OF assms])

text \<open>The variable as it is after \<^verbatim>\<open>LogIniter\<close>, and a value for it.\<close>

definition logs_var :: "yaml_lib \<Rightarrow> (LogDefine list, log_world) config_var" where
  "logs_var L = \<lparr>cv_name = ''logs'', cv_description = ''logs config'', cv_type = log_defines_type L, cv_val = [],
     cv_cbs = [(1, on_logger_conf_changed)]\<rparr>"

definition demo_define :: LogDefine where
  "demo_define = \<lparr>ld_name = ''sys'', ld_level = WARN, ld_formatter = '''',
     ld_appenders = [\<lparr>lad_type = 1, lad_level = UNKNOW, lad_formatter = ''%m%n'', lad_file = ''a.log''\<rparr>,
                     \<lparr>lad_type = 2, lad_level = UNKNOW, lad_formatter = '''', lad_file = ''''\<rparr>]\<rparr>"

theorem log_config_applied_witness:
  "\<forall>site. \<exists>s'. ConfigVar_setValue [demo_define] (((demo_env, site), LogManager_new), logs_var demo_lib) =
      (None, ((demo_env, site), s'), (logs_var demo_lib)\<lparr>cv_val := [demo_define]\<rparr>) \<and> configured demo_define s'"
proof
  fix site
  have "\<forall>i \<in> set [demo_define]. is_change (cv_val (logs_var demo_lib)) i \<and> (\<forall>d \<in> set (ld_appenders i). lad_type d \<in> {1, 2})"
    by (simp add: logs_var_def is_change_def demo_define_def)
  then show "\<exists>s'. ConfigVar_setValue [demo_define] (((demo_env, site), LogManager_new), logs_var demo_lib) =
      (None, ((demo_env, site), s'), (logs_var demo_lib)\<lparr>cv_val := [demo_define]\<rparr>) \<and> configured demo_define s'"
    using log_config_applied [OF log_start demo_fit(2), of "[demo_define]" "logs_var demo_lib" demo_lib 1 site]
    by (auto simp: logs_var_def)
qed

section \<open>What the listener does not survive, and what it does not see\<close>

lemma foldR_fails:
  assumes "i \<in> set xs" "\<And>s. f i s = Inl e" "\<And>x s e'. x \<in> set xs \<Longrightarrow> f x s = Inl e' \<Longrightarrow> e' = e"
  shows "foldR f xs s = Inl e"
  using assms(1,3)
proof (induction xs arbitrary: s)
  case (Cons x xs)
  show ?case
  proof (cases "f x s")
    case (Inl e')
    with Cons.prems(2) [of x s e'] show ?thesis by simp
  next
    case (Inr t)
    with assms(2) [of s] have "i \<noteq> x" by auto
    with Cons.IH [of t] Cons.prems Inr show ?thesis by auto
  qed
qed simp

lemma make_appenders_total: "\<forall>d \<in> set ds. lad_type d \<in> {1, 2} \<Longrightarrow> \<exists>t. foldR (make_appender env name l) ds s = Inr t"
proof (induction ds arbitrary: s)
  case (Cons d ds)
  then show ?case using make_appender_eq [of d env name l s] by simp
qed simp

lemma apply_define_Inl:
  assumes "\<forall>d \<in> set (ld_appenders i). lad_type d \<in> {1, 2}" "apply_define env old i s = Inl e"
  shows "e = Undefined ''null logger''"
proof (cases "changed_logger old i s")
  case (Pair l s1)
  show ?thesis
  proof (cases l)
    case (Some k)
    with Pair apply_define_eq [of old i s k s1 env] make_appenders_total [OF assms(1), of env "ld_name i" k "prepared i k s1"]
    show ?thesis using assms(2) by auto
  qed (use Pair assms(2) in \<open>simp add: apply_define_def\<close>)
qed

text \<open>
  C36. A logger that stays as it is brings the program down: if the new value contains an element
  whose name, level and formatter are those of the old one (typically because another logger was
  added or changed), and is not equal to the old value as a whole, the listener calls a method of a
  null logger; nothing is stored. The dates of the formatters in use fit the buffer of 64 bytes, or the message the listener
  writes first is the undefined behaviour met first, and the appenders of the new value are of the two known kinds.
\<close>
theorem unchanged_logger_crashes:
  assumes "log_run s" and "dates_fit env s" and "sorted_wrt LogDefine_less (cv_val x)"
    and "i \<in> set v" and "\<not> is_change (cv_val x) i" and "\<not> LogDefines_eq v (cv_val x)"
    and "cv_type x = log_defines_type L" and "cv_cbs x = [(key, on_logger_conf_changed)]"
    and "\<forall>i' \<in> set v. \<forall>d \<in> set (ld_appenders i'). lad_type d \<in> {1, 2}"
  shows "\<exists>w. ConfigVar_setValue v (((env, site), s), x) = (Some (Undefined ''null logger''), w, x)"
proof -
  obtain j where j: "j \<in> set (cv_val x)" "ld_name j = ld_name i" "LogDefine_eq i j"
    using assms(5) by (auto simp: is_change_def LogDefine_eq_iff)
  obtain j' where j': "set_find LogDefine_less i (cv_val x) = Some j'"
    using j(1,2) set_find_None [of LogDefine_less i "cv_val x"] by (cases "set_find LogDefine_less i (cv_val x)") (auto simp: LogDefine_less_def)
  then have "j' \<in> set (cv_val x)" "ld_name j' = ld_name i" using set_find_Some [OF j'] same_name by auto
  with j(1,2) sorted_names [OF assms(3)] have "j' = j" by (metis distinct_map inj_onD)
  with j(3) j' have null: "apply_define env (cv_val x) i t = Inl (Undefined ''null logger'')" for t
    by (simp add: apply_define_def changed_logger_def)
  have "m_root s < length (loggers s)" using log_run_ok [OF assms(1)] by (simp add: log_ok_def)
  from log_macro_result [OF assms(1,2) this] obtain s1
    where s1: "log_macro 2 env (m_root s) INFO site ''on_logger_conf_changed'' s = Some (Inr s1)" by blast
  have "foldR (apply_define env (cv_val x)) v s1 = Inl (Undefined ''null logger'')"
    by (rule foldR_fails [where f = "apply_define env (cv_val x)" and i = i, OF assms(4) null]) (use assms(9) apply_define_Inl in blast)
  then have "on_logger_conf_changed (cv_val x) v ((env, site), s) = (Some (Undefined ''null logger''), (env, site), s1)"
    by (simp add: on_logger_conf_changed_def s1)
  with assms(6) show ?thesis
    by (intro exI [of _ "((env, site), s1)"]) (simp add: setValue_logs [OF assms(7,8)] LogDefines_eq_def)
qed

theorem unchanged_logger_crashes_witness:
  "\<forall>site. \<exists>w. ConfigVar_setValue [demo_define, demo_define\<lparr>ld_name := ''z''\<rparr>]
      (((demo_env, site), LogManager_new), (logs_var demo_lib)\<lparr>cv_val := [demo_define]\<rparr>) =
    (Some (Undefined ''null logger''), w, (logs_var demo_lib)\<lparr>cv_val := [demo_define]\<rparr>)"
  by (rule allI, rule unchanged_logger_crashes [OF log_start demo_fit(2), where i = demo_define and L = demo_lib and key = 1])
    (simp_all add: logs_var_def is_change_def LogDefines_eq_def demo_define_def)

text \<open>
  A change of appenders alone is not seen. If the new value has the same loggers with the same
  levels and formatters, then, whatever appenders it lists, \<^verbatim>\<open>setValue\<close> tells no listener,
  stores nothing and changes no logger.
\<close>
theorem appender_changes_ignored:
  assumes "map (\<lambda>i. (ld_name i, ld_level i, ld_formatter i)) v = map (\<lambda>i. (ld_name i, ld_level i, ld_formatter i)) (cv_val x)"
    and "cv_type x = log_defines_type L"
  shows "ConfigVar_setValue v (w, x) = (None, w, x)"
proof -
  have "list_all2 LogDefine_eq v (cv_val x)"
    using assms(1) by (auto simp: list_all2_conv_all_nth LogDefine_eq_iff list_eq_iff_nth_eq)
  then show ?thesis using assms(2) by (simp add: ConfigVar_setValue_def log_defines_type_def LogDefines_eq_def)
qed

theorem appender_changes_ignored_witness:
  "\<forall>w. ConfigVar_setValue [demo_define\<lparr>ld_appenders := []\<rparr>] (w, (logs_var demo_lib)\<lparr>cv_val := [demo_define]\<rparr>) =
    (None, w, (logs_var demo_lib)\<lparr>cv_val := [demo_define]\<rparr>)"
  by (rule allI, rule appender_changes_ignored [where L = demo_lib]) (simp_all add: logs_var_def)


section \<open>Writing and reading the value\<close>

lemma node_get_map_node: "node_get key (map_node es) = Inr (case map_of es key of Some n \<Rightarrow> n | None \<Rightarrow> Y_Undefined)"
proof -
  have "map_of (map (\<lambda>(k, n). (Y_Scalar k, n)) es) (Y_Scalar key) = map_of es key" by (induction es) auto
  then show ?thesis by (cases es) (auto split: option.split)
qed

lemma LogLevel_read: "LogLevel_FromString (LogLevel_ToString l) = l" "LogLevel_FromString '''' = UNKNOW"
  by (cases l; simp add: LogLevel_FromString_def LogLevel_ToString_def)
    (simp add: LogLevel_FromString_def)

lemma string_or_level:
  "string_or L ''level'' (map_node es) '''' = Inr v \<Longrightarrow>
    map_of es ''level'' = (if l = UNKNOW then None else Some (Y_Scalar (LogLevel_ToString l))) \<Longrightarrow> LogLevel_FromString v = l"
  by (auto simp: string_or_def node_get_map_node LogLevel_read split: if_splits)

lemma map_of_level_entry:
  "map_of (level_entry l) key =
    (if key = ''level'' \<and> l \<noteq> UNKNOW then Some (Y_Scalar (LogLevel_ToString l)) else None)"
  by (simp add: level_entry_def)

text \<open>What survives of an appender and of a logger.\<close>

definition lossy_appender :: "LogAppenderDefine \<Rightarrow> LogAppenderDefine" where
  "lossy_appender d = \<lparr>lad_type = lad_type d, lad_level = UNKNOW,
     lad_formatter = (if lad_type d = 1 then lad_formatter d else []),
     lad_file = (if lad_type d = 1 then lad_file d else [])\<rparr>"

definition known_type :: "LogAppenderDefine \<Rightarrow> bool" where
  "known_type d \<longleftrightarrow> lad_type d = 1 \<or> lad_type d = 2"

definition lossy_define :: "LogDefine \<Rightarrow> LogDefine" where
  "lossy_define i = i\<lparr>ld_formatter := [], ld_appenders := map lossy_appender (filter known_type (ld_appenders i))\<rparr>"

lemma read_appender_node:
  "read_appender L (appender_node d) = Inr (if known_type d then Some (lossy_appender d) else None)"
  by (auto simp: read_appender_def appender_node_def node_get_map_node map_add_def map_of_level_entry string_or_def
      known_type_def lossy_appender_def simp del: map_node.simps split: option.split)

lemma the_some_Nil: "the_some [] = []"
  by (simp add: the_some_def)

lemma the_some_if: "the_some (map (\<lambda>x. if P x then Some (f x) else None) xs) = map f (filter P xs)"
  by (induction xs) (simp_all add: the_some_def)

lemma the_some_map: "the_some (map (\<lambda>x. Some (f x)) xs) = map f xs"
  by (induction xs) (simp_all add: the_some_def)

lemma mapR_seq: "mapR (\<lambda>x. f (node_at (Y_Seq ns) x)) [0..<length ns] = mapR f ns"
proof -
  have "mapR (\<lambda>x. f (node_at (Y_Seq ns) x)) [0..<length ns] = mapR f (map (node_at (Y_Seq ns)) [0..<length ns])"
    by (simp add: mapR_map)
  also have "map (node_at (Y_Seq ns)) [0..<length ns] = ns" by (rule nth_equalityI) simp_all
  finally show ?thesis .
qed

lemma mapR_Inr: "mapR (\<lambda>x. Inr (f x)) xs = Inr (map f xs)"
  by (induction xs) simp_all

lemma read_define_node: "read_define L (define_node i) = Inr (Some (lossy_define i))"
proof -
  have reads: "mapR (\<lambda>x. read_appender L (node_at (Y_Seq (map appender_node ds)) x)) [0..<length ds] =
      Inr (map (\<lambda>d. if known_type d then Some (lossy_appender d) else None) ds)" for ds
    using mapR_seq [of "read_appender L" "map appender_node ds"]
    by (simp add: mapR_map read_appender_node mapR_Inr del: node_at.simps)
  show ?thesis
    by (cases i) (auto simp: read_define_def define_node_def node_get_map_node map_add_def map_of_level_entry string_or_def
        lossy_define_def LogLevel_read reads the_some_if the_some_Nil simp del: map_node.simps node_at.simps split: option.split)
qed

lemma read_seq_node:
  assumes "\<And>x. x \<in> set xs \<Longrightarrow> read_define L (h x) = Inr (Some (g x))"
  shows "mapR (\<lambda>i. read_define L (node_at (seq_node (map h xs)) i)) [0..<node_size (seq_node (map h xs))] = Inr (map (\<lambda>x. Some (g x)) xs)"
proof (cases "map h xs")
  case (Cons n ns)
  then have seq: "seq_node (map h xs) = Y_Seq (map h xs)" by simp
  have "mapR (\<lambda>i. read_define L (node_at (Y_Seq (map h xs)) i)) [0..<length (map h xs)] = mapR (\<lambda>x. read_define L (h x)) xs"
    by (simp only: mapR_seq mapR_map)
  also have "\<dots> = Inr (map (\<lambda>x. Some (g x)) xs)" using assms by (rule mapR_Inr_map)
  finally show ?thesis by (simp add: seq)
qed simp

lemma LogDefine_less_order: "transp LogDefine_less" "asymp LogDefine_less"
  by (auto simp: LogDefine_less_def transp_def asymp_on_def)

lemma cast_of_nodes:
  assumes load: "yl_load L v = Inr (seq_node (map h xs))" and read: "\<And>x. x \<in> set xs \<Longrightarrow> read_define L (h x) = Inr (Some (g x))"
    and sorted: "sorted_wrt LogDefine_less (map g xs)"
  shows "LexicalCast_to_LogDefines L v = Inr (map g xs)"
  using fold_set_ins [OF LogDefine_less_order, of "[]" "map g xs"] sorted
  by (simp add: LexicalCast_to_LogDefines_def load read_seq_node [OF read] the_some_map)

text \<open>
  What is lost when the value of \<^verbatim>\<open>logs\<close> is written and read back, on any parser that
  reads the emitted nodes back as they were: names, levels of loggers, kinds and files of appenders
  and formatters of file appenders survive; the formatter of every logger, the level of every
  appender, the formatter of a standard-output appender and every appender of an unknown kind are
  gone. Nothing else changes, and nothing fails.
\<close>
theorem logs_cast_loses:
  assumes "sorted_wrt LogDefine_less v" and "stable L (seq_node (map define_node v))"
  shows "bindR (LexicalCast_from_LogDefines L v) (LexicalCast_to_LogDefines L) = Inr (map lossy_define v)"
proof -
  have "sorted_wrt LogDefine_less (map lossy_define v)"
    using assms(1) by (simp add: sorted_wrt_map LogDefine_less_def [abs_def] lossy_define_def)
  with assms(2) cast_of_nodes [where h = define_node and g = lossy_define and xs = v] show ?thesis
    by (simp add: LexicalCast_from_LogDefines_def stable_def read_define_node)
qed

text \<open>A parser that knows one document.\<close>

definition one_doc :: "yaml \<Rightarrow> yaml_lib" where
  "one_doc n = \<lparr>yl_load = (\<lambda>_. Inr n), yl_emit = (\<lambda>_. ''doc''), yl_null = Inr ''null''\<rparr>"

theorem logs_cast_loses_witness:
  "bindR (LexicalCast_from_LogDefines (one_doc (seq_node [define_node demo_define])) [demo_define])
      (LexicalCast_to_LogDefines (one_doc (seq_node [define_node demo_define]))) =
    Inr [demo_define]"
proof -
  have "stable (one_doc (seq_node [define_node demo_define])) (seq_node (map define_node [demo_define]))"
    by (simp add: stable_def one_doc_def)
  moreover have "lossy_define demo_define = demo_define"
    by (simp add: lossy_define_def lossy_appender_def known_type_def demo_define_def)
  ultimately show ?thesis
    using logs_cast_loses [of "[demo_define]" "one_doc (seq_node [define_node demo_define])"] by simp
qed


section \<open>Exporting the loggers\<close>

text \<open>The nodes the two \<^verbatim>\<open>toYamlString\<close> of appenders and loggers emit.\<close>

definition appender_out :: "appender \<Rightarrow> yaml" where
  "appender_out a = map_node
      ((case ap_kind a of
          Stdout \<Rightarrow> [(''type'', Y_Scalar ''StdoutLogAppender'')]
        | File filename f t \<Rightarrow> [(''type'', Y_Scalar ''FileLogAppender''), (''file'', Y_Scalar filename)]) @
       level_entry (ap_level a) @ formatter_entry a)"

definition logger_out :: "log_sys \<Rightarrow> nat \<Rightarrow> yaml" where
  "logger_out s l = (let lg = loggers s ! l; ns = map (\<lambda>a. appender_out (appenders s ! a)) (lg_appenders lg) in
     map_node ([(''name'', Y_Scalar (lg_name lg))] @ level_entry (lg_level lg) @
       (case lg_formatter lg of Some f \<Rightarrow> [(''formatter'', Y_Scalar (m_pattern f))] | None \<Rightarrow> []) @
       (if ns = [] then [] else [(''appenders'', Y_Seq ns)])))"

text \<open>The element of a configuration that an existing appender, an existing logger amount to.\<close>

definition appender_define :: "appender \<Rightarrow> LogAppenderDefine" where
  "appender_define a =
    (case ap_kind a of
       Stdout \<Rightarrow> \<lparr>lad_type = 2, lad_level = UNKNOW, lad_formatter = [], lad_file = []\<rparr>
     | File n f t \<Rightarrow> \<lparr>lad_type = 1, lad_level = UNKNOW,
         lad_formatter = (case ap_formatter a of Some fm \<Rightarrow> if ap_hasFormatter a then m_pattern fm else [] | None \<Rightarrow> []),
         lad_file = n\<rparr>)"

definition logger_define :: "log_sys \<Rightarrow> nat \<Rightarrow> LogDefine" where
  "logger_define s l = \<lparr>ld_name = lg_name (loggers s ! l), ld_level = lg_level (loggers s ! l),
     ld_formatter = (case lg_formatter (loggers s ! l) of Some f \<Rightarrow> m_pattern f | None \<Rightarrow> []),
     ld_appenders = map (\<lambda>a. appender_define (appenders s ! a)) (lg_appenders (loggers s ! l))\<rparr>"

lemma read_appender_out: "read_appender L (appender_out a) = Inr (Some (appender_define a))"
  by (cases "ap_kind a"; cases "ap_formatter a"; cases "ap_hasFormatter a")
    (simp_all add: read_appender_def appender_out_def node_get_map_node map_add_def map_of_level_entry string_or_def
      appender_define_def formatter_entry_def del: map_node.simps)

lemma read_logger_out: "read_define L (logger_out s l) = Inr (Some (logger_define s l))"
proof -
  have reads: "mapR (\<lambda>x. read_appender L (node_at (Y_Seq (map (\<lambda>a. appender_out (appenders s ! a)) as)) x)) [0..<length as] =
      Inr (map (\<lambda>a. Some (appender_define (appenders s ! a))) as)" for as
    using mapR_seq [of "read_appender L" "map (\<lambda>a. appender_out (appenders s ! a)) as"]
    by (simp add: mapR_map read_appender_out mapR_Inr del: node_at.simps)
  show ?thesis
    by (cases "lg_formatter (loggers s ! l)"; cases "lg_level (loggers s ! l) = UNKNOW"; cases "lg_appenders (loggers s ! l) = []")
      (simp_all add: read_define_def logger_out_def node_get_map_node map_add_def map_of_level_entry string_or_def
        logger_define_def LogLevel_read reads the_some_map the_some_Nil Let_def del: map_node.simps node_at.simps)
qed

lemma Logger_toYamlString_out:
  assumes "\<forall>a \<in> set (lg_appenders (loggers s ! l)). stable L (appender_out (appenders s ! a))"
  shows "Logger_toYamlString L l s = Inr (yl_emit L (logger_out s l))"
proof -
  have "mapR (\<lambda>a. yl_load L (LogAppender_toYamlString L (appenders s ! a))) (lg_appenders (loggers s ! l)) =
      Inr (map (\<lambda>a. appender_out (appenders s ! a)) (lg_appenders (loggers s ! l)))"
    using assms by (intro mapR_Inr_map) (auto simp: stable_def LogAppender_toYamlString_def
        StdoutLogAppender_toYamlString_def FileLogAppender_toYamlString_def appender_out_def simp del: map_node.simps split: ap_kind.splits)
  then show ?thesis by (auto simp: Logger_toYamlString_def logger_out_def Let_def simp del: map_node.simps)
qed

lemma export_text:
  assumes "\<forall>(n, l) \<in> set (m_loggers s). stable L (logger_out s l) \<and>
      (\<forall>a \<in> set (lg_appenders (loggers s ! l)). stable L (appender_out (appenders s ! a)))"
  shows "LogManager_toYamlString L s = Inr (yl_emit L (seq_node (map (\<lambda>(n, l). logger_out s l) (m_loggers s))))"
proof -
  have "mapR (\<lambda>(name, l). bindR (Logger_toYamlString L l s) (yl_load L)) (m_loggers s) =
      Inr (map (\<lambda>(n, l). logger_out s l) (m_loggers s))"
    using assms by (intro mapR_Inr_map) (auto simp: Logger_toYamlString_out stable_def)
  then show ?thesis by (simp add: LogManager_toYamlString_def)
qed

lemma export_cast:
  assumes "log_run s" and "stable L (seq_node (map (\<lambda>(n, l). logger_out s l) (m_loggers s)))"
  shows "LexicalCast_to_LogDefines L (yl_emit L (seq_node (map (\<lambda>(n, l). logger_out s l) (m_loggers s)))) =
    Inr (map (\<lambda>(n, l). logger_define s l) (m_loggers s))"
proof -
  let ?h = "\<lambda>(n, l). logger_out s l" and ?g = "\<lambda>(n :: string, l). logger_define s l"
  have ok: "log_ok s" using assms(1) by (rule log_run_ok)
  have names: "ld_name (?g e) = fst e" if "e \<in> set (m_loggers s)" for e
  proof -
    have "distinct (map fst (m_loggers s))" using ok by (auto simp: log_ok_def sorted_keys_def strict_sorted_iff)
    with that have "map_of (m_loggers s) (fst e) = Some (snd e)" by simp
    with ok show ?thesis by (cases e) (simp add: log_ok_def logger_define_def)
  qed
  have "sorted_wrt (\<lambda>x y. fst x < fst y) (m_loggers s)" using ok by (simp add: log_ok_def sorted_keys_def sorted_wrt_map)
  then have "sorted_wrt LogDefine_less (map ?g (m_loggers s))"
    unfolding sorted_wrt_map by (rule sorted_wrt_mono_rel [rotated]) (simp add: LogDefine_less_def names)
  moreover have "read_define L (?h e) = Inr (Some (?g e))" for e by (cases e) (simp add: read_logger_out)
  ultimately show ?thesis
    using assms(2) by (intro cast_of_nodes [where h = ?h]) (simp_all add: stable_def)
qed

text \<open>
  The export is a configuration: on a parser that reads the emitted nodes back as they were,
  the text of \<^verbatim>\<open>LogManager::toYamlString\<close>, read as a value of the variable
  \<^verbatim>\<open>logs\<close>, describes exactly the registered loggers in the order of their names, with their
  levels, patterns, appenders and files; levels of appenders and patterns of standard-output
  appenders are missing.
\<close>
theorem export_reads_back:
  assumes "log_run s"
    and "\<forall>(n, l) \<in> set (m_loggers s). stable L (logger_out s l) \<and>
      (\<forall>a \<in> set (lg_appenders (loggers s ! l)). stable L (appender_out (appenders s ! a)))"
    and "stable L (seq_node (map (\<lambda>(n, l). logger_out s l) (m_loggers s)))"
  shows "bindR (LogManager_toYamlString L s) (LexicalCast_to_LogDefines L) =
    Inr (map (\<lambda>(n, l). logger_define s l) (m_loggers s))"
  using export_text [OF assms(2)] export_cast [OF assms(1,3)] by simp

definition three_docs :: "yaml \<Rightarrow> yaml \<Rightarrow> yaml \<Rightarrow> yaml_lib" where
  "three_docs A B C = \<lparr>yl_load = (\<lambda>s. Inr (if s = ''a'' then A else if s = ''b'' then B else C)),
     yl_emit = (\<lambda>n. if n = A then ''a'' else if n = B then ''b'' else ''c''), yl_null = Inr ''null''\<rparr>"

definition demo_docs :: yaml_lib where
  "demo_docs = three_docs (appender_out (appenders LogManager_new ! 0)) (logger_out LogManager_new 0) (Y_Seq [logger_out LogManager_new 0])"

theorem export_reads_back_witness:
  "bindR (LogManager_toYamlString demo_docs LogManager_new) (LexicalCast_to_LogDefines demo_docs) =
    Inr [logger_define LogManager_new 0]"
proof -
  have parts: "m_loggers LogManager_new = [(''root'', 0)]" "lg_appenders (loggers LogManager_new ! 0) = [0]"
    by (simp_all add: LogManager_new_def new_appender_def Logger_addAppender_def upd_logger_def upd_appender_def
        LogAppender_getFormatter_def StdoutLogAppender_new_def Logger_new_def Let_def)
  have "stable demo_docs (appender_out (appenders LogManager_new ! 0))" "stable demo_docs (logger_out LogManager_new 0)"
    "stable demo_docs (Y_Seq [logger_out LogManager_new 0])"
    by (simp_all add: stable_def demo_docs_def three_docs_def)
  then show ?thesis using export_reads_back [OF log_start, of demo_docs] by (simp add: parts)
qed

end
