(* ===== verification/Log_Load.thy ===== *)
theory Log_Load
  imports Log_Config Fiber_Config
begin

text \<open>
  From a document to the loggers: the loading of \<open>Config\<close>, the variable \<^verbatim>\<open>logs\<close> and its
  listener of \<open>Log_Config\<close> and the loggers of \<open>Loggers\<close> put together, and a document made of what
  \<^verbatim>\<open>LogManager::toYamlString\<close> exports loaded into a program that has just started.
\<close>

section \<open>Variables of several types in one registry\<close>

text \<open>
  A \<^verbatim>\<open>ConfigVar<T>\<close> has values of type \<open>'a\<close>; in the registry of a program they are among values of other types, \<open>up\<close>
  and \<open>dn\<close> taking them there and back.
\<close>

definition lift_type :: "('a \<Rightarrow> 'v) \<Rightarrow> ('v \<Rightarrow> 'a) \<Rightarrow> 'a config_type \<Rightarrow> 'v config_type" where
  "lift_type up dn T = \<lparr>ct_name = ct_name T, ct_fromStr = (\<lambda>t. bindR (ct_fromStr T t) (\<lambda>v. Inr (up v))),
     ct_toStr = (\<lambda>v. ct_toStr T (dn v)), ct_eq = (\<lambda>u v. ct_eq T (dn u) (dn v))\<rparr>"

definition lift_listener :: "('v \<Rightarrow> 'a) \<Rightarrow> ('a, 'w) listener \<Rightarrow> ('v, 'w) listener" where
  "lift_listener dn f old new = f (dn old) (dn new)"

definition lift_var :: "('a \<Rightarrow> 'v) \<Rightarrow> ('v \<Rightarrow> 'a) \<Rightarrow> ('a, 'w) config_var \<Rightarrow> ('v, 'w) config_var" where
  "lift_var up dn x = \<lparr>cv_name = cv_name x, cv_description = cv_description x, cv_type = lift_type up dn (cv_type x),
     cv_val = up (cv_val x), cv_cbs = map (\<lambda>(key, f). (key, lift_listener dn f)) (cv_cbs x)\<rparr>"

lemma lift_notify:
  assumes "\<And>v. dn (up v) = v"
  shows "notify_all (map snd (map (\<lambda>(key, f). (key, lift_listener dn f)) cbs)) (up old) (up new) w =
    notify_all (map snd cbs) old new w"
  by (induction cbs arbitrary: w) (auto simp: lift_listener_def assms split: prod.split option.split)

lemma lift_setValue:
  assumes "\<And>v. dn (up v) = v" and "ConfigVar_setValue v (w, x) = (e, w', x')"
  shows "ConfigVar_setValue (up v) (w, lift_var up dn x) = (e, w', lift_var up dn x')"
proof -
  have "notify_all (map snd (cv_cbs (lift_var up dn x))) (up (cv_val x)) (up v) w = notify_all (map snd (cv_cbs x)) (cv_val x) v w"
    by (simp only: lift_var_def config_var.simps lift_notify [where up = up and dn = dn, OF assms(1)])
  with assms(2) show ?thesis
    by (auto simp: ConfigVar_setValue_def lift_type_def assms(1) split: if_splits prod.splits option.splits)
      (simp_all add: lift_var_def lift_type_def assms(1))
qed

text \<open>The values of a program: the definitions of \<^verbatim>\<open>logs\<close>, and whatever the other variables hold.\<close>

datatype 'o program_val = Log_Defines "LogDefine list" | Other 'o

fun the_logs :: "'o program_val \<Rightarrow> LogDefine list" where
  "the_logs (Log_Defines v) = v"
| "the_logs (Other x) = []"

fun the_size :: "32 word program_val \<Rightarrow> 32 word" where
  "the_size (Other x) = x"
| "the_size (Log_Defines v) = 0"

definition logs_type :: "yaml_lib \<Rightarrow> 'o program_val config_type" where
  "logs_type L = lift_type Log_Defines the_logs (log_defines_type L)"

definition logs_listener :: "('o program_val, log_world) listener" where
  "logs_listener = lift_listener the_logs on_logger_conf_changed"

section \<open>Members of a document that matter\<close>

text \<open>
  What is asked of the variables a document names besides: that nobody listens to them, and that
  their conversions throw standard exceptions only.
\<close>

definition plain_var :: "('v, 'w) config_var \<Rightarrow> bool" where
  "plain_var x \<longleftrightarrow> cv_cbs x = [] \<and> (\<forall>t e. ct_fromStr (cv_type x) t = Inl e \<longrightarrow> (\<exists>m. e = Thrown (Std_exception m)))"

definition others_plain :: "nat \<Rightarrow> ('v, 'w) config \<Rightarrow> bool" where
  "others_plain a c \<longleftrightarrow> (\<forall>name b. LookupBase name c = Some b \<longrightarrow> b \<noteq> a \<longrightarrow> plain_var (vars c ! b))"

lemma fromString_plain:
  assumes "plain_var x"
  shows "\<exists>u. ConfigVar_fromString t (w, x) = (Inr False, w, x\<lparr>cv_val := u\<rparr>)"
proof (cases "ct_fromStr (cv_type x) t")
  case (Inl e)
  with assms obtain m where "e = Thrown (Std_exception m)" by (auto simp: plain_var_def)
  with Inl have "ConfigVar_fromString t (w, x) = (Inr False, w, x)" by (simp add: ConfigVar_fromString_def)
  then show ?thesis by (intro exI [of _ "cv_val x"]) simp
next
  case (Inr v)
  with assms have "ConfigVar_fromString t (w, x) = (Inr False, w, x\<lparr>cv_val := if ct_eq (cv_type x) v (cv_val x) then cv_val x else v\<rparr>)"
    by (simp add: plain_var_def ConfigVar_fromString_def ConfigVar_setValue_def)
  then show ?thesis by blast
qed

lemma others_plain_set_var:
  assumes "others_plain a c" "cv_type x = cv_type (vars c ! b)" "cv_cbs x = cv_cbs (vars c ! b)"
  shows "others_plain a (set_var b x c)"
  using assms
  by (cases "b < length (vars c)")
    (auto simp: others_plain_def set_var_def LookupBase_def plain_var_def nth_list_update list_update_beyond linorder_not_less)

text \<open>Members of other names load without the outside or the variable noticing.\<close>

lemma load_others:
  assumes "\<forall>(p, n) \<in> set is. valid_name p \<and> p \<noteq> name" "reg_ok c" "LookupBase name c = Some a" "others_plain a c"
  shows "\<exists>c'. load_members L is (w, c) = (None, w, c') \<and> reg_ok c' \<and> LookupBase name c' = Some a \<and> others_plain a c' \<and>
    vars c' ! a = vars c ! a \<and> length (vars c') = length (vars c)"
  using assms
proof (induction "is" arbitrary: c)
  case (Cons i "is")
  obtain p n where i: "i = (p, n)" by force
  then have p: "map tolower p = p" "p \<noteq> name" using Cons.prems(1) by (auto simp: valid_name_lower)
  have rest: "\<forall>(p, n) \<in> set is. valid_name p \<and> p \<noteq> name" using Cons.prems(1) by simp
  show ?case
  proof (cases "p = [] \<or> LookupBase p c = None")
    case True
    then have "load_member L i (w, c) = (None, w, c)" using i p by (auto simp: load_member_def)
    with Cons.IH [OF rest Cons.prems(2-4)] show ?thesis by auto
  next
    case False
    then obtain b where b: "p \<noteq> []" "LookupBase p c = Some b" by blast
    have ab: "b \<noteq> a" "b < length (vars c)"
      using b(2) Cons.prems(2,3) p(2) by (auto simp: reg_ok_def LookupBase_def)
    have "plain_var (vars c ! b)" using Cons.prems(4) b(2) ab(1) by (auto simp: others_plain_def)
    from fromString_plain [OF this, of "member_text L n" w] obtain u where
      "ConfigVar_fromString (member_text L n) (w, vars c ! b) = (Inr False, w, (vars c ! b)\<lparr>cv_val := u\<rparr>)" by blast
    then have "load_member L i (w, c) = (None, w, set_var b ((vars c ! b)\<lparr>cv_val := u\<rparr>) c)"
      by (simp add: i p(1) b load_member_def set_var_def member_text_def split: if_splits)
    moreover have "reg_ok (set_var b ((vars c ! b)\<lparr>cv_val := u\<rparr>) c)" using Cons.prems(2) by (simp add: reg_ok_set_var)
    moreover have "others_plain a (set_var b ((vars c ! b)\<lparr>cv_val := u\<rparr>) c)" using Cons.prems(4) by (simp add: others_plain_set_var)
    moreover have "LookupBase name (set_var b ((vars c ! b)\<lparr>cv_val := u\<rparr>) c) = Some a"
      using Cons.prems(3) by (simp add: LookupBase_def set_var_def)
    ultimately show ?thesis
      using Cons.IH [OF rest, of "set_var b ((vars c ! b)\<lparr>cv_val := u\<rparr>) c"] ab(1) by (auto simp: set_var_def)
  qed
qed simp

lemma load_members_append:
  "load_members L (is1 @ is2) s =
    (case load_members L is1 s of (Some e, s') \<Rightarrow> (Some e, s') | (None, s') \<Rightarrow> load_members L is2 s')"
  by (induction is1 arbitrary: s) (auto split: prod.split option.split)

text \<open>If the name occurs once, its variable sees one \<^verbatim>\<open>fromString\<close>.\<close>

lemma load_once:
  assumes v: "\<forall>(p, n) \<in> set is. valid_name p" and once: "map (\<lambda>(p, n). member_text L n) (filter (\<lambda>(p, n). p = name) is) = [t]"
    and c: "reg_ok c" "LookupBase name c = Some a" "others_plain a c" and name: "name \<noteq> []"
    and fs: "ConfigVar_fromString t (w, vars c ! a) = (Inr b, w', x)"
  shows "\<exists>c'. load_members L is (w, c) = (None, w', c') \<and> reg_ok c' \<and> LookupBase name c' = Some a \<and> others_plain a c' \<and> vars c' ! a = x"
proof -
  note x = fromString_frame [OF fs]
  from once obtain n where filt: "filter (\<lambda>(p, n). p = name) is = [(name, n)]" "member_text L n = t"
    by (auto simp: map_eq_Cons_conv filter_eq_Cons_iff)
  from filt(1) obtain pre post where parts: "is = pre @ (name, n) # post" "\<forall>(p, n) \<in> set pre. p \<noteq> name"
    "filter (\<lambda>(p, n). p = name) post = []"
    by (auto simp: filter_eq_Cons_iff case_prod_unfold)
  then have post: "\<forall>(p, n) \<in> set post. p \<noteq> name" by (auto simp: filter_empty_conv)
  have low: "map tolower name = name" using v parts(1) by (simp add: valid_name_lower)
  have "\<forall>(p, n) \<in> set pre. valid_name p \<and> p \<noteq> name" using v parts by auto
  from load_others [OF this c, of L w] obtain c1 where
    c1: "load_members L pre (w, c) = (None, w, c1)" "reg_ok c1" "LookupBase name c1 = Some a" "others_plain a c1"
      "vars c1 ! a = vars c ! a" by blast
  let ?c2 = "set_var a x c1"
  have "load_member L (name, n) (w, c1) = (None, w', ?c2)"
    using name low c1(3,5) fs filt(2) by (auto simp: load_member_def member_text_def set_var_def split: if_splits)
  moreover have c2: "reg_ok ?c2" "LookupBase name ?c2 = Some a" "others_plain a ?c2"
    using c1 x by (simp_all add: reg_ok_set_var others_plain_set_var) (simp add: LookupBase_def set_var_def)
  moreover have "\<forall>(p, n) \<in> set post. valid_name p \<and> p \<noteq> name" using v parts(1) post by auto
  note load_others [OF this c2, of L w']
  moreover have "vars ?c2 ! a = x" using c1(2,3) by (simp add: set_var_def reg_ok_def LookupBase_def)
  ultimately show ?thesis using c1(1) by (auto simp: parts(1) load_members_append)
qed

lemma LoadFromYaml_once:
  assumes "texts L name root = [t]" "reg_ok c" "LookupBase name c = Some a" "others_plain a c" "name \<noteq> []"
    and "ConfigVar_fromString t (w, vars c ! a) = (Inr b, w', x)"
  shows "\<exists>c'. LoadFromYaml L root (w, c) = (None, w', c') \<and> reg_ok c' \<and> LookupBase name c' = Some a \<and> others_plain a c' \<and> vars c' ! a = x"
  using load_once [OF members_valid assms(1) [unfolded texts_members] assms(2-6)] by (simp add: LoadFromYaml_def)

section \<open>The loggers of a document\<close>

lemma set_ins_sorted:
  assumes "transp lt"
  shows "sorted_wrt lt ys \<Longrightarrow> sorted_wrt lt (set_ins lt x ys) \<and> set (set_ins lt x ys) \<subseteq> insert x (set ys)"
proof (induction ys)
  case (Cons y ys)
  with assms show ?case by (auto dest: transpD)
qed simp

lemma LogDefines_sorted: "LexicalCast_to_LogDefines L t = Inr v \<Longrightarrow> sorted_wrt LogDefine_less v"
proof -
  have "sorted_wrt LogDefine_less ys \<Longrightarrow> sorted_wrt LogDefine_less (fold (set_ins LogDefine_less) xs ys)" for xs ys
    by (induction xs arbitrary: ys) (auto simp: set_ins_sorted [OF LogDefine_less_order(1)])
  then show "LexicalCast_to_LogDefines L t = Inr v \<Longrightarrow> sorted_wrt LogDefine_less v"
    by (auto simp: LexicalCast_to_LogDefines_def)
qed

text \<open>A registry with the variable \<^verbatim>\<open>logs\<close>, listened to, among any others.\<close>

definition logs_value :: "nat \<Rightarrow> ('o program_val, log_world) config \<Rightarrow> LogDefine list" where
  "logs_value a c = the_logs (cv_val (vars c ! a))"

definition is_logs :: "yaml_lib \<Rightarrow> ('o program_val, log_world) config_var \<Rightarrow> bool" where
  "is_logs L x \<longleftrightarrow> cv_type x = logs_type L \<and> (\<exists>v. cv_val x = Log_Defines v) \<and> (\<exists>key. cv_cbs x = [(key, logs_listener)])"

definition logs_ready :: "yaml_lib \<Rightarrow> nat \<Rightarrow> ('o program_val, log_world) config \<Rightarrow> bool" where
  "logs_ready L a c \<longleftrightarrow> reg_ok c \<and> LookupBase ''logs'' c = Some a \<and> others_plain a c \<and> is_logs L (vars c ! a)"

lemma is_logs_lift:
  assumes "is_logs L x"
  shows "\<exists>y key. x = lift_var Log_Defines the_logs y \<and> cv_type y = log_defines_type L \<and> cv_cbs y = [(key, on_logger_conf_changed)] \<and>
    cv_val y = the_logs (cv_val x)"
proof -
  obtain key v where x: "cv_type x = logs_type L" "cv_cbs x = [(key, logs_listener)]" "cv_val x = Log_Defines v"
    using assms by (auto simp: is_logs_def)
  have "x = lift_var Log_Defines the_logs \<lparr>cv_name = cv_name x, cv_description = cv_description x, cv_type = log_defines_type L,
      cv_val = v, cv_cbs = [(key, on_logger_conf_changed)]\<rparr>"
    using x by (cases x) (simp add: lift_var_def logs_type_def logs_listener_def)
  with x(3) show ?thesis by (intro exI) auto
qed

lemma lift_is_logs:
  "cv_type y = log_defines_type L \<Longrightarrow> cv_cbs y = [(key, on_logger_conf_changed)] \<Longrightarrow> is_logs L (lift_var Log_Defines the_logs y)"
  by (simp add: is_logs_def lift_var_def logs_type_def logs_listener_def)

lemma logs_document:
  assumes s: "log_run s" "dates_fit env s" and c: "logs_ready L a c"
    and doc: "texts L ''logs'' root = [t]" "LexicalCast_to_LogDefines L t = Inr v"
    and ch: "\<forall>i \<in> set v. is_change (logs_value a c) i \<and> (\<forall>d \<in> set (ld_appenders i). lad_type d \<in> {1, 2})"
  shows "\<exists>s' c'. LoadFromYaml L root (((env, site), s), c) = (None, ((env, site), s'), c') \<and>
    logs_ready L a c' \<and> logs_value a c' = v \<and>
    log_run s' \<and> (\<forall>i \<in> set v. configured i s') \<and>
    (\<forall>i \<in> set (logs_value a c). ld_name i \<notin> ld_name ` set v \<longrightarrow> silenced (ld_name i) s') \<and>
    (\<forall>n l. n \<notin> ld_name ` (set v \<union> set (logs_value a c)) \<longrightarrow> map_of (m_loggers s) n = Some l \<longrightarrow>
       map_of (m_loggers s') n = Some l \<and> loggers s' ! l = loggers s ! l)"
proof -
  from c have "is_logs L (vars c ! a)" by (simp add: logs_ready_def)
  then obtain y key where y: "vars c ! a = lift_var Log_Defines the_logs y" "cv_type y = log_defines_type L"
    "cv_cbs y = [(key, on_logger_conf_changed)]" "cv_val y = logs_value a c"
    unfolding logs_value_def using is_logs_lift by blast
  let ?x = "lift_var Log_Defines the_logs (y\<lparr>cv_val := v\<rparr>) :: ('a program_val, log_world) config_var"
  from setValue_configures [OF s LogDefines_sorted [OF doc(2)] ch [folded y(4)] y(2,3), of site, unfolded y(4)]
  obtain s' where s': "ConfigVar_setValue v (((env, site), s), y) = (None, ((env, site), s'), y\<lparr>cv_val := v\<rparr>)"
    and rest: "log_run s' \<and> (\<forall>i \<in> set v. configured i s') \<and>
    (\<forall>i \<in> set (logs_value a c). ld_name i \<notin> ld_name ` set v \<longrightarrow> silenced (ld_name i) s') \<and>
    (\<forall>n l. n \<notin> ld_name ` (set v \<union> set (logs_value a c)) \<longrightarrow> map_of (m_loggers s) n = Some l \<longrightarrow>
       map_of (m_loggers s') n = Some l \<and> loggers s' ! l = loggers s ! l)" by (elim exE conjE) blast
  have "ct_fromStr (cv_type (vars c ! a)) t = Inr (Log_Defines v)"
    using doc(2) y(2) by (simp add: y(1) lift_var_def lift_type_def log_defines_type_def)
  moreover have "ConfigVar_setValue (Log_Defines v) (((env, site), s), vars c ! a) = (None, ((env, site), s'), ?x)"
    unfolding y(1) using s' by (intro lift_setValue) simp_all
  ultimately have "ConfigVar_fromString t (((env, site), s), vars c ! a) = (Inr False, ((env, site), s'), ?x)"
    by (simp add: ConfigVar_fromString_def)
  note fs = this
  have reg: "reg_ok c" "LookupBase ''logs'' c = Some a" "others_plain a c" using c by (simp_all add: logs_ready_def)
  from LoadFromYaml_once [OF doc(1) reg _ fs] obtain c' where "LoadFromYaml L root (((env, site), s), c) = (None, ((env, site), s'), c')"
    "reg_ok c'" "LookupBase ''logs'' c' = Some a" "others_plain a c'" "vars c' ! a = ?x" by auto
  moreover have "is_logs L ?x" using y(2,3) by (intro lift_is_logs) simp_all
  ultimately show ?thesis using rest
    by (intro exI [of _ s'] exI [of _ c']) (simp add: logs_ready_def logs_value_def lift_var_def)
qed

text \<open>
  C10. From the document to the loggers, in a registry with any other variables that nobody listens to and whose conversions
  throw standard exceptions only. A document that names \<^verbatim>\<open>logs\<close> once, with a text that
  converts to definitions which are new or changed (one that is unchanged makes the listener crash, C36) and name appenders
  of the two known kinds, loads without an exception, if the dates of the formatters in use before fit the buffer of
  64 bytes. The variable holds the definitions; every logger they name is set up as they say;
  loggers named before and not now are silent; all others are left alone; and every other variable has been
  assigned the texts the document gives for it.
\<close>
theorem logs_document_configures:
  assumes "log_run s" and "dates_fit env s" and "logs_ready L a c"
    and "texts L ''logs'' root = [t]" and "LexicalCast_to_LogDefines L t = Inr v"
    and "\<forall>i \<in> set v. is_change (logs_value a c) i \<and> (\<forall>d \<in> set (ld_appenders i). lad_type d \<in> {1, 2})"
  shows "\<exists>s' c'. LoadFromYaml L root (((env, site), s), c) = (None, ((env, site), s'), c') \<and>
    logs_ready L a c' \<and> logs_value a c' = v \<and>
    log_run s' \<and> (\<forall>i \<in> set v. configured i s') \<and>
    (\<forall>i \<in> set (logs_value a c). ld_name i \<notin> ld_name ` set v \<longrightarrow> silenced (ld_name i) s') \<and>
    (\<forall>n l. n \<notin> ld_name ` (set v \<union> set (logs_value a c)) \<longrightarrow> map_of (m_loggers s) n = Some l \<longrightarrow>
       map_of (m_loggers s') n = Some l \<and> loggers s' ! l = loggers s ! l) \<and>
    (\<forall>name b. name \<noteq> [] \<longrightarrow> LookupBase name c = Some b \<longrightarrow> b \<noteq> a \<longrightarrow>
       vars c' ! b = (vars c ! b)\<lparr>cv_val := fold (assign (cv_type (vars c ! b))) (texts L name root) (cv_val (vars c ! b))\<rparr>)"
proof -
  from logs_document [OF assms, of site] obtain s' c' where
    load: "LoadFromYaml L root (((env, site), s), c) = (None, ((env, site), s'), c')" and
    rest: "logs_ready L a c' \<and> logs_value a c' = v \<and> log_run s' \<and> (\<forall>i \<in> set v. configured i s') \<and>
      (\<forall>i \<in> set (logs_value a c). ld_name i \<notin> ld_name ` set v \<longrightarrow> silenced (ld_name i) s') \<and>
      (\<forall>n l. n \<notin> ld_name ` (set v \<union> set (logs_value a c)) \<longrightarrow> map_of (m_loggers s) n = Some l \<longrightarrow>
         map_of (m_loggers s') n = Some l \<and> loggers s' ! l = loggers s ! l)" by (elim exE conjE) blast
  have reg: "reg_ok c" "others_plain a c" using assms(3) by (simp_all add: logs_ready_def)
  have "vars c' ! b = (vars c ! b)\<lparr>cv_val := fold (assign (cv_type (vars c ! b))) (texts L name root) (cv_val (vars c ! b))\<rparr>"
    if "name \<noteq> []" "LookupBase name c = Some b" "b \<noteq> a" for name b
    using LoadFromYaml_var [OF load reg(1) that(2,1)] reg(2) that(2,3) by (auto simp: others_plain_def plain_var_def)
  with load rest show ?thesis by blast
qed

section \<open>The start of a program\<close>

text \<open>
  The static initialisers: \<^verbatim>\<open>g_fiber_stack_size\<close> of \<^verbatim>\<open>fiber.cc\<close>, and of \<^verbatim>\<open>log.cc\<close>
  \<^verbatim>\<open>g_log_defines\<close> and then \<^verbatim>\<open>LogIniter\<close>. Which of the two files comes first is the linker's choice.
\<close>

definition size_type :: "(string \<Rightarrow> 32 word res) \<Rightarrow> (32 word \<Rightarrow> string res) \<Rightarrow> 32 word program_val config_type" where
  "size_type of_str to_str = lift_type Other the_size (uint32_type of_str to_str)"

definition g_log_defines ::
  "yaml_lib \<Rightarrow> ('o program_val, log_world) config \<Rightarrow> (nat option \<times> ('o program_val, log_world) config) res"
where
  "g_log_defines L c = Lookup (logs_type L) ''logs'' (Log_Defines []) ''logs config'' c"

definition LogIniter_new ::
  "nat \<Rightarrow> ('o program_val, log_world) cfg_state \<Rightarrow> ('o program_val, log_world) cfg_state"
where
  "LogIniter_new a s =
    (case ConfigVar_addListener logs_listener (cs_ids s ''std::set<LogDefine>'') (vars (cs_cfg s) ! a) of
       (r, n, x) \<Rightarrow> s\<lparr>cs_ids := (cs_ids s)(''std::set<LogDefine>'' := n), cs_cfg := set_var a x (cs_cfg s)\<rparr>)"

type_synonym program = "(32 word program_val, log_world) cfg_state"

definition init_fiber :: "(string \<Rightarrow> 32 word res) \<Rightarrow> (32 word \<Rightarrow> string res) \<Rightarrow> program \<Rightarrow> program res" where
  "init_fiber of_str to_str s =
    bindR (Lookup (size_type of_str to_str) ''fiber.stack_size'' (Other (1024 * 1024)) ''fiber stack size'' (cs_cfg s))
      (\<lambda>(g, c). Inr (s\<lparr>cs_cfg := c\<rparr>))"

definition init_log :: "yaml_lib \<Rightarrow> program \<Rightarrow> program res" where
  "init_log L s =
    bindR (g_log_defines L (cs_cfg s)) (\<lambda>(g, c).
      case g of
        Some a \<Rightarrow> Inr (LogIniter_new a (s\<lparr>cs_cfg := c\<rparr>))
      | None \<Rightarrow> Inl (Undefined ''null g_log_defines''))"

definition static_init ::
  "bool \<Rightarrow> yaml_lib \<Rightarrow> (string \<Rightarrow> 32 word res) \<Rightarrow> (32 word \<Rightarrow> string res) \<Rightarrow> log_world \<Rightarrow> program res"
where
  "static_init fiber_first L of_str to_str w =
    (if fiber_first then bindR (init_fiber of_str to_str (cfg_empty w)) (init_log L)
     else bindR (init_log L (cfg_empty w)) (init_fiber of_str to_str))"

lemma program_names:
  "valid_name ''logs''" "valid_name ''fiber.stack_size''" "map tolower ''logs'' = ''logs''"
  "map tolower ''fiber.stack_size'' = ''fiber.stack_size''"
proof -
  show "valid_name ''logs''" "valid_name ''fiber.stack_size''" by (simp_all add: valid_name_def config_name_chars_def)
  then show "map tolower ''logs'' = ''logs''" "map tolower ''fiber.stack_size'' = ''fiber.stack_size''"
    using valid_name_lower by blast+
qed

definition new_logs_var :: "yaml_lib \<Rightarrow> (32 word program_val, log_world) config_var" where
  "new_logs_var L = \<lparr>cv_name = ''logs'', cv_description = ''logs config'', cv_type = logs_type L, cv_val = Log_Defines [],
     cv_cbs = [(1, logs_listener)]\<rparr>"

definition new_size_var ::
  "(string \<Rightarrow> 32 word res) \<Rightarrow> (32 word \<Rightarrow> string res) \<Rightarrow> (32 word program_val, log_world) config_var"
where
  "new_size_var of_str to_str = \<lparr>cv_name = ''fiber.stack_size'', cv_description = ''fiber stack size'',
     cv_type = size_type of_str to_str, cv_val = Other 1048576, cv_cbs = []\<rparr>"

lemma static_init_result:
  "static_init fiber_first L of_str to_str w = Inr \<lparr>cs_ids = (\<lambda>_. 0)(''std::set<LogDefine>'' := 1), cs_world = w,
     cs_cfg = (if fiber_first
       then \<lparr>datas = [(''fiber.stack_size'', 0), (''logs'', 1)], vars = [new_size_var of_str to_str, new_logs_var L]\<rparr>
       else \<lparr>datas = [(''fiber.stack_size'', 1), (''logs'', 0)], vars = [new_logs_var L, new_size_var of_str to_str]\<rparr>)\<rparr>"
  using program_names
  by (simp add: static_init_def init_fiber_def init_log_def cfg_empty_def g_log_defines_def Lookup_def ConfigVar_new_def
      LogIniter_new_def ConfigVar_addListener_def set_var_def new_logs_var_def new_size_var_def)

lemma static_init_ready:
  assumes "\<forall>t e. of_str t = Inl e \<longrightarrow> (\<exists>m. e = Thrown (Std_exception m))"
  shows "\<exists>s a. static_init fiber_first L of_str to_str w = Inr s \<and> cs_world s = w \<and> logs_ready L a (cs_cfg s) \<and>
    logs_value a (cs_cfg s) = []"
proof -
  have size: "plain_var (new_size_var of_str to_str)"
    using assms by (auto simp: plain_var_def new_size_var_def size_type_def lift_type_def uint32_type_def bindR_Inl_iff)
  have logs: "is_logs L (new_logs_var L)" by (simp add: is_logs_def new_logs_var_def)
  have names: "cv_name (new_size_var of_str to_str) = ''fiber.stack_size''" "cv_name (new_logs_var L) = ''logs''"
    by (simp_all add: new_size_var_def new_logs_var_def)
  have val: "cv_val (new_logs_var L) = Log_Defines []" by (simp add: new_logs_var_def)
  show ?thesis unfolding static_init_result
    using size logs names val program_names
    by (cases fiber_first) (auto simp: logs_ready_def logs_value_def reg_ok_def others_plain_def LookupBase_def)
qed

section \<open>Loading what was exported\<close>

text \<open>The document whose member \<^verbatim>\<open>logs\<close> is the export of a log system.\<close>

definition export_node :: "log_sys \<Rightarrow> yaml" where
  "export_node s = seq_node (map (\<lambda>(n, l). logger_out s l) (m_loggers s))"

definition export_document :: "log_sys \<Rightarrow> yaml" where
  "export_document s = Y_Map [(Y_Scalar ''logs'', export_node s)]"

lemma export_members: "texts L ''logs'' (export_document s) = [yl_emit L (export_node s)]"
proof -
  have valid: "valid_name ''''" "valid_name ''logs''" by (simp_all add: valid_name_def config_name_chars_def)
  have "export_node s = Y_Null \<or> (\<exists>ns. export_node s = Y_Seq ns)"
    unfolding export_node_def by (cases "m_loggers s") auto
  with valid show ?thesis
    by (auto simp: texts_def export_document_def ListAllMember_simps join_name_def)
qed

text \<open>
  C29. Saving and restoring the loggers. The export of a log system, put under the name
  \<^verbatim>\<open>logs\<close> in a document and loaded by a program that has just started (after the static initialisers, in
  either order), sets up in it a logger for
  every logger of the first program, as its description says: name, level, pattern, and for every
  appender its kind and file. (Levels of appenders and patterns of standard-output appenders are not in
  the description.) The parser is only asked to read what it has emitted, the conversion of numbers to throw standard exceptions
  only, and the date in the default format to fit the buffer of 64 bytes.
\<close>
theorem export_restores:
  assumes "log_run s" and "dates_fit env LogManager_new"
    and "\<forall>(n, l) \<in> set (m_loggers s). stable L (logger_out s l) \<and>
      (\<forall>a \<in> set (lg_appenders (loggers s ! l)). stable L (appender_out (appenders s ! a)))"
    and "stable L (export_node s)"
    and "\<forall>t e. of_str t = Inl e \<longrightarrow> (\<exists>m. e = Thrown (Std_exception m))"
  shows "LogManager_toYamlString L s = Inr (yl_emit L (export_node s)) \<and>
    (\<exists>p s' c'. static_init fiber_first L of_str to_str ((env, site), LogManager_new) = Inr p \<and>
       LoadFromYaml L (export_document s) (cs_world p, cs_cfg p) = (None, ((env, site), s'), c') \<and>
       log_run s' \<and> (\<forall>(n, l) \<in> set (m_loggers s). configured (logger_define s l) s'))"
proof -
  let ?v = "map (\<lambda>(n, l). logger_define s l) (m_loggers s)"
  obtain p a where p: "static_init fiber_first L of_str to_str ((env, site), LogManager_new) = Inr p"
    "cs_world p = ((env, site), LogManager_new)" "logs_ready L a (cs_cfg p)" "logs_value a (cs_cfg p) = []"
    using static_init_ready [OF assms(5)] by blast
  have cast: "LexicalCast_to_LogDefines L (yl_emit L (export_node s)) = Inr ?v"
    using export_cast [OF assms(1) assms(4) [unfolded export_node_def]] by (simp add: export_node_def)
  have "\<forall>i \<in> set ?v. is_change (logs_value a (cs_cfg p)) i \<and> (\<forall>d \<in> set (ld_appenders i). lad_type d \<in> {1, 2})"
    by (auto simp: p(4) is_change_def logger_define_def appender_define_def split: ap_kind.split)
  from logs_document [OF log_start assms(2) p(3) export_members cast this, of site]
  obtain s' c' where "LoadFromYaml L (export_document s) (((env, site), LogManager_new), cs_cfg p) = (None, ((env, site), s'), c')"
    "log_run s'" "\<forall>i \<in> set ?v. configured i s'" by blast
  moreover have "LogManager_toYamlString L s = Inr (yl_emit L (export_node s))"
    using export_text [OF assms(3)] by (simp add: export_node_def)
  ultimately show ?thesis using p(1,2) by (intro conjI exI) auto
qed

theorem export_restores_witness:
  "\<forall>site. \<exists>p s' c'. static_init True demo_docs sizes (\<lambda>_. Inr '''') ((demo_env, site), LogManager_new) = Inr p \<and>
    LoadFromYaml demo_docs (export_document LogManager_new) (cs_world p, cs_cfg p) = (None, ((demo_env, site), s'), c') \<and>
    configured (logger_define LogManager_new 0) s'"
proof
  fix site
  have parts: "m_loggers LogManager_new = [(''root'', 0)]" "lg_appenders (loggers LogManager_new ! 0) = [0]"
    by (simp_all add: LogManager_new_def new_appender_def Logger_addAppender_def upd_logger_def upd_appender_def
        LogAppender_getFormatter_def StdoutLogAppender_new_def Logger_new_def Let_def)
  have st: "stable demo_docs (appender_out (appenders LogManager_new ! 0))" "stable demo_docs (logger_out LogManager_new 0)"
    "stable demo_docs (export_node LogManager_new)"
    by (simp_all add: stable_def demo_docs_def three_docs_def export_node_def parts)
  have num: "\<forall>t e. sizes t = Inl e \<longrightarrow> (\<exists>m. e = Thrown (Std_exception m))" by (simp add: sizes_def)
  have "\<forall>(n, l) \<in> set (m_loggers LogManager_new). stable demo_docs (logger_out LogManager_new l) \<and>
      (\<forall>a \<in> set (lg_appenders (loggers LogManager_new ! l)). stable demo_docs (appender_out (appenders LogManager_new ! a)))"
    using st by (simp add: parts)
  from export_restores [OF log_start demo_fit(2) this st(3) num, of True "\<lambda>_. Inr ''''" site]
  show "\<exists>p s' c'. static_init True demo_docs sizes (\<lambda>_. Inr '''') ((demo_env, site), LogManager_new) = Inr p \<and>
    LoadFromYaml demo_docs (export_document LogManager_new) (cs_world p, cs_cfg p) = (None, ((demo_env, site), s'), c') \<and>
    configured (logger_define LogManager_new 0) s'"
    by (auto simp: parts)
qed

text \<open>A parser for one document, and a logger with a file appender and one to the standard output.\<close>

theorem logs_document_configures_witness:
  "\<forall>site. \<exists>p s' c'. static_init False (one_doc (Y_Seq [define_node demo_define])) sizes (\<lambda>_. Inr '''') ((demo_env, site), LogManager_new) = Inr p \<and>
    LoadFromYaml (one_doc (Y_Seq [define_node demo_define])) (Y_Map [(Y_Scalar ''logs'', Y_Seq [define_node demo_define])])
      (cs_world p, cs_cfg p) = (None, ((demo_env, site), s'), c') \<and> configured demo_define s'"
proof
  fix site
  let ?n = "Y_Seq [define_node demo_define]" and ?doc = "Y_Map [(Y_Scalar ''logs'', Y_Seq [define_node demo_define])]"
  let ?L = "one_doc ?n"
  have num: "\<forall>t e. sizes t = Inl e \<longrightarrow> (\<exists>m. e = Thrown (Std_exception m))" by (simp add: sizes_def)
  obtain p a where p: "static_init False ?L sizes (\<lambda>_. Inr '''') ((demo_env, site), LogManager_new) = Inr p"
    "cs_world p = ((demo_env, site), LogManager_new)" "logs_ready ?L a (cs_cfg p)" "logs_value a (cs_cfg p) = []"
    using static_init_ready [OF num] by blast
  have valid: "valid_name ''''" "valid_name ''logs''" by (simp_all add: valid_name_def config_name_chars_def)
  then have t: "texts ?L ''logs'' ?doc = [''doc'']"
    by (auto simp: texts_def ListAllMember_simps join_name_def one_doc_def)
  have lossy: "lossy_define demo_define = demo_define"
    by (simp add: lossy_define_def lossy_appender_def known_type_def demo_define_def)
  have v: "LexicalCast_to_LogDefines ?L ''doc'' = Inr [demo_define]"
    using cast_of_nodes [of ?L "''doc''" define_node "[demo_define]" lossy_define]
    by (simp add: one_doc_def read_define_node lossy)
  have "\<forall>i \<in> set [demo_define]. is_change (logs_value a (cs_cfg p)) i \<and> (\<forall>d \<in> set (ld_appenders i). lad_type d \<in> {1, 2})"
    by (simp add: p(4) is_change_def demo_define_def)
  from logs_document_configures [OF log_start demo_fit(2) p(3) t v this, of site] p(1,2)
  show "\<exists>p s' c'. static_init False ?L sizes (\<lambda>_. Inr '''') ((demo_env, site), LogManager_new) = Inr p \<and>
    LoadFromYaml ?L ?doc (cs_world p, cs_cfg p) = (None, ((demo_env, site), s'), c') \<and> configured demo_define s'"
    by auto
qed

end
