(* ===== verification/Utils.thy ===== *)
theory Utils
  imports Vity_Prelude
begin

text \<open>
  \<^verbatim>\<open>vity/utils.h\<close>, \<^verbatim>\<open>vity/utils.cc\<close>: the ids and the printing of the call stack.
  What \<^verbatim>\<open>malloc\<close>, \<^verbatim>\<open>backtrace\<close> and \<^verbatim>\<open>backtrace_symbols\<close> deliver is the record
  \<open>stack_env\<close>: the descriptions of the active frames, innermost first, and whether the two
  allocations succeed. The messages logged are a result.
\<close>

record stack_env =
  se_frames :: "string list"
  se_malloc :: "64 word \<Rightarrow> bool"
  se_symbols :: bool
  se_tid :: "32 word"

definition GetThreadId :: "stack_env \<Rightarrow> 32 word" where
  "GetThreadId E = se_tid E"

definition GetFiberId :: "32 word" where
  "GetFiberId = 0"

text \<open>
  The loop \<^verbatim>\<open>for(int i = skip; i < nptrs; ++i)\<close> over the array of symbols: an index below
  zero is outside of it.
\<close>

function push_symbols :: "string list \<Rightarrow> int \<Rightarrow> string list \<Rightarrow> string list res" where
  "push_symbols strings i bt =
    (if i < int (length strings) then
       (if i < 0 then Inl (Undefined ''strings[i]'')
        else push_symbols strings (i + 1) (bt @ [strings ! nat i]))
     else Inr bt)"
  by pat_completeness auto
termination
  by (relation "measure (\<lambda>(strings, i, bt). nat (int (length strings) - i))") auto

declare push_symbols.simps [simp del]

text \<open>
  \<^verbatim>\<open>Backtrace\<close>: \<open>size\<close> and \<open>skip\<close> are of type \<^verbatim>\<open>int\<close>; the product with the size of a
  pointer is computed in 64 bits, and \<^verbatim>\<open>backtrace\<close> stores nothing for a size that is not
  positive. The result holds the vector and the messages logged.
\<close>

definition Backtrace ::
  "stack_env \<Rightarrow> string list \<Rightarrow> 32 word \<Rightarrow> 32 word \<Rightarrow> (string list \<times> string list) res"
where
  "Backtrace E bt size' skip =
    (if \<not> se_malloc E (8 * scast size') then Inr (bt, [''Backtrace malloc array error''])
     else if \<not> se_symbols E then Inr (bt, [''backtrace_symbols error''])
     else bindR (push_symbols (take (nat (sint size')) (se_frames E)) (sint skip) bt) (\<lambda>bt'. Inr (bt', [])))"

definition BacktraceToString ::
  "stack_env \<Rightarrow> 32 word \<Rightarrow> 32 word \<Rightarrow> string \<Rightarrow> (string \<times> string list) res"
where
  "BacktraceToString E size' skip prefix =
    bindR (Backtrace E [] size' skip) (\<lambda>(bt, msgs).
      Inr (fold (\<lambda>line ss. ss @ prefix @ line @ [CHR 0x0A]) bt [], msgs))"

lemma push_symbols_drop: "0 \<le> i \<Longrightarrow> push_symbols strings i bt = Inr (bt @ drop (nat i) strings)"
proof (induction strings i bt rule: push_symbols.induct)
  case (1 strings i bt)
  show ?case
  proof (cases "i < int (length strings)")
    case True
    then have "push_symbols strings i bt = push_symbols strings (i + 1) (bt @ [strings ! nat i])"
      using 1(2) by (subst push_symbols.simps) simp
    moreover have "push_symbols strings (i + 1) (bt @ [strings ! nat i]) = Inr ((bt @ [strings ! nat i]) @ drop (nat (i + 1)) strings)"
      using 1 True by simp
    moreover have "strings ! nat i # drop (nat (i + 1)) strings = drop (nat i) strings"
      using True 1(2) by (simp add: nat_add_distrib Cons_nth_drop_Suc)
    ultimately show ?thesis by simp
  qed (simp add: push_symbols.simps [of strings i])
qed

lemma push_symbols_negative:
  "i < 0 \<Longrightarrow> push_symbols strings i bt = (if i < int (length strings) then Inl (Undefined ''strings[i]'') else Inr bt)"
  by (subst push_symbols.simps) simp

lemma fold_append_lines: "fold (\<lambda>line ss. ss @ f line) xs ss = ss @ concat (map f xs)"
  by (induction xs arbitrary: ss) simp_all

text \<open>
  \<^verbatim>\<open>BacktraceToString\<close>, every case: with a \<open>skip\<close> that is not negative the text is one line,
  after the prefix, for each of the innermost \<open>size\<close> frames without the first \<open>skip\<close>, and empty,
  with one message logged, if memory runs out; it never reads outside the array. A negative
  \<open>skip\<close> reads before the array.
\<close>
theorem BacktraceToString_lines:
  "BacktraceToString E size' skip prefix =
    (if \<not> se_malloc E (8 * scast size') then Inr ([], [''Backtrace malloc array error''])
     else if \<not> se_symbols E then Inr ([], [''backtrace_symbols error''])
     else if sint skip < 0 then Inl (Undefined ''strings[i]'')
     else Inr (concat (map (\<lambda>line. prefix @ line @ [CHR 0x0A])
            (drop (nat (sint skip)) (take (nat (sint size')) (se_frames E)))), []))"
  by (simp add: BacktraceToString_def Backtrace_def push_symbols_drop push_symbols_negative fold_append_lines)

end
