(* ===== verification/Assertions.thy ===== *)
theory Assertions
  imports Loggers Utils
begin

text \<open>
  The assertion macros of \<^verbatim>\<open>vity/macro.h\<close>: what a failed assertion reports through the root
  logger, with the backtrace of \<^verbatim>\<open>vity/utils.cc\<close>, before it aborts, and
  \<^verbatim>\<open>vity/singleton.h\<close>, through which the macros reach the log manager. In the other theories a
  failed assertion is just the value \<open>Assertion\<close>.
\<close>

section \<open>Singletons\<close>

text \<open>
  A static local variable: \<open>st\<close> is its content once the function has been called, \<open>build\<close> the
  constructor, which acts on the rest of the program.
\<close>

definition Singleton_GetInstance :: "('s \<Rightarrow> 'a \<times> 's) \<Rightarrow> 'a option \<times> 's \<Rightarrow> 'a \<times> 'a option \<times> 's" where
  "Singleton_GetInstance build = (\<lambda>(st, s).
    case st of
      Some t \<Rightarrow> (t, Some t, s)
    | None \<Rightarrow> (case build s of (t, s') \<Rightarrow> (t, Some t, s')))"

lemma Singleton_once:
  "Singleton_GetInstance build (st, s) = (t, st', s') \<Longrightarrow>
     st' = Some t \<and> Singleton_GetInstance build (st', s') = (t, st', s') \<and> (\<forall>u. st = Some u \<longrightarrow> t = u \<and> s' = s)"
  by (auto simp: Singleton_GetInstance_def split: option.splits prod.splits)

section \<open>The assertion macros\<close>

text \<open>
  A record of level ERROR, written by the destructor of the wrapper or through the macro; what fails
  on the way is a fault beside the state.
\<close>

definition outcome :: "log_sys \<Rightarrow> log_sys res option \<Rightarrow> fault option \<times> log_sys" where
  "outcome s r = (case r of
      None \<Rightarrow> (Some (Undefined ''recursion''), s)
    | Some (Inl e) \<Rightarrow> (Some e, s)
    | Some (Inr s') \<Rightarrow> (None, s'))"

fun log_errors :: "log_env \<Rightarrow> nat \<Rightarrow> log_site \<Rightarrow> string list \<Rightarrow> log_sys \<Rightarrow> fault option \<times> log_sys" where
  "log_errors env g site [] s = (None, s)"
| "log_errors env g site (m # ms) s =
     (case outcome s (log_macro 2 env g ERROR site m s) of
        (Some e, s') \<Rightarrow> (Some e, s')
      | (None, s') \<Rightarrow> log_errors env g site ms s')"

text \<open>
  The record of a failed assertion. The macro asks for the level first; the backtrace, which is an
  operand of the stream, is then taken, and logs its own troubles to the logger \<open>g\<close> of
  \<^verbatim>\<open>utils.cc\<close>, before the record goes out at the end of the statement.
\<close>

definition assertion_text :: "string \<Rightarrow> string \<Rightarrow> string \<Rightarrow> string" where
  "assertion_text expr w bt = ''ASSERTION: '' @ expr @ w @ [CHR 0x0A] @ ''backtrace:'' @ [CHR 0x0A] @ bt"

definition report_assertion ::
  "log_env \<Rightarrow> stack_env \<Rightarrow> nat \<Rightarrow> log_site \<Rightarrow> log_site \<Rightarrow> string \<Rightarrow> string \<Rightarrow> log_sys \<Rightarrow> fault option \<times> log_sys"
where
  "report_assertion env E g usite site expr w s =
    (if lg_level (loggers s ! m_root s) \<le> ERROR then
       (case BacktraceToString E 100 2 ''    '' of
          Inl e \<Rightarrow> (Some e, s)
        | Inr (bt, msgs) \<Rightarrow>
            (case log_errors env g usite msgs s of
               (Some e, s1) \<Rightarrow> (Some e, s1)
             | (None, s1) \<Rightarrow>
                 outcome s1 (LogEventWrap_delete 2 env
                   (LogEvent_append (assertion_text expr w bt) (event_at (m_root s) ERROR site)) s1)))
     else (None, s))"

text \<open>
  \<^verbatim>\<open>assert\<close> evaluates the expression again, \<open>x'\<close>. The fault \<open>Assertion\<close> is the abort.
\<close>

definition VITY_ASSERT ::
  "log_env \<Rightarrow> stack_env \<Rightarrow> nat \<Rightarrow> log_site \<Rightarrow> log_site \<Rightarrow> string \<Rightarrow> bool \<Rightarrow> bool \<Rightarrow> log_sys \<Rightarrow> fault option \<times> log_sys"
where
  "VITY_ASSERT env E g usite site expr x x' s =
    (if x then (None, s)
     else
       (case report_assertion env E g usite site expr [] s of
          (Some e, s') \<Rightarrow> (Some e, s')
        | (None, s') \<Rightarrow> if x' then (None, s') else (Some (Assertion expr), s')))"

definition VITY_ASSERT2 ::
  "log_env \<Rightarrow> stack_env \<Rightarrow> nat \<Rightarrow> log_site \<Rightarrow> log_site \<Rightarrow> string \<Rightarrow> string \<Rightarrow> bool \<Rightarrow> bool \<Rightarrow> log_sys \<Rightarrow> fault option \<times> log_sys"
where
  "VITY_ASSERT2 env E g usite site expr w x x' s =
    (if x then (None, s)
     else
       (case report_assertion env E g usite site expr ([CHR 0x0A] @ w) s of
          (Some e, s') \<Rightarrow> (Some e, s')
        | (None, s') \<Rightarrow> if x' then (None, s') else (Some (Assertion expr), s')))"

section \<open>What a failed assertion leaves in the logs\<close>

lemma log_errors_result:
  assumes "log_run s" "dates_fit env s" "g < length (loggers s)"
  shows "\<exists>s'. log_errors env g site ms s = (None, s') \<and> log_run s' \<and> log_frame s s'"
  using assms
proof (induction ms arbitrary: s)
  case Nil
  then show ?case by (simp add: log_frame_def)
next
  case (Cons m ms)
  obtain s1 where s1: "log_macro 2 env g ERROR site m s = Some (Inr s1)" "log_later s s1" "log_frame s s1"
    using log_macro_result [OF Cons.prems] by blast
  have "log_run s1" using s1(2) Cons.prems(1) by (rule log_later_run)
  moreover have "g < length (loggers s1)" using s1(3) Cons.prems(3) by (simp add: log_frame_def)
  moreover have "dates_fit env s1" using Cons.prems(2) s1(3) by (rule dates_fit_frame)
  ultimately obtain s2 where "log_errors env g site ms s1 = (None, s2)" "log_run s2" "log_frame s1 s2"
    using Cons.IH by blast
  with s1 show ?case by (auto simp: outcome_def intro: log_frame_trans)
qed


text \<open>The lines of the backtrace: the innermost frames but the two of the printing itself.\<close>

definition frame_lines :: "stack_env \<Rightarrow> string" where
  "frame_lines E = concat (map (\<lambda>line. ''    '' @ line @ [CHR 0x0A]) (drop 2 (take 100 (se_frames E))))"

lemma assertion_backtrace:
  "BacktraceToString E 100 2 ''    '' =
    (if \<not> se_malloc E 800 then Inr ([], [''Backtrace malloc array error''])
     else if \<not> se_symbols E then Inr ([], [''backtrace_symbols error''])
     else Inr (frame_lines E, []))"
proof -
  have "sint (2 :: 32 word) = 2" "sint (100 :: 32 word) = 100" by code_simp+
  then show ?thesis by (simp add: BacktraceToString_lines frame_lines_def)
qed

lemma report_assertion_result:
  assumes "log_run s" "dates_fit env s" "g < length (loggers s)"
  shows "\<exists>s'. report_assertion env E g usite site expr w s = (None, s') \<and> log_run s' \<and> log_frame s s'"
proof (cases "lg_level (loggers s ! m_root s) \<le> ERROR")
  case True
  obtain bt msgs where bt: "BacktraceToString E 100 2 ''    '' = Inr (bt, msgs)"
    by (cases "BacktraceToString E 100 2 ''    ''") (auto simp: assertion_backtrace split: if_splits)
  obtain s1 where s1: "log_errors env g usite msgs s = (None, s1)" "log_run s1" "log_frame s s1"
    using log_errors_result [OF assms] by blast
  have "m_root s < length (loggers s1)"
    using log_run_ok [OF s1(2)] s1(3) by (simp add: log_ok_def log_frame_def)
  from LogEventWrap_delete_result [OF s1(2) dates_fit_frame [OF assms(2) s1(3)] this] obtain s2 where
    "LogEventWrap_delete 2 env (LogEvent_append (assertion_text expr w bt) (event_at (m_root s) ERROR site)) s1 = Some (Inr s2)"
    "log_later s1 s2" "log_frame s1 s2" by blast
  with True bt s1 show ?thesis
    by (auto simp: report_assertion_def outcome_def intro: log_later_run log_frame_trans)
qed (simp add: report_assertion_def assms(1))

lemma report_assertion_text:
  assumes "log_run s" "dates_fit env s" "disk_ok env" "se_malloc E 800" "se_symbols E"
    and level: "lg_level (loggers s ! m_root s) \<le> ERROR"
    and ready: "\<forall>a \<in> set (lg_appenders (loggers s ! m_root s)). ready env (appenders s ! a)"
    and r: "report_assertion env E g usite site expr w s = (None, s')"
  shows "out_text d s' = out_text d s @ concat (map (record_text env (lg_name (loggers s ! m_root s)) ERROR
      (LogEvent_append (assertion_text expr w (frame_lines E)) (event_at (m_root s) ERROR site)) \<circ> (!) (appenders s))
    (filter (\<lambda>a. dest (appenders s ! a) = d) (lg_appenders (loggers s ! m_root s))))"
proof -
  let ?ev = "LogEvent_append (assertion_text expr w (frame_lines E)) (event_at (m_root s) ERROR site)"
  have root: "m_root s < length (loggers s)" "lg_root (loggers s ! m_root s) = None"
    using log_run_ok [OF assms(1)] by (simp_all add: log_ok_def)
  then have target: "log_target s (m_root s) = m_root s" by (simp add: log_target_def)
  have "BacktraceToString E 100 2 ''    '' = Inr (frame_lines E, [])"
    using assms(4,5) by (simp add: assertion_backtrace)
  with r level have "Logger_log 2 env (m_root s) ERROR ?ev s = Some (Inr s')"
    by (auto simp: report_assertion_def outcome_def LogEventWrap_delete_def event_at_sel
        simp del: Logger_log.simps split: option.splits sum.splits)
  moreover note Logger_log_writes [OF assms(1) root(1) assms(2,3), where level = ERROR and ev = ?ev, unfolded target, OF ready]
  ultimately show ?thesis using level
    by (auto simp: log_passes_def target comp_def simp del: Logger_log.simps)
qed

text \<open>
  C30. A failed assertion is reported and aborts. Whatever the memory and the stack, in every state the loggers can
  reach in which the dates of the formatters in use fit the buffer of 64 bytes, the report itself never fails, changes no logger,
  and the program aborts with the asserted expression. If besides memory suffices, the disk works, the root logger lets errors
  through and its appenders are able to write, each of these whose own level lets errors through has written exactly one record, which holds
  the expression and the active frames but the innermost two, one per line. An assertion that holds does nothing.
\<close>
theorem assertion_reports:
  assumes "log_run s" and "dates_fit env s" and "g < length (loggers s)"
  shows "\<exists>s'. VITY_ASSERT env E g usite site expr False False s = (Some (Assertion expr), s') \<and> log_frame s s' \<and>
    (disk_ok env \<and> se_malloc E 800 \<and> se_symbols E \<and> lg_level (loggers s ! m_root s) \<le> ERROR \<and>
       (\<forall>a \<in> set (lg_appenders (loggers s ! m_root s)). ready env (appenders s ! a)) \<longrightarrow>
     (\<forall>d. out_text d s' = out_text d s @ concat (map (record_text env (lg_name (loggers s ! m_root s)) ERROR
          (LogEvent_append (assertion_text expr [] (frame_lines E)) (event_at (m_root s) ERROR site)) \<circ> (!) (appenders s))
        (filter (\<lambda>a. dest (appenders s ! a) = d) (lg_appenders (loggers s ! m_root s)))))) \<and>
    VITY_ASSERT env E g usite site expr True x' s = (None, s)"
proof -
  obtain s' where s': "report_assertion env E g usite site expr [] s = (None, s')" "log_frame s s'"
    using report_assertion_result [OF assms] by blast
  note written = report_assertion_text [OF assms(1,2) _ _ _ _ _ s'(1)]
  show ?thesis using s' written by (intro exI [of _ s']) (simp add: VITY_ASSERT_def)
qed

theorem assertion_reports_witness:
  "\<exists>s'. VITY_ASSERT demo_env \<lparr>se_frames = [''f0'', ''f1'', ''main''], se_malloc = (\<lambda>_. True), se_symbols = True, se_tid = 7\<rparr> 1
      (''utils.cc'', 20, 7, 0, 5, ''main'') (''scheduler.cc'', 18, 7, 0, 5, ''main'') ''threads > 0'' False False demo_logs =
    (Some (Assertion ''threads > 0''), s') \<and> log_frame demo_logs s'"
proof -
  have "(1 :: nat) < length (loggers demo_logs)" by (simp add: demo_logs_parts)
  from assertion_reports [OF demo_logs_run demo_fit(1) this] show ?thesis by blast
qed

end
